theory Spec2Isabelle
  imports Main "HOL-Library.Word"
begin

unbundle bit_operations_syntax

section \<open>Common notions\<close>

subsection \<open>Faults and results\<close>

text \<open>What the C++ does where it has no defined result: a failed \<open>assert\<close>, a null pointer
  dereferenced, a container read out of range, \<open>llvm_unreachable\<close>, a null pointer returned to
  a caller that does not look at it. None of them is an entry of the translator's error log.\<close>

datatype Fault = AssertionFailure | NullDereference | OutOfBounds | Unreachable | NullResult

definition bindF :: "Fault + 'a \<Rightarrow> ('a \<Rightarrow> Fault + 'b) \<Rightarrow> Fault + 'b" where
  "bindF m f = (case m of Inl e \<Rightarrow> Inl e | Inr x \<Rightarrow> f x)"

text \<open>The result of a function that also changes a state: a value, a fault, the end of the
  fuel of a recursion that need not end, or a construct this model does not cover. The state
  reached is kept beside it.\<close>

datatype 'a Result = Ok 'a | Fail Fault | OutOfFuel | Unmodelled

definition bindR :: "('a Result \<times> 's) \<Rightarrow> ('a \<Rightarrow> 's \<Rightarrow> 'b Result \<times> 's) \<Rightarrow> 'b Result \<times> 's" where
  "bindR m f = (case m of (Ok x, s) \<Rightarrow> f x s | (Fail e, s) \<Rightarrow> (Fail e, s)
                 | (OutOfFuel, s) \<Rightarrow> (OutOfFuel, s) | (Unmodelled, s) \<Rightarrow> (Unmodelled, s))"

subsection \<open>Types of the compiler IR\<close>

text \<open>A type of the compiler IR. Types are unique by structure, except struct types, which
  are unique by identity: a struct type is named here by its identity, and its name, its
  member types (none for an opaque struct) and its packing are kept in a table.\<close>

datatype Type =
    VoidTy | IntegerTy nat | FloatingPointTy nat | PointerTy Type nat | VectorTy Type nat
  | ArrayTy Type nat | FunctionTy Type "Type list" | StructTy nat

record StructType =
  st_name :: string
  st_elements :: "Type list option"
  st_isPacked :: bool

subsection \<open>Entries of the binary module\<close>

type_synonym SPIRVId = nat

type_synonym SPIRVWord = "32 word"

section \<open>The Legalizer (SPIRVRegularizeLLVM.cpp)\<close>

subsection \<open>The compiler-IR module, as far as the pass reads and writes it\<close>

datatype CallingConv = CallingConv_C | SPIR_FUNC | SPIR_KERNEL

datatype LinkageTypes =
  ExternalLinkage | InternalLinkage | PrivateLinkage | CommonLinkage | LinkOnceODRLinkage

datatype Attribute = NoUnwind | OtherAttr string

text \<open>An operand: an argument of the enclosing function, a function of the module (functions
  are unique by name in a module), the result of the instruction at a position of the
  enclosing block, or anything else.\<close>

datatype Operand = ArgumentV nat | FunctionV string | InstResultV nat | OtherV nat

datatype InstKind =
    CallInst Operand "Operand list"
  | BinaryOperator "Operand list"
  | ReturnInst "Operand option"
  | OtherInst "Operand list"

record Instruction =
  i_kind :: InstKind
  i_tailCall :: bool
  i_callingConv :: CallingConv
  i_attrs :: "Attribute list"
  i_possiblyExact :: bool
  i_exact :: bool
  i_metadata :: "(string \<times> nat) list"

record Function =
  f_name :: string
  f_callingConv :: CallingConv
  f_linkage :: LinkageTypes
  f_returnType :: Type
  f_params :: "Type list"
  f_argNames :: "string list"
  f_attrs :: "Attribute list"
  f_metadata :: "(nat \<times> nat) list"
  f_blocks :: "Instruction list list"

text \<open>The named metadata \<open>spirv.ExecutionMode\<close>: absent, or a list of nodes; operand 0 of a
  node names a function (or is something else), the other operands are literals.\<close>

record Module =
  m_functions :: "Function list"
  m_executionMode :: "(string option \<times> nat list) list option"

definition isDeclaration :: "Function \<Rightarrow> bool" where
  "isDeclaration F = (f_blocks F = [])"

definition getFunction :: "Module \<Rightarrow> string \<Rightarrow> Function option" where
  "getFunction M n = find (\<lambda>F. f_name F = n) (m_functions M)"

definition updateFunction :: "string \<Rightarrow> (Function \<Rightarrow> Function) \<Rightarrow> Module \<Rightarrow> Module" where
  "updateFunction n g M =
     M\<lparr>m_functions := map (\<lambda>F. if f_name F = n then g F else F) (m_functions M)\<rparr>"

fun operandsOf :: "InstKind \<Rightarrow> Operand list" where
  "operandsOf (CallInst c args) = c # args"
| "operandsOf (BinaryOperator ops) = ops"
| "operandsOf (ReturnInst None) = []"
| "operandsOf (ReturnInst (Some v)) = [v]"
| "operandsOf (OtherInst ops) = ops"

definition instructionsOf :: "Module \<Rightarrow> Instruction list" where
  "instructionsOf M = concat (concat (map f_blocks (m_functions M)))"

text \<open>\<open>F->use_empty()\<close>: no instruction of the module has the function as an operand.\<close>

definition use_empty :: "Module \<Rightarrow> string \<Rightarrow> bool" where
  "use_empty M n = (\<not> list_ex (\<lambda>I. FunctionV n \<in> set (operandsOf (i_kind I))) (instructionsOf M))"

text \<open>The functions that some call instruction of the module calls directly.\<close>

fun calledFunction :: "InstKind \<Rightarrow> string option" where
  "calledFunction (CallInst (FunctionV n) args) = Some n"
| "calledFunction k = None"


subsection \<open>addKernelEntryPoint\<close>

text \<open>Modelled from the spec: \<open>getOrCreateFunction\<close> is a helper of the repository that is not
  in the source files at hand. By its name and its use it hands back the module's function of
  the requested name, or else adds a declaration of the requested type (external linkage, no
  attributes, no metadata, no body) at the end of the module.\<close>

definition getOrCreateFunction :: "Module \<Rightarrow> Type \<Rightarrow> Type list \<Rightarrow> string \<Rightarrow> Module" where
  "getOrCreateFunction M RetTy ArgTypes Name =
     (case getFunction M Name of
        Some F \<Rightarrow> M
      | None \<Rightarrow> M\<lparr>m_functions := m_functions M @
          [\<lparr>f_name = Name, f_callingConv = SPIR_FUNC, f_linkage = ExternalLinkage,
            f_returnType = RetTy, f_params = ArgTypes,
            f_argNames = replicate (length ArgTypes) [], f_attrs = [], f_metadata = [],
            f_blocks = []\<rparr>]\<rparr>)"

text \<open>The block the pass builds in the wrapper: a call of \<open>F\<close> on the wrapper's own arguments,
  with the calling convention \<open>F\<close> has at that moment and \<open>F\<close>'s attributes, and a return of
  the call's result (of nothing for \<open>void\<close>).\<close>

definition wrapperCall :: "Function \<Rightarrow> Instruction" where
  "wrapperCall F =
     \<lparr>i_kind = CallInst (FunctionV (f_name F)) (map ArgumentV [0 ..< length (f_params F)]),
      i_tailCall = False, i_callingConv = f_callingConv F, i_attrs = f_attrs F,
      i_possiblyExact = False, i_exact = False, i_metadata = []\<rparr>"

definition wrapperRet :: "Function \<Rightarrow> Instruction" where
  "wrapperRet F =
     \<lparr>i_kind = ReturnInst (if f_returnType F = VoidTy then None else Some (InstResultV 0)),
      i_tailCall = False, i_callingConv = CallingConv_C, i_attrs = [],
      i_possiblyExact = False, i_exact = False, i_metadata = []\<rparr>"

text \<open>What the loop body does to the wrapper function, given the kernel \<open>F\<close> (already turned
  into a \<open>SPIR_FUNC\<close>).\<close>

definition fillWrapper :: "Function \<Rightarrow> Function \<Rightarrow> Function" where
  "fillWrapper F WrapFn =
     WrapFn\<lparr>f_blocks := f_blocks WrapFn @ [[wrapperCall F, wrapperRet F]],
            f_argNames := f_argNames F,
            f_attrs := f_attrs F,
            f_metadata := f_metadata WrapFn @ f_metadata F,
            f_callingConv := SPIR_KERNEL,
            f_linkage := InternalLinkage\<rparr>"

definition redirectExecutionMode :: "string \<Rightarrow> string \<Rightarrow> Module \<Rightarrow> Module" where
  "redirectExecutionMode FName WrapName M =
     M\<lparr>m_executionMode :=
         map_option (map (\<lambda>(MDF, ops). (if MDF = Some FName then Some WrapName else MDF, ops)))
           (m_executionMode M)\<rparr>"

text \<open>One iteration of the loop over \<open>Work\<close>; \<open>EntrypointPrefix\<close> is the constant
  \<open>kSPIRVName::EntrypointPrefix\<close>, whose declaration is not in the source files at hand.\<close>

definition addKernelEntryPoint_body :: "string \<Rightarrow> string \<Rightarrow> Module \<Rightarrow> Module" where
  "addKernelEntryPoint_body EntrypointPrefix FName M =
     (let M1 = updateFunction FName (\<lambda>F. F\<lparr>f_callingConv := SPIR_FUNC\<rparr>) M in
      case getFunction M1 FName of
        None \<Rightarrow> M1
      | Some F \<Rightarrow>
          if isDeclaration F then M1
          else
            let WrapName = EntrypointPrefix @ f_name F;
                M2 = getOrCreateFunction M1 (f_returnType F) (f_params F) WrapName;
                M3 = updateFunction WrapName (fillWrapper F) M2
            in redirectExecutionMode (f_name F) WrapName M3)"

definition addKernelEntryPoint :: "string \<Rightarrow> Module \<Rightarrow> Module" where
  "addKernelEntryPoint EntrypointPrefix M =
     (let Work = map f_name (filter (\<lambda>F. f_callingConv F = SPIR_KERNEL) (m_functions M))
      in fold (addKernelEntryPoint_body EntrypointPrefix) Work M)"

subsection \<open>regularize and runOnModule\<close>

definition isIntrinsic :: "string \<Rightarrow> bool" where
  "isIntrinsic n = (take 5 n = ''llvm.'')"

definition MDs :: "string list" where
  "MDs = [''fpmath'', ''tbaa'', ''range'']"

text \<open>The body of the innermost loop of \<open>regularize\<close>, for one instruction.\<close>

definition regularizeInstruction :: "Instruction \<Rightarrow> Instruction" where
  "regularizeInstruction II =
     (let I1 = (case i_kind II of
                  CallInst c args \<Rightarrow>
                    (let Call = II\<lparr>i_tailCall := False\<rparr> in
                     case calledFunction (i_kind II) of
                       Some CF \<Rightarrow>
                         if isIntrinsic CF
                         then Call\<lparr>i_attrs := filter (\<lambda>a. a \<noteq> NoUnwind) (i_attrs Call)\<rparr>
                         else Call
                     | None \<Rightarrow> Call)
                | _ \<Rightarrow> II);
          I2 = (case i_kind I1 of
                  BinaryOperator ops \<Rightarrow>
                    if i_possiblyExact I1 \<and> i_exact I1 then I1\<lparr>i_exact := False\<rparr> else I1
                | _ \<Rightarrow> I1)
      in I2\<lparr>i_metadata := filter (\<lambda>(k, n). k \<notin> set MDs) (i_metadata I2)\<rparr>)"

text \<open>The loop over the functions of the module: an unused declaration is erased, every
  instruction of the other functions is cleaned.\<close>

definition regularizeFunctions :: "Module \<Rightarrow> Module" where
  "regularizeFunctions M =
     M\<lparr>m_functions :=
         map (\<lambda>F. F\<lparr>f_blocks := map (map regularizeInstruction) (f_blocks F)\<rparr>)
           (filter (\<lambda>F. \<not> (isDeclaration F \<and> use_empty M (f_name F))) (m_functions M))\<rparr>"

text \<open>The parts of the pass that live outside the source files at hand, and LLVM's verifier,
  are parameters: \<open>eraseUselessFunctions\<close> and \<open>lowerFuncPtr\<close> rewrite the module,
  \<open>verifyModule\<close> answers \<open>True\<close> for a broken module, as LLVM's does.\<close>

record Env =
  eraseUselessFunctions :: "Module \<Rightarrow> Module"
  lowerFuncPtr :: "Module \<Rightarrow> Module"
  verifyModule :: "Module \<Rightarrow> bool"
  EntrypointPrefix :: string

text \<open>\<open>regularize\<close> returns \<open>false\<close> when the verifier rejects the module it produced; the
  module is changed in place either way. (\<open>SPIRVDbgSaveRegularizedModule\<close> is a constant
  \<open>false\<close>, so nothing is saved.)\<close>

definition regularize :: "Env \<Rightarrow> Module \<Rightarrow> bool \<times> Module" where
  "regularize E M =
     (let M1 = eraseUselessFunctions E M;
          M2 = lowerFuncPtr E M1;
          M3 = addKernelEntryPoint (EntrypointPrefix E) M2;
          M4 = regularizeFunctions M3
      in if verifyModule E M4 then (False, M4) else (True, M4))"

text \<open>\<open>runOnModule\<close>: the value of \<open>regularize()\<close> is not read; the verifier runs once more and
  its answer only selects a debug message (printed by a debug build asked to); the pass
  returns \<open>true\<close>.\<close>

record PassResult =
  pr_return :: bool
  pr_module :: Module
  pr_debug :: "string list"

definition runOnModule :: "Env \<Rightarrow> Module \<Rightarrow> PassResult" where
  "runOnModule E Module0 =
     (let M = snd (regularize E Module0) in
      \<lparr>pr_return = True,
       pr_module = M,
       pr_debug = [''Enter SPIRVRegularizeLLVM:'', ''After SPIRVRegularizeLLVM:''] @
                  (if verifyModule E M then [''Fails to verify module: ''] else [])\<rparr>)"

subsection \<open>What addKernelEntryPoint computes, in closed form\<close>



text \<open>The functions of a set of names, turned into \<open>SPIR_FUNC\<close>s.\<close>

definition demote :: "string set \<Rightarrow> Function \<Rightarrow> Function" where
  "demote N F = (if f_name F \<in> N then F\<lparr>f_callingConv := SPIR_FUNC\<rparr> else F)"









lemma names_demote: "map f_name (map (demote N) fs) = map f_name fs"
  by (induction fs) (auto simp: demote_def)












lemma set_names_demote: "f_name ` set (map (demote N) fs) = f_name ` set fs"
  by (induction fs) (auto simp: demote_def)









subsection \<open>Concrete modules\<close>

text \<open>The metadata kind of a \<open>!dbg\<close> attachment, and one rule of LLVM's verifier: a module is
  broken when the same \<open>!dbg\<close> node is attached to two function definitions.\<close>

definition MD_dbg :: nat where "MD_dbg = 0"

definition dbgAttachedTwice :: "Module \<Rightarrow> bool" where
  "dbgAttachedTwice M =
     (let atts = concat (map (\<lambda>F. if isDeclaration F then []
                                   else map snd (filter (\<lambda>(k, n). k = MD_dbg) (f_metadata F)))
                          (m_functions M))
      in \<not> distinct atts)"

definition retVoid :: Instruction where
  "retVoid = \<lparr>i_kind = ReturnInst None, i_tailCall = False, i_callingConv = CallingConv_C,
     i_attrs = [], i_possiblyExact = False, i_exact = False, i_metadata = []\<rparr>"

text \<open>A module with one kernel definition \<open>k\<close>, compiled with debug information, that no
  instruction calls.\<close>

definition kernelK :: Function where
  "kernelK = \<lparr>f_name = ''k'', f_callingConv = SPIR_KERNEL, f_linkage = ExternalLinkage,
     f_returnType = VoidTy, f_params = [], f_argNames = [], f_attrs = [],
     f_metadata = [(MD_dbg, 7)], f_blocks = [[retVoid]]\<rparr>"

definition moduleK :: Module where
  "moduleK = \<lparr>m_functions = [kernelK], m_executionMode = Some [(Some ''k'', [17, 4, 1, 1])]\<rparr>"

definition envK :: Env where
  "envK = \<lparr>eraseUselessFunctions = (\<lambda>M. M), lowerFuncPtr = (\<lambda>M. M),
            verifyModule = dbgAttachedTwice, EntrypointPrefix = ''__spirv_entry_''\<rparr>"







text \<open>Claim C1. \<open>regularize\<close> answers \<open>false\<close> exactly when the verifier rejects the
  normalized module, and \<open>runOnModule\<close> answers \<open>true\<close> with that same module whatever the
  verifier said: the pass has no way left to tell its caller. On \<open>moduleK\<close> the copy of
  the \<open>!dbg\<close> attachment to the wrapper breaks the module, \<open>regularize\<close> answers \<open>false\<close>,
  and the pass still returns \<open>true\<close>; only the debug output mentions the failure.\<close>

lemma runOnModule_always_true:
  "pr_return (runOnModule E M) = True \<and> pr_module (runOnModule E M) = snd (regularize E M)
   \<and> fst (regularize E M) = (\<not> verifyModule E (snd (regularize E M)))"
  by (simp add: runOnModule_def regularize_def Let_def)

theorem runOnModule_broken_module:
  "verifyModule envK (snd (regularize envK moduleK))
   \<and> fst (regularize envK moduleK) = False
   \<and> pr_return (runOnModule envK moduleK) = True
   \<and> pr_module (runOnModule envK moduleK) = snd (regularize envK moduleK)
   \<and> pr_debug (runOnModule envK moduleK) =
        [''Enter SPIRVRegularizeLLVM:'', ''After SPIRVRegularizeLLVM:'', ''Fails to verify module: '']"
  by code_simp

section \<open>Loop-control hints (getLoopControl in SPIRVWriter.cpp, setLLVMLoopMetadata in SPIRVReader.cpp)\<close>

subsection \<open>Loop metadata and loop-control masks\<close>

text \<open>A metadata operand: a string, an integer constant (its zero-extended value), a node
  with operands, a distinct operand-less node used as an index group (with its identity), or
  the reference of a loop-ID node to itself.\<close>

datatype Metadata =
    MDString string
  | ConstantAsMetadata nat
  | MDNode "Metadata list"
  | IndexGroup nat
  | SelfRef

text \<open>The loop-control mask constants are declared in the SPIR-V header, which is not in the
  source files at hand: they are a parameter of the model.\<close>

record LoopControlMasks =
  LoopControlUnrollMask :: SPIRVWord
  LoopControlDontUnrollMask :: SPIRVWord
  LoopControlDependencyInfiniteMask :: SPIRVWord
  LoopControlDependencyLengthMask :: SPIRVWord
  LoopControlMinIterationsMask :: SPIRVWord
  LoopControlMaxIterationsMask :: SPIRVWord
  LoopControlIterationMultipleMask :: SPIRVWord
  LoopControlPeelCountMask :: SPIRVWord
  LoopControlPartialCountMask :: SPIRVWord
  InitiationIntervalINTEL :: SPIRVWord
  MaxConcurrencyINTEL :: SPIRVWord
  DependencyArrayINTEL :: SPIRVWord

definition LoopControlMaskNone :: SPIRVWord where
  "LoopControlMaskNone = 0"

text \<open>The helpers that read an operand of a node as a string, an integer or a node are not in
  the source files at hand either. By their names and their uses: the string of a string
  operand and the empty string for another operand; the value of an integer operand; the
  node of a node operand.\<close>

definition getMDOperandAsString :: "Metadata list \<Rightarrow> nat \<Rightarrow> Fault + string" where
  "getMDOperandAsString N I =
     (if I < length N then (case N ! I of MDString s \<Rightarrow> Inr s | _ \<Rightarrow> Inr [])
      else Inl OutOfBounds)"

definition getMDOperandAsInt :: "Metadata list \<Rightarrow> nat \<Rightarrow> Fault + nat" where
  "getMDOperandAsInt N I =
     (if I < length N then (case N ! I of ConstantAsMetadata v \<Rightarrow> Inr v | _ \<Rightarrow> Inl NullDereference)
      else Inl OutOfBounds)"

definition getMDOperandAsMDNode :: "Metadata list \<Rightarrow> nat \<Rightarrow> Fault + nat" where
  "getMDOperandAsMDNode N I =
     (if I < length N then (case N ! I of IndexGroup g \<Rightarrow> Inr g | _ \<Rightarrow> Inl AssertionFailure)
      else Inl OutOfBounds)"

subsection \<open>Encoding: getLoopControl\<close>

record LLVMParallelAccessIndices =
  ArrayVariablesVec :: "SPIRVWord list"
  SafeLen :: SPIRVWord

fun collectIndexGroups ::
  "(nat \<rightharpoonup> SPIRVWord) \<Rightarrow> Metadata list \<Rightarrow> nat list \<Rightarrow> Fault + SPIRVWord list" where
  "collectIndexGroups IndexGroupArrayMap Node [] = Inr []"
| "collectIndexGroups IndexGroupArrayMap Node (I # Is) =
     bindF (getMDOperandAsMDNode Node I) (\<lambda>IdxGroupNode.
       case IndexGroupArrayMap IdxGroupNode of
         None \<Rightarrow> Inl AssertionFailure
       | Some ArrayId \<Rightarrow>
           bindF (collectIndexGroups IndexGroupArrayMap Node Is) (\<lambda>rest. Inr (ArrayId # rest)))"

definition initialize ::
  "(nat \<rightharpoonup> SPIRVWord) \<Rightarrow> Metadata list \<Rightarrow> Fault + LLVMParallelAccessIndices" where
  "initialize IndexGroupArrayMap Node =
     (if Node = [] then Inl OutOfBounds else
      let NumOperands = length Node;
          SL = (case last Node of ConstantAsMetadata v \<Rightarrow> (word_of_nat v :: SPIRVWord) | _ \<Rightarrow> 0);
          NumIdxGroups = (if SL \<noteq> 0 then NumOperands - 2 else NumOperands - 1)
      in bindF (collectIndexGroups IndexGroupArrayMap Node [1 ..< Suc NumIdxGroups]) (\<lambda>vec.
           Inr \<lparr>ArrayVariablesVec = vec, SafeLen = SL\<rparr>))"

record LoopControlState =
  LoopControl :: SPIRVWord
  Parameters :: "SPIRVWord list"
  DependencyArrayParameters :: "(SPIRVWord \<times> SPIRVWord) list"

text \<open>The body of the loop over the operands of \<open>!llvm.loop\<close>, for an operand that is a node.\<close>

definition getLoopControl_node ::
  "LoopControlMasks \<Rightarrow> (nat \<rightharpoonup> SPIRVWord) \<Rightarrow> Metadata list \<Rightarrow> LoopControlState
     \<Rightarrow> Fault + LoopControlState" where
  "getLoopControl_node K IndexGroupArrayMap Node s =
     bindF (getMDOperandAsString Node 0) (\<lambda>S.
       if S = ''llvm.loop.unroll.disable'' then
         Inr (s\<lparr>LoopControl := LoopControl s OR LoopControlDontUnrollMask K\<rparr>)
       else if S = ''llvm.loop.unroll.full'' \<or> S = ''llvm.loop.unroll.enable'' then
         Inr (s\<lparr>LoopControl := LoopControl s OR LoopControlUnrollMask K\<rparr>)
       else if S = ''llvm.loop.unroll.count'' \<and>
                 \<not> (LoopControl s AND LoopControlDontUnrollMask K \<noteq> 0) then
         bindF (getMDOperandAsInt Node 1) (\<lambda>I.
           Inr (s\<lparr>Parameters := Parameters s @ [word_of_nat I],
                   LoopControl := LoopControl s OR LoopControlPartialCountMask K\<rparr>))
       else if S = ''llvm.loop.ivdep.enable'' then
         Inr (s\<lparr>LoopControl := LoopControl s OR LoopControlDependencyInfiniteMask K\<rparr>)
       else if S = ''llvm.loop.ivdep.safelen'' then
         bindF (getMDOperandAsInt Node 1) (\<lambda>I.
           Inr (s\<lparr>Parameters := Parameters s @ [word_of_nat I],
                   LoopControl := LoopControl s OR LoopControlDependencyLengthMask K\<rparr>))
       else if S = ''llvm.loop.ii.count'' then
         bindF (getMDOperandAsInt Node 1) (\<lambda>I.
           Inr (s\<lparr>Parameters := Parameters s @ [word_of_nat I],
                   LoopControl := LoopControl s OR InitiationIntervalINTEL K\<rparr>))
       else if S = ''llvm.loop.max_concurrency.count'' then
         bindF (getMDOperandAsInt Node 1) (\<lambda>I.
           Inr (s\<lparr>Parameters := Parameters s @ [word_of_nat I],
                   LoopControl := LoopControl s OR MaxConcurrencyINTEL K\<rparr>))
       else if S = ''llvm.loop.parallel_access_indices'' then
         bindF (initialize IndexGroupArrayMap Node) (\<lambda>IVDep.
           Inr (s\<lparr>DependencyArrayParameters := DependencyArrayParameters s @
                     map (\<lambda>ArrayId. (ArrayId, SafeLen IVDep)) (ArrayVariablesVec IVDep)\<rparr>))
       else Inr s)"

fun getLoopControl_operands ::
  "LoopControlMasks \<Rightarrow> (nat \<rightharpoonup> SPIRVWord) \<Rightarrow> Metadata list \<Rightarrow> LoopControlState
     \<Rightarrow> Fault + LoopControlState" where
  "getLoopControl_operands K IndexGroupArrayMap [] s = Inr s"
| "getLoopControl_operands K IndexGroupArrayMap (MDOp # MDOps) s =
     bindF (case MDOp of
              MDNode Node \<Rightarrow> getLoopControl_node K IndexGroupArrayMap Node s
            | SelfRef \<Rightarrow> Inr s
            | IndexGroup g \<Rightarrow> Inl OutOfBounds
            | _ \<Rightarrow> Inr s)
       (getLoopControl_operands K IndexGroupArrayMap MDOps)"

definition getLoopControl ::
  "LoopControlMasks \<Rightarrow> (nat \<rightharpoonup> SPIRVWord) \<Rightarrow> Metadata list option option
     \<Rightarrow> Fault + (SPIRVWord \<times> SPIRVWord list)" where
  "getLoopControl K IndexGroupArrayMap Branch =
     (case Branch of
        None \<Rightarrow> Inr (LoopControlMaskNone, [])
      | Some None \<Rightarrow> Inr (LoopControlMaskNone, [])
      | Some (Some LoopMD) \<Rightarrow>
          bindF (getLoopControl_operands K IndexGroupArrayMap LoopMD
                   \<lparr>LoopControl = LoopControlMaskNone, Parameters = [],
                    DependencyArrayParameters = []\<rparr>) (\<lambda>s.
            if DependencyArrayParameters s \<noteq> [] then
              Inr (LoopControl s OR DependencyArrayINTEL K,
                   Parameters s @ [word_of_nat (length (DependencyArrayParameters s))] @
                   concat (map (\<lambda>(a, l). [a, l]) (DependencyArrayParameters s)))
            else Inr (LoopControl s, Parameters s)))"

text \<open>The values the SPIR-V header gives the masks, for concrete evaluations.\<close>

definition spv :: LoopControlMasks where
  "spv = \<lparr>LoopControlUnrollMask = 0x1, LoopControlDontUnrollMask = 0x2,
     LoopControlDependencyInfiniteMask = 0x4, LoopControlDependencyLengthMask = 0x8,
     LoopControlMinIterationsMask = 0x10, LoopControlMaxIterationsMask = 0x20,
     LoopControlIterationMultipleMask = 0x40, LoopControlPeelCountMask = 0x80,
     LoopControlPartialCountMask = 0x100, InitiationIntervalINTEL = 0x10000,
     MaxConcurrencyINTEL = 0x20000, DependencyArrayINTEL = 0x40000\<rparr>"


text \<open>The loop instruction the translation of a branch adds: a loop merge (merge block,
  continue target, loop control, parameters) or the unstructured loop control.\<close>

datatype LoopInst =
    SPIRVLoopMerge SPIRVWord SPIRVWord SPIRVWord "SPIRVWord list"
  | SPIRVLoopControlINTEL SPIRVWord "SPIRVWord list"

text \<open>A branch instruction of the compiler IR with what its translation reads: its
  \<open>!llvm.loop\<close> metadata, whether it is unconditional, the label of its own block, the labels
  of its successor 0 (\<open>SuccessorTrue\<close>) and, for a conditional branch, of its successor 1
  (\<open>SuccessorFalse\<close>), and the false label of the terminator that the block of successor 0
  has in the module under construction, when that block has been given a terminator and it is
  a conditional branch (\<open>SuccessorTrue->getTerminateInstr()\<close>).\<close>

record BranchInst =
  br_loopMD :: "Metadata list option"
  br_isUnconditional :: bool
  br_BB :: SPIRVWord
  br_SuccessorTrue :: SPIRVWord
  br_TermFalseLabel :: "SPIRVWord option"
  br_SuccessorFalse :: SPIRVWord

text \<open>The part of the branch case of \<open>transValueWithoutDecoration\<close> that adds the loop
  instruction: the result is the instruction with the block it is added to, which is the block
  of successor 0 whatever the shape of the loop.\<close>

definition transBranchLoopInst ::
  "LoopControlMasks \<Rightarrow> (nat \<rightharpoonup> SPIRVWord) \<Rightarrow> bool \<Rightarrow> BranchInst
     \<Rightarrow> Fault + (SPIRVWord \<times> LoopInst) option" where
  "transBranchLoopInst K IndexGroupArrayMap unstructuredLoopControls Branch =
     bindF (getLoopControl K IndexGroupArrayMap (Some (br_loopMD Branch))) (\<lambda>(LC, Params).
       if br_isUnconditional Branch then
         (if LC \<noteq> LoopControlMaskNone then
            (case br_TermFalseLabel Branch of
               Some FalseLabel \<Rightarrow>
                 Inr (Some (br_SuccessorTrue Branch, SPIRVLoopMerge FalseLabel (br_BB Branch) LC Params))
             | None \<Rightarrow>
                 if unstructuredLoopControls
                 then Inr (Some (br_SuccessorTrue Branch, SPIRVLoopControlINTEL LC Params))
                 else Inr None)
          else Inr None)
       else
         (if LC \<noteq> LoopControlMaskNone
          then Inr (Some (br_SuccessorTrue Branch,
                          SPIRVLoopMerge (br_SuccessorFalse Branch) (br_BB Branch) LC Params))
          else Inr None))"

fun getLoopControlOf :: "LoopInst \<Rightarrow> SPIRVWord" where
  "getLoopControlOf (SPIRVLoopMerge m c LC ps) = LC"
| "getLoopControlOf (SPIRVLoopControlINTEL LC ps) = LC"

fun getLoopControlParameters :: "LoopInst \<Rightarrow> SPIRVWord list" where
  "getLoopControlParameters (SPIRVLoopMerge m c LC ps) = ps"
| "getLoopControlParameters (SPIRVLoopControlINTEL LC ps) = ps"

subsection \<open>Decoding: setLLVMLoopMetadata\<close>

record LoopMDState =
  NumParam :: nat
  MetadataVec :: "Metadata list"
  ArraySflnMap :: "(SPIRVWord \<times> SPIRVWord) list"

definition getMetadataFromName :: "string \<Rightarrow> Metadata" where
  "getMetadataFromName Name = MDNode [MDString Name]"

definition getMetadataFromNameAndParameter :: "string \<Rightarrow> SPIRVWord \<Rightarrow> Metadata" where
  "getMetadataFromNameAndParameter Name Parameter =
     MDNode [MDString Name, ConstantAsMetadata (unat Parameter)]"

definition readParameter :: "SPIRVWord list \<Rightarrow> nat \<Rightarrow> Fault + SPIRVWord" where
  "readParameter LoopControlParameters I =
     (if I < length LoopControlParameters then Inr (LoopControlParameters ! I) else Inl OutOfBounds)"

definition nextParam :: "SPIRVWord list \<Rightarrow> LoopMDState \<Rightarrow> Fault + LoopMDState" where
  "nextParam LoopControlParameters s =
     (if Suc (NumParam s) \<le> length LoopControlParameters
      then Inr (s\<lparr>NumParam := Suc (NumParam s)\<rparr>) else Inl AssertionFailure)"

definition pushMD :: "Metadata \<Rightarrow> LoopMDState \<Rightarrow> LoopMDState" where
  "pushMD md s = s\<lparr>MetadataVec := MetadataVec s @ [md]\<rparr>"

definition stepUnroll :: "LoopControlMasks \<Rightarrow> SPIRVWord \<Rightarrow> LoopMDState \<Rightarrow> LoopMDState" where
  "stepUnroll K LC s =
     (if LC AND LoopControlUnrollMask K \<noteq> 0 \<and> \<not> (LC AND LoopControlPartialCountMask K \<noteq> 0)
      then pushMD (getMetadataFromName ''llvm.loop.unroll.enable'') s
      else if LC AND LoopControlDontUnrollMask K \<noteq> 0
      then pushMD (getMetadataFromName ''llvm.loop.unroll.disable'') s
      else s)"

definition stepDependencyInfinite :: "LoopControlMasks \<Rightarrow> SPIRVWord \<Rightarrow> LoopMDState \<Rightarrow> LoopMDState" where
  "stepDependencyInfinite K LC s =
     (if LC AND LoopControlDependencyInfiniteMask K \<noteq> 0
      then pushMD (getMetadataFromName ''llvm.loop.ivdep.enable'') s else s)"

definition stepDependencyLength ::
  "LoopControlMasks \<Rightarrow> SPIRVWord \<Rightarrow> SPIRVWord list \<Rightarrow> LoopMDState \<Rightarrow> Fault + LoopMDState" where
  "stepDependencyLength K LC LoopControlParameters s =
     (if LC AND LoopControlDependencyLengthMask K \<noteq> 0 then
        (if LoopControlParameters \<noteq> [] then
           bindF (readParameter LoopControlParameters (NumParam s)) (\<lambda>p.
             nextParam LoopControlParameters
               (pushMD (getMetadataFromNameAndParameter ''llvm.loop.ivdep.safelen'' p) s))
         else Inr s)
      else Inr s)"

definition stepSkipped :: "SPIRVWord \<Rightarrow> SPIRVWord \<Rightarrow> SPIRVWord list \<Rightarrow> LoopMDState \<Rightarrow> Fault + LoopMDState" where
  "stepSkipped Mask LC LoopControlParameters s =
     (if LC AND Mask \<noteq> 0 then nextParam LoopControlParameters s else Inr s)"

definition stepPartialCount ::
  "LoopControlMasks \<Rightarrow> SPIRVWord \<Rightarrow> SPIRVWord list \<Rightarrow> LoopMDState \<Rightarrow> Fault + LoopMDState" where
  "stepPartialCount K LC LoopControlParameters s =
     (if LC AND LoopControlPartialCountMask K \<noteq> 0 \<and> \<not> (LC AND LoopControlDontUnrollMask K \<noteq> 0) then
        bindF (readParameter LoopControlParameters (NumParam s)) (\<lambda>p.
          nextParam LoopControlParameters
            (if 1 = p \<and> LC AND LoopControlUnrollMask K \<noteq> 0
             then pushMD (getMetadataFromName ''llvm.loop.unroll.full'') s
             else pushMD (getMetadataFromNameAndParameter ''llvm.loop.unroll.count'' p) s))
      else Inr s)"

definition stepCount ::
  "SPIRVWord \<Rightarrow> string \<Rightarrow> SPIRVWord \<Rightarrow> SPIRVWord list \<Rightarrow> LoopMDState \<Rightarrow> Fault + LoopMDState" where
  "stepCount Mask Name LC LoopControlParameters s =
     (if LC AND Mask \<noteq> 0 then
        bindF (readParameter LoopControlParameters (NumParam s)) (\<lambda>p.
          nextParam LoopControlParameters (pushMD (getMetadataFromNameAndParameter Name p) s))
      else Inr s)"

text \<open>The array/safelen pairs of a dependency-array control, as the loop reads them (an array
  already in the map keeps its first safelen). The index groups the source then attaches to
  the loop's address computations are outside this model.\<close>

fun readPairs :: "SPIRVWord list \<Rightarrow> nat \<Rightarrow> LoopMDState \<Rightarrow> Fault + LoopMDState" where
  "readPairs LoopControlParameters 0 s = Inr s"
| "readPairs LoopControlParameters (Suc n) s =
     bindF (readParameter LoopControlParameters (NumParam s + 1)) (\<lambda>ArraySPIRVId.
     bindF (readParameter LoopControlParameters (NumParam s + 2)) (\<lambda>Safelen.
       readPairs LoopControlParameters n
         (s\<lparr>NumParam := NumParam s + 2,
            ArraySflnMap := (if ArraySPIRVId \<in> fst ` set (ArraySflnMap s) then ArraySflnMap s
                             else ArraySflnMap s @ [(ArraySPIRVId, Safelen)])\<rparr>)))"

definition stepDependencyArray ::
  "LoopControlMasks \<Rightarrow> SPIRVWord \<Rightarrow> SPIRVWord list \<Rightarrow> LoopMDState \<Rightarrow> Fault + LoopMDState" where
  "stepDependencyArray K LC LoopControlParameters s =
     (if LC AND DependencyArrayINTEL K \<noteq> 0 then
        bindF (readParameter LoopControlParameters (NumParam s)) (\<lambda>NumOperandPairs.
          let OperandsEndIndex = unat (word_of_nat (NumParam s) + NumOperandPairs * 2 :: SPIRVWord) in
          if OperandsEndIndex \<le> length LoopControlParameters
          then readPairs LoopControlParameters ((OperandsEndIndex - NumParam s + 1) div 2) s
          else Inl AssertionFailure)
      else Inr s)"

definition setLLVMLoopMetadata ::
  "LoopControlMasks \<Rightarrow> LoopInst option \<Rightarrow> Fault + (Metadata list \<times> (SPIRVWord \<times> SPIRVWord) list) option" where
  "setLLVMLoopMetadata K LM =
     (case LM of
        None \<Rightarrow> Inr None
      | Some lm \<Rightarrow>
          let LC = getLoopControlOf lm; P = getLoopControlParameters lm in
          if LC = LoopControlMaskNone then Inr (Some ([SelfRef], []))
          else
            bindF (stepDependencyLength K LC P
                    (stepDependencyInfinite K LC
                      (stepUnroll K LC \<lparr>NumParam = 0, MetadataVec = [SelfRef], ArraySflnMap = []\<rparr>)))
              (\<lambda>s. bindF (stepSkipped (LoopControlMinIterationsMask K) LC P s)
              (\<lambda>s. bindF (stepSkipped (LoopControlMaxIterationsMask K) LC P s)
              (\<lambda>s. bindF (stepSkipped (LoopControlIterationMultipleMask K) LC P s)
              (\<lambda>s. bindF (stepSkipped (LoopControlPeelCountMask K) LC P s)
              (\<lambda>s. bindF (stepPartialCount K LC P s)
              (\<lambda>s. bindF (stepCount (InitiationIntervalINTEL K) ''llvm.loop.ii.count'' LC P s)
              (\<lambda>s. bindF (stepCount (MaxConcurrencyINTEL K) ''llvm.loop.max_concurrency.count'' LC P s)
              (\<lambda>s. bindF (stepDependencyArray K LC P s)
              (\<lambda>s. Inr (Some (MetadataVec s, ArraySflnMap s))))))))))))"


text \<open>\<open>transLLVMLoopMetadata\<close>, for one loop of the decoded function: the loop instruction is
  looked up under the header of the loop (\<open>FuncLoopMetadataMap\<close> holds, for a block, the loop
  instruction found among its instructions), and a loop whose header has none gets no
  metadata. The loops and their headers come from LLVM's \<open>LoopInfo\<close>; blocks are named by
  their labels.\<close>

definition transLLVMLoopMetadata ::
  "LoopControlMasks \<Rightarrow> (SPIRVWord \<rightharpoonup> LoopInst) \<Rightarrow> SPIRVWord
     \<Rightarrow> Fault + (Metadata list \<times> (SPIRVWord \<times> SPIRVWord) list) option" where
  "transLLVMLoopMetadata K FuncLoopMetadataMap Header = setLLVMLoopMetadata K (FuncLoopMetadataMap Header)"

text \<open>The loop instructions of the blocks after the translation of one branch.\<close>

definition loopInstOf :: "(SPIRVWord \<times> LoopInst) option \<Rightarrow> (SPIRVWord \<rightharpoonup> LoopInst)" where
  "loopInstOf r = (case r of None \<Rightarrow> Map.empty | Some (b, i) \<Rightarrow> [b \<mapsto> i])"

text \<open>Encoding the latch branch of a loop, then decoding the metadata of the loop of the given
  header.\<close>

definition loopRoundTrip ::
  "LoopControlMasks \<Rightarrow> (nat \<rightharpoonup> SPIRVWord) \<Rightarrow> bool \<Rightarrow> BranchInst \<Rightarrow> SPIRVWord
     \<Rightarrow> Fault + (Metadata list \<times> (SPIRVWord \<times> SPIRVWord) list) option" where
  "loopRoundTrip K IndexGroupArrayMap unstructuredLoopControls Latch Header =
     bindF (transBranchLoopInst K IndexGroupArrayMap unstructuredLoopControls Latch)
       (\<lambda>r. transLLVMLoopMetadata K (loopInstOf r) Header)"

subsection \<open>The unroll-count hint\<close>

definition masksOtherThanPartialCount :: "LoopControlMasks \<Rightarrow> SPIRVWord list" where
  "masksOtherThanPartialCount K =
     [LoopControlUnrollMask K, LoopControlDontUnrollMask K, LoopControlDependencyInfiniteMask K,
      LoopControlDependencyLengthMask K, LoopControlMinIterationsMask K,
      LoopControlMaxIterationsMask K, LoopControlIterationMultipleMask K,
      LoopControlPeelCountMask K, InitiationIntervalINTEL K, MaxConcurrencyINTEL K,
      DependencyArrayINTEL K]"

definition unrollCountHint :: "nat \<Rightarrow> Metadata list" where
  "unrollCountHint n = [SelfRef, MDNode [MDString ''llvm.loop.unroll.count'', ConstantAsMetadata n]]"

text \<open>The merge block the encoder names: the false label of the header's conditional branch
  for an unconditional latch, successor 1 of the latch for a conditional one.\<close>

definition MergeBlock :: "BranchInst \<Rightarrow> SPIRVWord option" where
  "MergeBlock Br = (if br_isUnconditional Br then br_TermFalseLabel Br else Some (br_SuccessorFalse Br))"

text \<open>The latch of a \<open>do-while\<close> loop of header 10: a conditional branch in block 12 back to
  the header, out of the loop to block 13.\<close>

definition doWhileLatch :: BranchInst where
  "doWhileLatch = \<lparr>br_loopMD = Some (unrollCountHint 4), br_isUnconditional = False, br_BB = 12,
     br_SuccessorTrue = 10, br_TermFalseLabel = None, br_SuccessorFalse = 13\<rparr>"

text \<open>The latch of a loop of header 10 whose header does not end in a conditional branch (an
  infinite loop, or a header whose terminator is not translated yet): an unconditional branch
  in block 12 back to the header.\<close>

definition unstructuredLatch :: BranchInst where
  "unstructuredLatch = \<lparr>br_loopMD = Some (unrollCountHint 4), br_isUnconditional = True, br_BB = 12,
     br_SuccessorTrue = 10, br_TermFalseLabel = None, br_SuccessorFalse = 0\<rparr>"

text \<open>The latch of a loop of header 10 that leaves the loop on its true edge: a conditional
  branch in block 12 whose successor 0 is the exit block 13 and whose successor 1 is the
  header.\<close>

definition invertedLatch :: BranchInst where
  "invertedLatch = \<lparr>br_loopMD = Some (unrollCountHint 4), br_isUnconditional = False, br_BB = 12,
     br_SuccessorTrue = 13, br_TermFalseLabel = None, br_SuccessorFalse = 10\<rparr>"

lemma getLoopControl_unrollCount:
  "getLoopControl K IGM (Some (Some (unrollCountHint n))) = Inr (LoopControlPartialCountMask K, [word_of_nat n])"
  by (simp add: getLoopControl_def unrollCountHint_def getLoopControl_node_def bindF_def
      getMDOperandAsString_def getMDOperandAsInt_def LoopControlMaskNone_def)

lemma setLLVMLoopMetadata_partialCount:
  assumes nz: "LoopControlPartialCountMask K \<noteq> 0"
    and dj: "\<forall>m\<in>set (masksOtherThanPartialCount K). LoopControlPartialCountMask K AND m = 0"
    and n: "n < 2 ^ 32"
  shows "setLLVMLoopMetadata K (Some (SPIRVLoopMerge m c (LoopControlPartialCountMask K) [word_of_nat n]))
           = Inr (Some (unrollCountHint n, []))"
proof -
  have u: "unat (word_of_nat n :: SPIRVWord) = n"
    by (rule of_nat_inverse[OF refl]) (use n in simp)
  from dj have d:
    "LoopControlPartialCountMask K AND LoopControlUnrollMask K = 0"
    "LoopControlPartialCountMask K AND LoopControlDontUnrollMask K = 0"
    "LoopControlPartialCountMask K AND LoopControlDependencyInfiniteMask K = 0"
    "LoopControlPartialCountMask K AND LoopControlDependencyLengthMask K = 0"
    "LoopControlPartialCountMask K AND LoopControlMinIterationsMask K = 0"
    "LoopControlPartialCountMask K AND LoopControlMaxIterationsMask K = 0"
    "LoopControlPartialCountMask K AND LoopControlIterationMultipleMask K = 0"
    "LoopControlPartialCountMask K AND LoopControlPeelCountMask K = 0"
    "LoopControlPartialCountMask K AND InitiationIntervalINTEL K = 0"
    "LoopControlPartialCountMask K AND MaxConcurrencyINTEL K = 0"
    "LoopControlPartialCountMask K AND DependencyArrayINTEL K = 0"
    by (simp_all add: masksOtherThanPartialCount_def)
  show ?thesis
    using nz
    by (simp add: setLLVMLoopMetadata_def LoopControlMaskNone_def Let_def d u
        stepUnroll_def stepDependencyInfinite_def stepDependencyLength_def stepSkipped_def
        stepPartialCount_def stepCount_def stepDependencyArray_def bindF_def readParameter_def
        nextParam_def pushMD_def getMetadataFromNameAndParameter_def unrollCountHint_def)
qed

text \<open>Claim C7, amended. Let the loop-control masks be such that the partial-count mask is not
  empty and shares no bit with another mask (as in the SPIR-V header), and let the latch
  branch of a loop carry the hint \<open>llvm.loop.unroll.count n\<close> (any 32-bit \<open>n\<close>, in particular
  4). If successor 0 of the latch branch is the header of the loop and, when the latch branch
  is unconditional, the header already ends in a conditional branch, then the loop control
  computed is exactly the partial-count mask with the parameter list \<open>[n]\<close>, the encoder adds
  to the header a loop merge with that mask and that list, and decoding the loop of that
  header gives the same hint back.\<close>

theorem unroll_count_round_trip:
  assumes nz: "LoopControlPartialCountMask K \<noteq> 0"
    and dj: "\<forall>m\<in>set (masksOtherThanPartialCount K). LoopControlPartialCountMask K AND m = 0"
    and n: "n < 2 ^ 32"
    and md: "br_loopMD Br = Some (unrollCountHint n)"
    and s0: "br_SuccessorTrue Br = Header"
    and hd: "br_isUnconditional Br \<longrightarrow> br_TermFalseLabel Br \<noteq> None"
  shows "getLoopControl K IGM (Some (br_loopMD Br)) = Inr (LoopControlPartialCountMask K, [word_of_nat n])
       \<and> MergeBlock Br \<noteq> None
       \<and> transBranchLoopInst K IGM ext Br =
           Inr (map_option (\<lambda>M. (Header, SPIRVLoopMerge M (br_BB Br) (LoopControlPartialCountMask K) [word_of_nat n]))
                  (MergeBlock Br))
       \<and> loopRoundTrip K IGM ext Br Header = Inr (Some (unrollCountHint n, []))"
proof -
  have g: "getLoopControl K IGM (Some (br_loopMD Br)) = Inr (LoopControlPartialCountMask K, [word_of_nat n])"
    by (simp add: md getLoopControl_unrollCount)
  have "MergeBlock Br \<noteq> None" using hd by (simp add: MergeBlock_def)
  then obtain M where M: "MergeBlock Br = Some M" by blast
  have t: "transBranchLoopInst K IGM ext Br =
           Inr (Some (Header, SPIRVLoopMerge M (br_BB Br) (LoopControlPartialCountMask K) [word_of_nat n]))"
    using nz M s0
    by (auto simp: transBranchLoopInst_def g bindF_def LoopControlMaskNone_def MergeBlock_def
             split: if_splits)
  have r: "loopRoundTrip K IGM ext Br Header = Inr (Some (unrollCountHint n, []))"
    by (simp add: loopRoundTrip_def t bindF_def transLLVMLoopMetadata_def loopInstOf_def
          setLLVMLoopMetadata_partialCount[OF nz dj n])
  show ?thesis using g t r M by simp
qed

text \<open>The theorem at the latch of a \<open>do-while\<close> loop with an unroll count of 4, for the masks
  of the SPIR-V header: the header 10 gets a loop merge of merge block 13, continue target 12,
  mask \<open>0x100\<close> and parameters \<open>[4]\<close>.\<close>

theorem unroll_count_round_trip_witness:
  "getLoopControl spv Map.empty (Some (br_loopMD doWhileLatch)) = Inr (0x100, [4])
   \<and> transBranchLoopInst spv Map.empty False doWhileLatch = Inr (Some (10, SPIRVLoopMerge 13 12 0x100 [4]))
   \<and> loopRoundTrip spv Map.empty False doWhileLatch 10
        = Inr (Some ([SelfRef, MDNode [MDString ''llvm.loop.unroll.count'', ConstantAsMetadata 4]], []))"
proof -
  have nz: "LoopControlPartialCountMask spv \<noteq> 0" by code_simp
  have dj: "\<forall>m\<in>set (masksOtherThanPartialCount spv). LoopControlPartialCountMask spv AND m = 0"
    by code_simp
  have n: "(4::nat) < 2 ^ 32" by simp
  have md: "br_loopMD doWhileLatch = Some (unrollCountHint 4)" by (simp add: doWhileLatch_def)
  have s0: "br_SuccessorTrue doWhileLatch = 10" by (simp add: doWhileLatch_def)
  have hd: "br_isUnconditional doWhileLatch \<longrightarrow> br_TermFalseLabel doWhileLatch \<noteq> None"
    by (simp add: doWhileLatch_def)
  note r = unroll_count_round_trip [OF nz dj n md s0 hd, of Map.empty False]
  have e1: "LoopControlPartialCountMask spv = 0x100" by (simp add: spv_def)
  have e2: "MergeBlock doWhileLatch = Some 13" "br_BB doWhileLatch = 12"
    by (simp_all add: MergeBlock_def doWhileLatch_def)
  have e3: "unrollCountHint 4 = [SelfRef, MDNode [MDString ''llvm.loop.unroll.count'', ConstantAsMetadata 4]]"
    by (simp add: unrollCountHint_def)
  show ?thesis using r unfolding e1 e2 e3 by simp
qed

text \<open>Claim C7 as worded fails on the code in two ways. A hinted loop whose latch branch is
  unconditional and whose header does not end in a conditional branch gets no loop merge: the
  encoder adds the unstructured loop control when the extension is enabled and nothing
  otherwise, and then the hint is lost. And the loop merge is always added to the block of
  successor 0 of the latch branch: when the back edge is successor 1, the loop merge goes to
  the exit block with the header as its merge block, and the decoder, which looks under the
  header, gives the loop no hint.\<close>

theorem unroll_count_without_loop_merge:
  "transBranchLoopInst spv Map.empty False unstructuredLatch = Inr None
   \<and> loopRoundTrip spv Map.empty False unstructuredLatch 10 = Inr None
   \<and> transBranchLoopInst spv Map.empty True unstructuredLatch
       = Inr (Some (10, SPIRVLoopControlINTEL 0x100 [4]))
   \<and> transBranchLoopInst spv Map.empty False invertedLatch
       = Inr (Some (13, SPIRVLoopMerge 10 12 0x100 [4]))
   \<and> loopRoundTrip spv Map.empty False invertedLatch 10 = Inr None"
  by code_simp

text \<open>Claim C8 fails on the code. \<open>getLoopControl\<close> appends each parameter when it meets the
  hint, so the parameter list follows the order of the source metadata: an initiation
  interval of 2 written before an unroll count of 4 is emitted as \<open>[2, 4]\<close>, the other order
  as \<open>[4, 2]\<close>, under the same mask. The decoder reads positionally, smaller-numbered bits
  first, and gives back an unroll count of 2 and an initiation interval of 4.\<close>

theorem getLoopControl_keeps_source_order:
  "getLoopControl spv Map.empty (Some (Some [SelfRef,
       MDNode [MDString ''llvm.loop.ii.count'', ConstantAsMetadata 2],
       MDNode [MDString ''llvm.loop.unroll.count'', ConstantAsMetadata 4]]))
     = Inr (0x10100, [2, 4])
   \<and> getLoopControl spv Map.empty (Some (Some [SelfRef,
       MDNode [MDString ''llvm.loop.unroll.count'', ConstantAsMetadata 4],
       MDNode [MDString ''llvm.loop.ii.count'', ConstantAsMetadata 2]]))
     = Inr (0x10100, [4, 2])
   \<and> setLLVMLoopMetadata spv (Some (SPIRVLoopMerge 13 12 0x10100 [2, 4]))
     = Inr (Some ([SelfRef,
         MDNode [MDString ''llvm.loop.unroll.count'', ConstantAsMetadata 2],
         MDNode [MDString ''llvm.loop.ii.count'', ConstantAsMetadata 4]], []))"
  by code_simp

section \<open>The type translators (transType in SPIRVWriter.cpp and in SPIRVReader.cpp)\<close>

subsection \<open>Encoding: the state of the translator and of the module it builds\<close>

text \<open>An entry of the binary module, as far as the type translators read and build it: a
  type (its operands are identities of other entries) or an integer constant (its type and its
  words). A struct type has a name, its member types (a member not set yet has none), its packing
  and whether it has been closed.\<close>

datatype SPIRVEntry =
    OpTypeVoid
  | OpTypeBool
  | OpTypeInt nat
  | OpTypeFloat nat
  | OpTypePointer nat SPIRVId
  | OpTypeVector SPIRVId nat
  | OpTypeArray SPIRVId SPIRVId
  | OpTypeMatrix SPIRVId nat
  | OpTypeOpaque string
  | OpTypeFunction SPIRVId "SPIRVId list"
  | OpTypeStruct string "SPIRVId option list" bool bool
  | OpConstant SPIRVId "SPIRVWord list"

datatype SPIRVErrorCode =
  SPIRVEC_Success | SPIRVEC_InvalidBitWidth | SPIRVEC_InvalidArraySize | SPIRVEC_FunctionPointers

datatype ExtensionID =
    SPV_INTEL_arbitrary_precision_integers | SPV_INTEL_function_pointers
  | SPV_INTEL_long_constant_composite | SPV_INTEL_vector_compute

text \<open>What the encoder reads and never writes: the struct types of the compiler-IR module, the
  enabled extensions, the address-space table, the width of \<open>size_t\<close>, and the parts whose
  tables are not in the source files at hand (the opaque-struct and struct names that stand
  for images, pipes, samplers and the like, which this model leaves out, and the largest
  member count of a single struct instruction).\<close>

record WEnv =
  w_structs :: "nat \<Rightarrow> StructType"
  w_isAllowedToUseExtension :: "ExtensionID \<Rightarrow> bool"
  w_SPIRSPIRVAddrSpaceMap :: "nat \<Rightarrow> nat"
  w_sizetBits :: nat
  w_specialOpaqueName :: "string \<Rightarrow> bool"
  w_specialStructName :: "string \<Rightarrow> bool"
  w_MaxNumElements :: int

text \<open>What the encoder writes: its type table, its value table (here for the integer constants
  only, by width and value), the entries of the module under construction with the next free
  identity, and the first error the error log has been given.\<close>

record WState =
  w_TypeMap :: "Type \<rightharpoonup> SPIRVId"
  w_ValueMap :: "(nat \<times> int) \<rightharpoonup> SPIRVId"
  w_entries :: "SPIRVId \<rightharpoonup> SPIRVEntry"
  w_nextId :: SPIRVId
  w_ErrorCode :: SPIRVErrorCode

text \<open>Modelled from the spec: the error log (\<open>SPIRVErrorLog\<close>) is not in the source files at
  hand. \<open>checkError\<close> hands its condition back and, when the condition fails, records the
  error kind; the log keeps the first failure (section 7 of the spec: translation aggregates
  the first failure).\<close>

definition checkError :: "bool \<Rightarrow> SPIRVErrorCode \<Rightarrow> WState \<Rightarrow> bool \<times> WState" where
  "checkError Cond ErrCode s =
     (if Cond \<or> w_ErrorCode s \<noteq> SPIRVEC_Success then (Cond, s)
      else (Cond, s\<lparr>w_ErrorCode := ErrCode\<rparr>))"

definition checkExtension :: "WEnv \<Rightarrow> ExtensionID \<Rightarrow> SPIRVErrorCode \<Rightarrow> WState \<Rightarrow> bool \<times> WState" where
  "checkExtension E Ext ErrCode s = checkError (w_isAllowedToUseExtension E Ext) ErrCode s"

text \<open>Modelled from the spec: the builder of the binary module (\<open>SPIRVModule\<close>, the
  \<open>BM->add...\<close> calls) is not in the source files at hand. Every such call is taken to add one
  new entry under the next free identity; \<open>openStructType\<close> adds an unclosed struct whose
  members are not set, \<open>setMemberType\<close> sets one member, \<open>closeStructType\<close> closes it
  and fixes its packing.\<close>

definition add :: "SPIRVEntry \<Rightarrow> WState \<Rightarrow> SPIRVId Result \<times> WState" where
  "add e s = (Ok (w_nextId s),
              s\<lparr>w_entries := (w_entries s)(w_nextId s \<mapsto> e), w_nextId := Suc (w_nextId s)\<rparr>)"

definition mapType :: "Type \<Rightarrow> SPIRVId \<Rightarrow> WState \<Rightarrow> SPIRVId Result \<times> WState" where
  "mapType T BT s = (Ok BT, s\<lparr>w_TypeMap := (w_TypeMap s)(T \<mapsto> BT)\<rparr>)"

definition setMemberType :: "SPIRVId \<Rightarrow> nat \<Rightarrow> SPIRVId \<Rightarrow> WState \<Rightarrow> unit Result \<times> WState" where
  "setMemberType Struct I BT s =
     (case w_entries s Struct of
        Some (OpTypeStruct Name Members Packed Closed) \<Rightarrow>
          if I < length Members
          then (Ok (), s\<lparr>w_entries := (w_entries s)(Struct \<mapsto> OpTypeStruct Name (Members[I := Some BT]) Packed Closed)\<rparr>)
          else (Fail OutOfBounds, s)
      | _ \<Rightarrow> (Fail NullDereference, s))"

definition closeStructType :: "SPIRVId \<Rightarrow> bool \<Rightarrow> WState \<Rightarrow> unit Result \<times> WState" where
  "closeStructType Struct Packed s =
     (case w_entries s Struct of
        Some (OpTypeStruct Name Members P Closed) \<Rightarrow>
          (Ok (), s\<lparr>w_entries := (w_entries s)(Struct \<mapsto> OpTypeStruct Name Members Packed True)\<rparr>)
      | _ \<Rightarrow> (Fail NullDereference, s))"

subsection \<open>Encoding: recursiveType\<close>

fun isCompositeOrPointer :: "Type \<Rightarrow> bool" where
  "isCompositeOrPointer (StructTy k) = True"
| "isCompositeOrPointer (ArrayTy T n) = True"
| "isCompositeOrPointer (VectorTy T n) = True"
| "isCompositeOrPointer (PointerTy T a) = True"
| "isCompositeOrPointer T = False"

text \<open>The search \<open>Run\<close> of \<open>recursiveType\<close>, with the set \<open>Seen\<close> it fills as it goes. The
  recursion ends only because of \<open>Seen\<close>, so the model gives it fuel.\<close>

fun Run :: "nat \<Rightarrow> (nat \<Rightarrow> StructType) \<Rightarrow> nat \<Rightarrow> Type \<Rightarrow> nat list \<Rightarrow> (bool \<times> nat list) option"
  and RunAny :: "nat \<Rightarrow> (nat \<Rightarrow> StructType) \<Rightarrow> nat \<Rightarrow> Type list \<Rightarrow> nat list \<Rightarrow> (bool \<times> nat list) option"
where
  "Run 0 S ST Ty Seen = None"
| "Run (Suc n) S ST Ty Seen =
     (case Ty of
        StructTy k \<Rightarrow>
          if k = ST then Some (True, Seen)
          else if k \<in> set Seen then Some (False, Seen)
          else RunAny n S ST (case st_elements (S k) of None \<Rightarrow> [] | Some els \<Rightarrow> els) (k # Seen)
      | PointerTy ElTy a \<Rightarrow>
          (case ElTy of
             FunctionTy R Ps \<Rightarrow> RunAny n S ST (R # Ps) Seen
           | _ \<Rightarrow> Run n S ST ElTy Seen)
      | ArrayTy ElTy k \<Rightarrow> Run n S ST ElTy Seen
      | _ \<Rightarrow> Some (False, Seen))"
| "RunAny n S ST [] Seen = Some (False, Seen)"
| "RunAny n S ST (T # Ts) Seen =
     (case Run n S ST T Seen of
        None \<Rightarrow> None
      | Some (True, Seen') \<Rightarrow> Some (True, Seen')
      | Some (False, Seen') \<Rightarrow> RunAny n S ST Ts Seen')"

definition recursiveType :: "nat \<Rightarrow> (nat \<Rightarrow> StructType) \<Rightarrow> nat \<Rightarrow> Type \<Rightarrow> bool option" where
  "recursiveType n S ST Ty = map_option fst (Run n S ST Ty [])"


subsection \<open>Encoding: transType\<close>

text \<open>Modelled from the spec: the words of a constant are laid out by the constructor of
  \<open>SPIRVConstant\<close>, which is not in the source files at hand. A constant of \<open>n\<close> bits takes
  the 32-bit words of its value, least significant first, as many as \<open>n\<close> bits need (the
  multi-word representation of section 8 of the spec).\<close>

fun constantWords :: "nat \<Rightarrow> int \<Rightarrow> SPIRVWord list" where
  "constantWords 0 v = []"
| "constantWords (Suc k) v = word_of_int v # constantWords k (v div 4294967296)"

definition numWords :: "nat \<Rightarrow> nat" where
  "numWords BitWidth = (BitWidth + 31) div 32"

text \<open>The members of a struct the first loop sets at once (\<open>now\<close>) and those it keeps for
  after the struct is closed (\<open>ForwardRefs\<close>).\<close>

fun splitForwardRefs ::
  "nat \<Rightarrow> (nat \<Rightarrow> StructType) \<Rightarrow> nat \<Rightarrow> (nat \<times> Type) list
     \<Rightarrow> ((nat \<times> Type) list \<times> (nat \<times> Type) list) option" where
  "splitForwardRefs n S ST [] = Some ([], [])"
| "splitForwardRefs n S ST ((I, ElemTy) # rest) =
     (case splitForwardRefs n S ST rest of
        None \<Rightarrow> None
      | Some (now, later) \<Rightarrow>
          if isCompositeOrPointer ElemTy then
            (case recursiveType n S ST ElemTy of
               None \<Rightarrow> None
             | Some True \<Rightarrow> Some (now, (I, ElemTy) # later)
             | Some False \<Rightarrow> Some ((I, ElemTy) # now, later))
          else Some ((I, ElemTy) # now, later))"


text \<open>The loops of the type translator, over the translator itself (\<open>rec\<close>).\<close>

primrec transTypes ::
  "(Type \<Rightarrow> WState \<Rightarrow> SPIRVId Result \<times> WState) \<Rightarrow> Type list \<Rightarrow> WState \<Rightarrow> SPIRVId list Result \<times> WState" where
  "transTypes rec [] s = (Ok [], s)"
| "transTypes rec (T # Ts) s =
     bindR (rec T s) (\<lambda>BT s1.
       bindR (transTypes rec Ts s1) (\<lambda>BTs s2. (Ok (BT # BTs), s2)))"

primrec setMemberTypes ::
  "(Type \<Rightarrow> WState \<Rightarrow> SPIRVId Result \<times> WState) \<Rightarrow> SPIRVId \<Rightarrow> (nat \<times> Type) list \<Rightarrow> WState
     \<Rightarrow> unit Result \<times> WState" where
  "setMemberTypes rec Struct [] s = (Ok (), s)"
| "setMemberTypes rec Struct (m # rest) s =
     bindR (rec (snd m) s) (\<lambda>BT s1.
       bindR (setMemberType Struct (fst m) BT s1) (\<lambda>_ s2.
         setMemberTypes rec Struct rest s2))"

text \<open>\<open>transValue\<close> on an integer constant of the compiler IR (the constant case of
  \<open>transValueWithoutDecoration\<close> and the integer case of \<open>transConstant\<close>): the table first,
  then the width check of a constant wider than 64 bits, the type, the constant, the table.\<close>

definition transConstantInt ::
  "(Type \<Rightarrow> WState \<Rightarrow> SPIRVId Result \<times> WState) \<Rightarrow> WEnv \<Rightarrow> nat \<Rightarrow> int \<Rightarrow> WState
     \<Rightarrow> SPIRVId Result \<times> WState" where
  "transConstantInt rec E BitWidth V s =
     (case w_ValueMap s (BitWidth, V) of
        Some BV \<Rightarrow> (Ok BV, s)
      | None \<Rightarrow>
          (let s1 = (if BitWidth > 64
                     then snd (checkError (w_isAllowedToUseExtension E SPV_INTEL_arbitrary_precision_integers)
                                 SPIRVEC_InvalidBitWidth s)
                     else s)
           in bindR (rec (IntegerTy BitWidth) s1) (\<lambda>BT s2.
                bindR (add (OpConstant BT (constantWords (numWords BitWidth) V)) s2) (\<lambda>BV s3.
                  (Ok BV, s3\<lparr>w_ValueMap := (w_ValueMap s3)((BitWidth, V) \<mapsto> BV)\<rparr>)))))"

text \<open>The struct case: the struct is opened and entered in the table, then its members are
  translated. Structs of more members than one instruction holds are left out of the model.\<close>

definition transStructType ::
  "(Type \<Rightarrow> WState \<Rightarrow> SPIRVId Result \<times> WState) \<Rightarrow> nat \<Rightarrow> WEnv \<Rightarrow> nat \<Rightarrow> WState
     \<Rightarrow> SPIRVId Result \<times> WState" where
  "transStructType rec n E k s =
     (case st_elements (w_structs E k) of
        None \<Rightarrow>
          if w_specialOpaqueName E (st_name (w_structs E k)) then (Fail AssertionFailure, s)
          else bindR (add (OpTypeOpaque (st_name (w_structs E k))) s) (mapType (StructTy k))
      | Some Elements \<Rightarrow>
          if w_specialStructName E (st_name (w_structs E k)) then (Unmodelled, s)
          else if int (length Elements) > w_MaxNumElements E then (Unmodelled, s)
          else
            bindR (add (OpTypeStruct (st_name (w_structs E k))
                          (replicate (length Elements) None) False False) s) (\<lambda>Struct s1.
            bindR (mapType (StructTy k) Struct s1) (\<lambda>_ s2.
              case splitForwardRefs n (w_structs E) k (zip [0 ..< length Elements] Elements) of
                None \<Rightarrow> (OutOfFuel, s2)
              | Some (now, ForwardRefs) \<Rightarrow>
                  bindR (setMemberTypes rec Struct now s2) (\<lambda>_ s3.
                  bindR (closeStructType Struct (st_isPacked (w_structs E k)) s3) (\<lambda>_ s4.
                  bindR (setMemberTypes rec Struct ForwardRefs s4) (\<lambda>_ s5.
                    (Ok Struct, s5)))))))"

text \<open>The pointer case. A pointer to a function needs the function-pointer extension; a
  pointer to an opaque struct of a special name is left out of the model.\<close>

definition transPointerType ::
  "(Type \<Rightarrow> WState \<Rightarrow> SPIRVId Result \<times> WState) \<Rightarrow> WEnv \<Rightarrow> Type \<Rightarrow> nat \<Rightarrow> WState
     \<Rightarrow> SPIRVId Result \<times> WState" where
  "transPointerType rec E ET AddrSpc s =
     (case (case ET of
              FunctionTy R Ps \<Rightarrow>
                checkExtension E SPV_INTEL_function_pointers SPIRVEC_FunctionPointers s
            | _ \<Rightarrow> (True, s)) of
        (False, s1) \<Rightarrow> (Fail NullResult, s1)
      | (True, s1) \<Rightarrow>
          if (case ET of StructTy k \<Rightarrow> st_elements (w_structs E k) = None
                             \<and> w_specialOpaqueName E (st_name (w_structs E k))
              | _ \<Rightarrow> False)
          then (Unmodelled, s1)
          else bindR (rec ET s1) (\<lambda>BET s2.
                 bindR (add (OpTypePointer (w_SPIRSPIRVAddrSpaceMap E AddrSpc) BET) s2)
                   (mapType (PointerTy ET AddrSpc))))"

text \<open>The integer case: when neither the extension is enabled nor the width is one of 8, 16,
  32 and 64, the error is recorded and control falls through every later test of \<open>transType\<close>
  to its \<open>llvm_unreachable\<close>.\<close>

definition transIntegerType :: "WEnv \<Rightarrow> nat \<Rightarrow> WState \<Rightarrow> SPIRVId Result \<times> WState" where
  "transIntegerType E BitWidth s =
     (if BitWidth = 1 then bindR (add OpTypeBool s) (mapType (IntegerTy BitWidth))
      else
        (case (if w_isAllowedToUseExtension E SPV_INTEL_arbitrary_precision_integers
               then (True, s)
               else checkError (BitWidth = 8 \<or> BitWidth = 16 \<or> BitWidth = 32 \<or> BitWidth = 64)
                      SPIRVEC_InvalidBitWidth s) of
           (True, s1) \<Rightarrow> bindR (add (OpTypeInt BitWidth) s1) (mapType (IntegerTy BitWidth))
         | (False, s1) \<Rightarrow> (Fail Unreachable, s1)))"

text \<open>The array case. The C++ leaves open which of the element type and the length constant
  is translated first; the model takes the element type first.\<close>

definition transArrayType ::
  "(Type \<Rightarrow> WState \<Rightarrow> SPIRVId Result \<times> WState) \<Rightarrow> WEnv \<Rightarrow> Type \<Rightarrow> nat \<Rightarrow> WState
     \<Rightarrow> SPIRVId Result \<times> WState" where
  "transArrayType rec E ElTy Num s =
     (let s1 = (if Num < 1 then snd (checkError (Num \<ge> 1) SPIRVEC_InvalidArraySize s) else s)
      in bindR (rec ElTy s1) (\<lambda>BElTy s2.
           bindR (transConstantInt rec E (w_sizetBits E) (int Num) s2) (\<lambda>Length s3.
             bindR (add (OpTypeArray BElTy Length) s3) (mapType (ArrayTy ElTy Num)))))"

text \<open>One call of \<open>transType\<close>, its recursive calls being \<open>rec\<close>.\<close>

definition transType_body ::
  "(Type \<Rightarrow> WState \<Rightarrow> SPIRVId Result \<times> WState) \<Rightarrow> nat \<Rightarrow> WEnv \<Rightarrow> Type \<Rightarrow> WState
     \<Rightarrow> SPIRVId Result \<times> WState" where
  "transType_body rec n E T s =
     (case w_TypeMap s T of
        Some BT \<Rightarrow> (Ok BT, s)
      | None \<Rightarrow>
         (case T of
            VoidTy \<Rightarrow> bindR (add OpTypeVoid s) (mapType T)
          | IntegerTy BitWidth \<Rightarrow> transIntegerType E BitWidth s
          | FloatingPointTy Bits \<Rightarrow> bindR (add (OpTypeFloat Bits) s) (mapType T)
          | PointerTy ET AddrSpc \<Rightarrow> transPointerType rec E ET AddrSpc s
          | VectorTy ElTy Num \<Rightarrow>
              bindR (rec ElTy s) (\<lambda>BElTy s1.
                bindR (add (OpTypeVector BElTy Num) s1) (mapType T))
          | ArrayTy ElTy Num \<Rightarrow> transArrayType rec E ElTy Num s
          | StructTy k \<Rightarrow> transStructType rec n E k s
          | FunctionTy RetTy Params \<Rightarrow>
              bindR (rec RetTy s) (\<lambda>RT s1.
                bindR (transTypes rec Params s1) (\<lambda>PT s2.
                  bindR (add (OpTypeFunction RT PT) s2) (mapType T)))))"

text \<open>\<open>transType\<close> with fuel: a recursive call takes one unit.\<close>

primrec transType :: "nat \<Rightarrow> WEnv \<Rightarrow> Type \<Rightarrow> WState \<Rightarrow> SPIRVId Result \<times> WState" where
  "transType 0 E T s = (OutOfFuel, s)"
| "transType (Suc n) E T s = transType_body (transType n E) n E T s"

subsection \<open>Decoding: integer constants\<close>

text \<open>The 32-bit words of a constant packed into 64-bit words, as the loop of the constant case
  of \<open>transValueWithoutDecoration\<close> does, and the value LLVM's \<open>APInt\<close> gives an array of
  64-bit words: the least significant word first, cut to the width.\<close>

fun packWords :: "SPIRVWord list \<Rightarrow> 64 word list" where
  "packWords (lo # hi # rest) = (push_bit 32 (ucast hi) OR ucast lo) # packWords rest"
| "packWords [w] = [ucast w]"
| "packWords [] = []"

fun APInt_value :: "64 word list \<Rightarrow> int" where
  "APInt_value [] = 0"
| "APInt_value (w # ws) = uint w + 18446744073709551616 * APInt_value ws"

definition APInt :: "nat \<Rightarrow> 64 word list \<Rightarrow> int" where
  "APInt NumBits BigVal = take_bit NumBits (APInt_value BigVal)"

definition transWideConstant :: "nat \<Rightarrow> SPIRVWord list \<Rightarrow> int" where
  "transWideConstant NumBits RawData = APInt NumBits (packWords RawData)"

text \<open>The number a list of 32-bit words stands for, least significant word first.\<close>

fun words_value :: "SPIRVWord list \<Rightarrow> int" where
  "words_value [] = 0"
| "words_value (w # ws) = uint w + 4294967296 * words_value ws"


text \<open>The value of the LLVM integer constant the reader builds for an integer constant of
  \<open>NumBits\<close> bits with the words \<open>RawData\<close>.\<close>

definition transIntConstant :: "nat \<Rightarrow> SPIRVWord list \<Rightarrow> int" where
  "transIntConstant NumBits RawData =
     (if NumBits > 64 then APInt NumBits (packWords RawData)
      else APInt NumBits (packWords (take 2 RawData)))"

subsection \<open>Decoding: transType\<close>

text \<open>The decoder reads the entries of the binary module and the address-space table; it
  writes its type table and the struct types of the compiler-IR context it fills (a struct
  type's identity is its position in that list).\<close>

record REnv =
  r_entries :: "SPIRVId \<rightharpoonup> SPIRVEntry"
  r_SPIRSPIRVAddrSpaceMap_rmap :: "nat \<Rightarrow> nat"

record RState =
  r_TypeMap :: "SPIRVId \<rightharpoonup> Type"
  r_structs :: "StructType list"

definition r_mapType :: "SPIRVId \<Rightarrow> Type \<Rightarrow> RState \<Rightarrow> Type Result \<times> RState" where
  "r_mapType BT T s = (Ok T, s\<lparr>r_TypeMap := (r_TypeMap s)(BT \<mapsto> T)\<rparr>)"

text \<open>\<open>StructType::create\<close> adds an opaque struct type of the given name (LLVM's renaming of
  a name already in use is outside the model); \<open>setBody\<close> gives it its members;
  \<open>releaseName\<close> is the renaming of an older struct type of the same name to the empty
  name.\<close>

definition StructType_create :: "string \<Rightarrow> RState \<Rightarrow> nat Result \<times> RState" where
  "StructType_create Name s =
     (Ok (length (r_structs s)),
      s\<lparr>r_structs := r_structs s @ [\<lparr>st_name = Name, st_elements = None, st_isPacked = False\<rparr>]\<rparr>)"

definition setBody :: "nat \<Rightarrow> Type list \<Rightarrow> bool \<Rightarrow> RState \<Rightarrow> unit Result \<times> RState" where
  "setBody k MT Packed s =
     (if k < length (r_structs s)
      then (Ok (), s\<lparr>r_structs := (r_structs s)[k := (r_structs s ! k)\<lparr>st_elements := Some MT, st_isPacked := Packed\<rparr>]\<rparr>)
      else (Fail NullDereference, s))"

definition releaseName :: "string \<Rightarrow> RState \<Rightarrow> RState" where
  "releaseName Name s =
     s\<lparr>r_structs := map (\<lambda>ST. if st_name ST = Name then ST\<lparr>st_name := []\<rparr> else ST) (r_structs s)\<rparr>"

primrec r_transTypes ::
  "(SPIRVId \<Rightarrow> bool \<Rightarrow> RState \<Rightarrow> Type Result \<times> RState) \<Rightarrow> bool \<Rightarrow> SPIRVId option list \<Rightarrow> RState
     \<Rightarrow> Type list Result \<times> RState" where
  "r_transTypes rec IsClassMember [] s = (Ok [], s)"
| "r_transTypes rec IsClassMember (M # Ms) s =
     (case M of
        None \<Rightarrow> (Fail NullDereference, s)
      | Some BT \<Rightarrow>
          bindR (rec BT IsClassMember s) (\<lambda>T s1.
            bindR (r_transTypes rec IsClassMember Ms s1) (\<lambda>Ts s2. (Ok (T # Ts), s2))))"

definition transFPType :: "nat \<Rightarrow> Type Result" where
  "transFPType BitWidth =
     (if BitWidth = 16 \<or> BitWidth = 32 \<or> BitWidth = 64 then Ok (FloatingPointTy BitWidth)
      else Fail Unreachable)"

definition r_transStructType ::
  "(SPIRVId \<Rightarrow> bool \<Rightarrow> RState \<Rightarrow> Type Result \<times> RState) \<Rightarrow> SPIRVId \<Rightarrow> string \<Rightarrow> SPIRVId option list
     \<Rightarrow> bool \<Rightarrow> RState \<Rightarrow> Type Result \<times> RState" where
  "r_transStructType rec ST Name0 Members Packed s =
     (let s1 = (if Name0 \<noteq> [] then releaseName Name0 s else s);
          Name = (if Name0 \<noteq> [] then Name0 else ''structtype'')
      in bindR (StructType_create Name s1) (\<lambda>k s2.
         bindR (r_mapType ST (StructTy k) s2) (\<lambda>_ s3.
         bindR (r_transTypes rec True Members s3) (\<lambda>MT s4.
         bindR (setBody k MT Packed s4) (\<lambda>_ s5.
           (Ok (StructTy k), s5))))))"

text \<open>One call of the decoder's \<open>transType\<close>. The length of an array is read from the
  module's constant (the value translator's own table is outside this model); image, pipe
  and the other special types are left out.\<close>

definition r_transType_body ::
  "(SPIRVId \<Rightarrow> bool \<Rightarrow> RState \<Rightarrow> Type Result \<times> RState) \<Rightarrow> REnv \<Rightarrow> SPIRVId \<Rightarrow> bool \<Rightarrow> RState
     \<Rightarrow> Type Result \<times> RState" where
  "r_transType_body rec E T IsClassMember s =
     (case r_TypeMap s T of
        Some Ty \<Rightarrow> (Ok Ty, s)
      | None \<Rightarrow>
         (case r_entries E T of
            None \<Rightarrow> (Fail NullDereference, s)
          | Some OpTypeVoid \<Rightarrow> r_mapType T VoidTy s
          | Some OpTypeBool \<Rightarrow> r_mapType T (IntegerTy 1) s
          | Some (OpTypeInt BitWidth) \<Rightarrow> r_mapType T (IntegerTy BitWidth) s
          | Some (OpTypeFloat BitWidth) \<Rightarrow> bindR (transFPType BitWidth, s) (r_mapType T)
          | Some (OpTypeArray ElemTy Length) \<Rightarrow>
              (case r_entries E Length of
                 Some (OpConstant CT RawData) \<Rightarrow>
                   bindR (rec ElemTy False s) (\<lambda>El s1.
                     r_mapType T (ArrayTy El (nat (APInt 64 (packWords (take 2 RawData))))) s1)
               | _ \<Rightarrow> (Fail NullDereference, s))
          | Some (OpTypePointer StorageClass ElemTy) \<Rightarrow>
              bindR (rec ElemTy IsClassMember s) (\<lambda>El s1.
                r_mapType T (PointerTy El (r_SPIRSPIRVAddrSpaceMap_rmap E StorageClass)) s1)
          | Some (OpTypeVector CompTy Count) \<Rightarrow>
              bindR (rec CompTy False s) (\<lambda>El s1. r_mapType T (VectorTy El Count) s1)
          | Some (OpTypeMatrix ColTy Count) \<Rightarrow>
              bindR (rec ColTy False s) (\<lambda>El s1. r_mapType T (ArrayTy El Count) s1)
          | Some (OpTypeOpaque Name) \<Rightarrow>
              bindR (StructType_create Name s) (\<lambda>k s1. r_mapType T (StructTy k) s1)
          | Some (OpTypeFunction RetTy Params) \<Rightarrow>
              bindR (rec RetTy False s) (\<lambda>RT s1.
                bindR (r_transTypes rec False (map Some Params) s1) (\<lambda>PT s2.
                  r_mapType T (FunctionTy RT PT) s2))
          | Some (OpTypeStruct Name Members Packed Closed) \<Rightarrow>
              r_transStructType rec T Name Members Packed s
          | Some (OpConstant CT RawData) \<Rightarrow> (Unmodelled, s)))"

primrec r_transType :: "nat \<Rightarrow> REnv \<Rightarrow> SPIRVId \<Rightarrow> bool \<Rightarrow> RState \<Rightarrow> Type Result \<times> RState" where
  "r_transType 0 E T IsClassMember s = (OutOfFuel, s)"
| "r_transType (Suc n) E T IsClassMember s = r_transType_body (r_transType n E) E T IsClassMember s"

subsection \<open>Wide integers\<close>

lemma uint32_take64: "take_bit 64 (uint (w :: 32 word)) = uint w"
  by (rule take_bit_int_eq_self) (use uint_lt2p[of w] in simp_all)

lemma pack_pair: "uint (push_bit 32 (ucast (hi :: 32 word) :: 64 word) OR ucast (lo :: 32 word)) = uint lo + 4294967296 * uint hi"
proof -
  have lo: "uint (ucast lo :: 64 word) = uint lo"
    by (simp add: unsigned_ucast_eq uint32_take64)
  have hi0: "uint (ucast hi :: 64 word) = uint hi"
    by (simp add: unsigned_ucast_eq uint32_take64)
  have tb: "take_bit 32 (uint hi) = uint hi"
    by (rule take_bit_int_eq_self) (use uint_lt2p[of hi] in simp_all)
  have hi: "uint (push_bit 32 (ucast hi :: 64 word)) = push_bit 32 (uint hi)"
    by (simp add: unsigned_push_bit_eq hi0 take_bit_push_bit tb)
  have lo32: "uint lo = take_bit 32 (uint lo)"
    by (rule take_bit_int_eq_self[symmetric]) (use uint_lt2p[of lo] in simp_all)
  have disj: "push_bit 32 (uint hi) + uint lo = push_bit 32 (uint hi) OR uint lo"
  proof (rule disjunctive_add)
    fix n
    show "\<not> bit (push_bit 32 (uint hi)) n \<or> \<not> bit (uint lo) n"
      by (subst lo32) (auto simp: bit_simps)
  qed
  have "uint (push_bit 32 (ucast hi :: 64 word) OR ucast lo) = push_bit 32 (uint hi) OR uint lo"
    by (simp add: unsigned_or_eq hi lo)
  also have "\<dots> = push_bit 32 (uint hi) + uint lo" using disj by simp
  also have "\<dots> = uint lo + 4294967296 * uint hi" by (simp add: push_bit_eq_mult)
  finally show ?thesis .
qed

lemma APInt_value_packWords: "APInt_value (packWords ws) = words_value ws"
  by (induction ws rule: packWords.induct) (simp_all add: pack_pair unsigned_ucast_eq uint32_take64)

lemma words_value_constantWords: "0 \<le> v \<Longrightarrow> words_value (constantWords k v) = v mod 2 ^ (32 * k)"
proof (induction k arbitrary: v)
  case 0 then show ?case by simp
next
  case (Suc k)
  have a: "uint (word_of_int v :: 32 word) = v mod 4294967296"
    by (simp add: uint_word_of_int)
  have b: "0 \<le> v div 4294967296" using Suc.prems by simp
  have "words_value (constantWords (Suc k) v) = v mod 4294967296 + 4294967296 * ((v div 4294967296) mod 2 ^ (32 * k))"
    using Suc.IH[OF b] a by simp
  also have "\<dots> = v mod (4294967296 * 2 ^ (32 * k))"
    using zmod_zmult2_eq[of "2 ^ (32 * k)" v 4294967296] by simp
  also have "\<dots> = v mod 2 ^ (32 * Suc k)"
    by (simp add: power_add)
  finally show ?case .
qed

lemma wide_round_trip:
  assumes "0 \<le> V" "V < 2 ^ BitWidth"
  shows "transWideConstant BitWidth (constantWords (numWords BitWidth) V) = V"
proof -
  have le: "BitWidth \<le> 32 * numWords BitWidth" by (simp add: numWords_def)
  have "V < 2 ^ (32 * numWords BitWidth)"
    using assms(2) le by (meson le_less_trans not_le power_increasing_iff one_less_numeral_iff semiring_norm(76) order_less_le_trans)
  then have "V mod 2 ^ (32 * numWords BitWidth) = V" using assms(1) by simp
  then show ?thesis
    using assms by (simp add: transWideConstant_def APInt_def APInt_value_packWords
        words_value_constantWords take_bit_int_eq_self)
qed

text \<open>The states the encoder reaches from \<open>s\<close>: with an error recorded, with an integer
  type added, with an integer type and a constant of it added.\<close>

definition allowsWideIntegers :: "WEnv \<Rightarrow> bool" where
  "allowsWideIntegers E = w_isAllowedToUseExtension E SPV_INTEL_arbitrary_precision_integers"

definition logError :: "SPIRVErrorCode \<Rightarrow> WState \<Rightarrow> WState" where
  "logError ErrCode s = (if w_ErrorCode s = SPIRVEC_Success then s\<lparr>w_ErrorCode := ErrCode\<rparr> else s)"

definition withIntegerType :: "nat \<Rightarrow> WState \<Rightarrow> WState" where
  "withIntegerType W s =
     s\<lparr>w_entries := (w_entries s)(w_nextId s \<mapsto> OpTypeInt W), w_nextId := Suc (w_nextId s),
       w_TypeMap := (w_TypeMap s)(IntegerTy W \<mapsto> w_nextId s)\<rparr>"

definition withConstant :: "nat \<Rightarrow> int \<Rightarrow> WState \<Rightarrow> WState" where
  "withConstant W V s =
     s\<lparr>w_entries := (w_entries s)(w_nextId s \<mapsto> OpTypeInt W,
                                    Suc (w_nextId s) \<mapsto> OpConstant (w_nextId s) (constantWords (numWords W) V)),
       w_nextId := Suc (Suc (w_nextId s)),
       w_TypeMap := (w_TypeMap s)(IntegerTy W \<mapsto> w_nextId s),
       w_ValueMap := (w_ValueMap s)((W, V) \<mapsto> Suc (w_nextId s))\<rparr>"

lemma transType_IntegerTy:
  assumes "W \<noteq> 1" "W \<noteq> 8" "W \<noteq> 16" "W \<noteq> 32" "W \<noteq> 64"
    and "w_TypeMap s (IntegerTy W) = None"
  shows "transType (Suc n) E (IntegerTy W) s =
      (if allowsWideIntegers E then (Ok (w_nextId s), withIntegerType W s)
       else (Fail Unreachable, logError SPIRVEC_InvalidBitWidth s))"
  using assms
  by (simp add: transType_body_def transIntegerType_def checkError_def add_def mapType_def
      bindR_def allowsWideIntegers_def logError_def withIntegerType_def)

lemma transConstantInt_wide:
  assumes "64 < W" and "w_TypeMap s (IntegerTy W) = None" and "w_ValueMap s (W, V) = None"
  shows "transConstantInt (transType (Suc n) E) E W V s =
      (if allowsWideIntegers E then (Ok (Suc (w_nextId s)), withConstant W V s)
       else (Fail Unreachable, logError SPIRVEC_InvalidBitWidth s))"
proof -
  have w: "W \<noteq> 1" "W \<noteq> 8" "W \<noteq> 16" "W \<noteq> 32" "W \<noteq> 64" using assms(1) by auto
  show ?thesis
  proof (cases "allowsWideIntegers E")
    case True
    then show ?thesis
      using assms transType_IntegerTy[OF w assms(2), of n E]
      by (simp add: transConstantInt_def checkError_def bindR_def add_def withConstant_def
          withIntegerType_def allowsWideIntegers_def)
  next
    case False
    let ?s1 = "logError SPIRVEC_InvalidBitWidth s"
    have tm: "w_TypeMap ?s1 (IntegerTy W) = None" using assms(2) by (simp add: logError_def)
    have idem: "logError SPIRVEC_InvalidBitWidth ?s1 = ?s1" by (simp add: logError_def)
    have ce: "snd (checkError False SPIRVEC_InvalidBitWidth s) = ?s1"
      by (simp add: checkError_def logError_def)
    show ?thesis
      using False assms(1,3) transType_IntegerTy[OF w tm, of n E]
      by (simp add: transConstantInt_def bindR_def ce idem allowsWideIntegers_def[symmetric])
  qed
qed

text \<open>Claim C9. Without the arbitrary-precision-integers extension, encoding an integer type
  whose width is not 1, 8, 16, 32 or 64 records the invalid-bit-width error and yields no type
  (control reaches \<open>llvm_unreachable\<close>), and so does encoding a constant wider than 64 bits.
  With the extension the type is added, the constant is added with the words of its value, the
  decoder translates the type to the integer type of the same width, and the value the decoder
  reads from those words is the constant's value: for 128 bits and any other width above 64.\<close>

theorem wide_integers:
  assumes "64 < BitWidth" and "0 \<le> V" and "V < 2 ^ BitWidth"
    and "w_ValueMap s (BitWidth, V) = None"
    and "r_entries RE BT = Some (OpTypeInt BitWidth)" and "r_TypeMap rs BT = None"
  shows "(\<forall>W. W \<notin> {1, 8, 16, 32, 64} \<longrightarrow> w_TypeMap s (IntegerTy W) = None \<longrightarrow>
           transType (Suc n) E (IntegerTy W) s =
             (if allowsWideIntegers E then (Ok (w_nextId s), withIntegerType W s)
              else (Fail Unreachable, logError SPIRVEC_InvalidBitWidth s)))
       \<and> (w_TypeMap s (IntegerTy BitWidth) = None \<longrightarrow>
           transConstantInt (transType (Suc n) E) E BitWidth V s =
             (if allowsWideIntegers E then (Ok (Suc (w_nextId s)), withConstant BitWidth V s)
              else (Fail Unreachable, logError SPIRVEC_InvalidBitWidth s)))
       \<and> r_transType (Suc m) RE BT c rs =
           (Ok (IntegerTy BitWidth), rs\<lparr>r_TypeMap := (r_TypeMap rs)(BT \<mapsto> IntegerTy BitWidth)\<rparr>)
       \<and> transIntConstant BitWidth (constantWords (numWords BitWidth) V) = V"
proof -
  have a: "\<forall>W. W \<notin> {1, 8, 16, 32, 64} \<longrightarrow> w_TypeMap s (IntegerTy W) = None \<longrightarrow>
           transType (Suc n) E (IntegerTy W) s =
             (if allowsWideIntegers E then (Ok (w_nextId s), withIntegerType W s)
              else (Fail Unreachable, logError SPIRVEC_InvalidBitWidth s))"
    using transType_IntegerTy by simp
  have b: "w_TypeMap s (IntegerTy BitWidth) = None \<longrightarrow>
           transConstantInt (transType (Suc n) E) E BitWidth V s =
             (if allowsWideIntegers E then (Ok (Suc (w_nextId s)), withConstant BitWidth V s)
              else (Fail Unreachable, logError SPIRVEC_InvalidBitWidth s))"
    using transConstantInt_wide[OF assms(1) _ assms(4)] by blast
  have c: "r_transType (Suc m) RE BT c rs =
           (Ok (IntegerTy BitWidth), rs\<lparr>r_TypeMap := (r_TypeMap rs)(BT \<mapsto> IntegerTy BitWidth)\<rparr>)"
    using assms(5,6) by (simp add: r_transType_body_def r_mapType_def)
  have d: "transIntConstant BitWidth (constantWords (numWords BitWidth) V) = V"
    using wide_round_trip[OF assms(2,3)] assms(1) by (simp add: transIntConstant_def transWideConstant_def)
  show ?thesis using a b c d by blast
qed

definition envWide :: "bool \<Rightarrow> WEnv" where
  "envWide ap = \<lparr>w_structs = (\<lambda>k. \<lparr>st_name = [], st_elements = None, st_isPacked = False\<rparr>),
     w_isAllowedToUseExtension = (\<lambda>e. e = SPV_INTEL_arbitrary_precision_integers \<and> ap),
     w_SPIRSPIRVAddrSpaceMap = (\<lambda>a. a), w_sizetBits = 64, w_specialOpaqueName = (\<lambda>n. False),
     w_specialStructName = (\<lambda>n. False), w_MaxNumElements = 65533\<rparr>"

definition emptyWState :: WState where
  "emptyWState = \<lparr>w_TypeMap = Map.empty, w_ValueMap = Map.empty, w_entries = Map.empty, w_nextId = 1,
                  w_ErrorCode = SPIRVEC_Success\<rparr>"

definition renvWide :: REnv where
  "renvWide = \<lparr>r_entries = [1 \<mapsto> OpTypeInt 128, 2 \<mapsto> OpConstant 1 [5, 0, 0, 16]],
               r_SPIRSPIRVAddrSpaceMap_rmap = (\<lambda>a. a)\<rparr>"

definition emptyRState :: RState where
  "emptyRState = \<lparr>r_TypeMap = Map.empty, r_structs = []\<rparr>"

theorem wide_integers_witness:
  "transType 1 (envWide False) (IntegerTy 128) emptyWState
     = (Fail Unreachable, emptyWState\<lparr>w_ErrorCode := SPIRVEC_InvalidBitWidth\<rparr>)
   \<and> fst (transConstantInt (transType 1 (envWide False)) (envWide False) 128 1267650600228229401496703205381 emptyWState)
     = Fail Unreachable
   \<and> fst (transConstantInt (transType 1 (envWide True)) (envWide True) 128 1267650600228229401496703205381 emptyWState)
     = Ok 2
   \<and> w_entries (snd (transConstantInt (transType 1 (envWide True)) (envWide True) 128
        1267650600228229401496703205381 emptyWState)) 2
     = Some (OpConstant 1 [5, 0, 0, 16])
   \<and> fst (r_transType 1 renvWide 1 False emptyRState) = Ok (IntegerTy 128)
   \<and> transIntConstant 128 [5, 0, 0, 16] = 1267650600228229401496703205381"
proof -
  have h1: "(64::nat) < 128" by simp
  have h2: "(0::int) \<le> 1267650600228229401496703205381" by simp
  have h3: "(1267650600228229401496703205381::int) < 2 ^ 128" by simp
  have h4: "w_ValueMap emptyWState (128, 1267650600228229401496703205381) = None"
    by (simp add: emptyWState_def)
  have h5: "r_entries renvWide 1 = Some (OpTypeInt 128)" by (simp add: renvWide_def)
  have h6: "r_TypeMap emptyRState 1 = None" by (simp add: emptyRState_def)
  have tm: "w_TypeMap emptyWState (IntegerTy 128) = None" by (simp add: emptyWState_def)
  have cw: "constantWords (numWords 128) 1267650600228229401496703205381 = [5, 0, 0, 16]"
    by code_simp
  have no: "\<not> allowsWideIntegers (envWide False)" "allowsWideIntegers (envWide True)"
    by (simp_all add: allowsWideIntegers_def envWide_def)
  note t0 = wide_integers [OF h1 h2 h3 h4 h5 h6, of 0 "envWide False" 0 False]
  note t1 = wide_integers [OF h1 h2 h3 h4 h5 h6, of 0 "envWide True" 0 False]
  have a: "transType 1 (envWide False) (IntegerTy 128) emptyWState
     = (Fail Unreachable, emptyWState\<lparr>w_ErrorCode := SPIRVEC_InvalidBitWidth\<rparr>)"
    using t0 tm no by (simp add: logError_def emptyWState_def)
  have b: "fst (transConstantInt (transType 1 (envWide False)) (envWide False) 128 1267650600228229401496703205381 emptyWState)
     = Fail Unreachable"
    using t0 tm no by simp
  have c: "transConstantInt (transType 1 (envWide True)) (envWide True) 128 1267650600228229401496703205381 emptyWState
     = (Ok (Suc (w_nextId emptyWState)), withConstant 128 1267650600228229401496703205381 emptyWState)"
    using t1 tm no by simp
  have c1: "fst (transConstantInt (transType 1 (envWide True)) (envWide True) 128 1267650600228229401496703205381 emptyWState) = Ok 2"
    by (subst c) (simp add: emptyWState_def)
  have c2: "w_entries (snd (transConstantInt (transType 1 (envWide True)) (envWide True) 128
        1267650600228229401496703205381 emptyWState)) 2 = Some (OpConstant 1 [5, 0, 0, 16])"
    by (subst c) (simp add: withConstant_def emptyWState_def cw)
  have d: "fst (r_transType 1 renvWide 1 False emptyRState) = Ok (IntegerTy 128)"
    using t0 by simp
  have e: "transIntConstant 128 [5, 0, 0, 16] = 1267650600228229401496703205381"
    using t0 cw by simp
  show ?thesis using a b c1 c2 d e by blast
qed

section \<open>Floating-point contraction (transFunction, transCallInst, fpContractUpdateRecursive in SPIRVWriter.cpp)\<close>

subsection \<open>Functions, their users and the contraction map\<close>

text \<open>The three states of \<open>enum class FPContract\<close>.\<close>

datatype FPContract = UNDEF | ENABLED | DISABLED





type_synonym FPContractMap = "string \<Rightarrow> FPContract"






text \<open>\<open>joinFPContract\<close>: returns whether the state of the function changed.\<close>

definition joinFPContract :: "string \<Rightarrow> FPContract \<Rightarrow> FPContractMap \<Rightarrow> bool \<times> FPContractMap" where
  "joinFPContract F C FPContractMap =
     (case FPContractMap F of
        UNDEF \<Rightarrow> if C \<noteq> UNDEF then (True, FPContractMap(F := C)) else (False, FPContractMap)
      | ENABLED \<Rightarrow> if C = DISABLED then (True, FPContractMap(F := C)) else (False, FPContractMap)
      | DISABLED \<Rightarrow> (False, FPContractMap))"

subsection \<open>Propagation to the users\<close>



subsection \<open>Translation of the instructions, the functions and the module\<close>







subsection \<open>Statements about the propagation\<close>









text \<open>The states that \<open>joinFPContract\<close> changes when joined with \<open>C\<close>.\<close>

definition joinable :: "FPContract \<Rightarrow> FPContract \<Rightarrow> bool" where
  "joinable C x = (case x of UNDEF \<Rightarrow> C \<noteq> UNDEF | ENABLED \<Rightarrow> C = DISABLED | DISABLED \<Rightarrow> False)"






subsection \<open>Concrete modules\<close>





subsection \<open>Termination of the propagation and the invariant it keeps\<close>

lemma joinFPContract_eq:
  "joinFPContract F C M = (joinable C (M F), if joinable C (M F) then M(F := C) else M)"
  by (auto simp: joinFPContract_def joinable_def split: FPContract.splits)














lemma fp_join_enabled_back:
  "snd (joinFPContract F ENABLED M) g = DISABLED \<Longrightarrow> M g = DISABLED"
  by (auto simp: joinFPContract_eq joinable_def split: if_splits)












subsection \<open>Transitive propagation of disabled contraction\<close>



section \<open>Values in the decode direction (transValue, mapValue, transFunction in SPIRVReader.cpp)\<close>

subsection \<open>Values of the compiler IR\<close>

text \<open>A value of the compiler IR is named by its identity: instructions, global variables and
  basic blocks are created one after the other and carry the number of their creation;
  arguments are named by their function and position; constants are unique by structure.\<close>

datatype Value =
    InstructionV nat
  | GlobalVariableV nat
  | BasicBlockV nat
  | ArgumentOf string nat
  | UndefValue Type
  | ConstantIntV nat int
  | FunctionNamed string

text \<open>The opcodes of the instructions the model creates.\<close>

datatype LLVMOpcode = LoadOp | StoreOp | BrOp | PHIOp | RetOp | UnreachableOp | CallOp | AllocaOp

text \<open>An instruction: its opcode, its operands and the basic block it was inserted in.\<close>

record Inst =
  in_opcode :: LLVMOpcode
  in_operands :: "Value list"
  in_parent :: "nat option"

text \<open>A basic block: its name, its function and its instructions in order.\<close>

record Block =
  bb_name :: string
  bb_parent :: "string option"
  bb_insts :: "nat list"

subsection \<open>Values of the binary module and the state of the translator\<close>

text \<open>A value of the binary module, by its opcode, with the identifiers it refers to: the constants and the instructions of control flow and of memory access. \<open>OpBranchConditional\<close> carries the condition, then the two labels; \<open>OpPhi\<close> its pairs of an incoming value and an incoming block; \<open>OpVariableLengthArrayINTEL\<close> the length of the array. \<open>OpOther\<close> stands for every opcode the model does not cover.\<close>

datatype SPIRVValue =
    OpUndef
  | OpConstantSampler nat nat nat
  | OpFunctionParameter nat
  | OpLabel
  | OpBranch SPIRVId
  | OpBranchConditional SPIRVId SPIRVId SPIRVId
  | OpPhi "(SPIRVId \<times> SPIRVId) list"
  | OpUnreachable
  | OpReturn
  | OpReturnValue SPIRVId
  | OpStore SPIRVId SPIRVId
  | OpLoad SPIRVId
  | OpVariableLengthArrayINTEL SPIRVId
  | OpLine
  | OpSelectionMerge
  | OpLoopMerge
  | OpLoopControlINTEL
  | OpOther

text \<open>A function of the binary module: its name, its parameters and its basic blocks, each a label with its instructions.\<close>

record SPIRVFunction =
  sf_name :: string
  sf_arguments :: "SPIRVId list"
  sf_blocks :: "(SPIRVId \<times> SPIRVId list) list"

text \<open>What the translator reads: the values of the binary module by identifier, their names, the compiler-IR type of each (the result of \<open>transType\<close> on its type, the subject of the section on the type translators), whether \<open>transDecoration\<close> succeeds on it, and the number of arguments of each function of the compiler IR.\<close>

record VEnv =
  v_value :: "SPIRVId \<Rightarrow> SPIRVValue"
  v_name :: "SPIRVId \<Rightarrow> string"
  v_type :: "SPIRVId \<Rightarrow> Type"
  v_transDecoration :: "SPIRVId \<Rightarrow> bool"
  v_numArgs :: "string \<Rightarrow> nat"

text \<open>What the translator writes: \<open>ValueMap\<close>, \<open>PlaceholderMap\<close>, \<open>FuncLoopMetadataMap\<close>, and the compiler-IR module it builds (instructions, basic blocks and global variables by identity, and the next identity).\<close>

record VState =
  v_ValueMap :: "SPIRVId \<rightharpoonup> Value"
  v_PlaceholderMap :: "SPIRVId \<rightharpoonup> Value"
  v_FuncLoopMetadataMap :: "nat \<rightharpoonup> SPIRVId"
  v_insts :: "nat \<rightharpoonup> Inst"
  v_blocks :: "nat \<rightharpoonup> Block"
  v_globals :: "nat \<rightharpoonup> string"
  v_next :: nat

definition KPlaceholderPrefix :: string where
  "KPlaceholderPrefix = ''placeholder.''"

text \<open>The name of the sampler initializer is a macro of a header that is not in the source files at hand; its value is the one of the translator's OCLUtil.h.\<close>

definition SAMPLER_INIT :: string where
  "SAMPLER_INIT = ''__translate_sampler_initializer''"

definition startswith :: "string \<Rightarrow> string \<Rightarrow> bool" where
  "startswith Name Prefix = (take (length Prefix) Name = Prefix)"

subsection \<open>Creating, replacing and erasing\<close>

text \<open>A new instruction, appended to the basic block it is created in. The constructors the translator uses take the block to append to, which is never null here: the callers below check it first.\<close>

definition newInst :: "LLVMOpcode \<Rightarrow> Value list \<Rightarrow> nat \<Rightarrow> VState \<Rightarrow> Value \<times> VState" where
  "newInst Opc Ops b s =
     (let n = v_next s;
          blocks = (case v_blocks s b of
                      None \<Rightarrow> v_blocks s
                    | Some B \<Rightarrow> (v_blocks s)(b \<mapsto> B\<lparr>bb_insts := bb_insts B @ [n]\<rparr>))
      in (InstructionV n,
          s\<lparr>v_insts := (v_insts s)(n \<mapsto> \<lparr>in_opcode = Opc, in_operands = Ops, in_parent = Some b\<rparr>),
            v_blocks := blocks, v_next := Suc n\<rparr>))"

definition newGlobalVariable :: "string \<Rightarrow> VState \<Rightarrow> Value \<times> VState" where
  "newGlobalVariable Name s =
     (let n = v_next s in (GlobalVariableV n, s\<lparr>v_globals := (v_globals s)(n \<mapsto> Name), v_next := Suc n\<rparr>))"

definition BasicBlock_Create :: "string \<Rightarrow> string option \<Rightarrow> VState \<Rightarrow> Value \<times> VState" where
  "BasicBlock_Create Name F s =
     (let n = v_next s
      in (BasicBlockV n,
          s\<lparr>v_blocks := (v_blocks s)(n \<mapsto> \<lparr>bb_name = Name, bb_parent = F, bb_insts = []\<rparr>),
            v_next := Suc n\<rparr>))"

text \<open>\<open>replaceAllUsesWith\<close>: every operand that is the old value becomes the new one.\<close>

definition replaceUse :: "Value \<Rightarrow> Value \<Rightarrow> Inst \<Rightarrow> Inst" where
  "replaceUse Old V I = I\<lparr>in_operands := map (\<lambda>Op. if Op = Old then V else Op) (in_operands I)\<rparr>"

definition replaceAllUsesWith :: "Value \<Rightarrow> Value \<Rightarrow> VState \<Rightarrow> VState" where
  "replaceAllUsesWith Old V s = s\<lparr>v_insts := (\<lambda>n. map_option (replaceUse Old V) (v_insts s n))\<rparr>"

text \<open>\<open>eraseFromParent\<close> of an instruction and of a global variable.\<close>

definition eraseInst :: "nat \<Rightarrow> VState \<Rightarrow> VState" where
  "eraseInst n s =
     s\<lparr>v_insts := (v_insts s)(n := None),
       v_blocks := (\<lambda>b. map_option (\<lambda>B. B\<lparr>bb_insts := removeAll n (bb_insts B)\<rparr>) (v_blocks s b))\<rparr>"

definition eraseGlobal :: "nat \<Rightarrow> VState \<Rightarrow> VState" where
  "eraseGlobal g s = s\<lparr>v_globals := (v_globals s)(g := None)\<rparr>"

text \<open>\<open>PHINode::addIncoming\<close>.\<close>

definition addIncoming :: "Value \<Rightarrow> Value \<Rightarrow> Value \<Rightarrow> VState \<Rightarrow> VState" where
  "addIncoming LPhi V B s =
     (case LPhi of
        InstructionV n \<Rightarrow>
          (case v_insts s n of
             None \<Rightarrow> s
           | Some I \<Rightarrow> s\<lparr>v_insts := (v_insts s)(n \<mapsto> I\<lparr>in_operands := in_operands I @ [V, B]\<rparr>)\<rparr>)
      | _ \<Rightarrow> s)"

subsection \<open>mapValue\<close>

text \<open>\<open>dyn_cast<LoadInst>\<close> of a value, with its pointer operand.\<close>

definition getLoadInst :: "VState \<Rightarrow> Value \<Rightarrow> (nat \<times> Value) option" where
  "getLoadInst s V =
     (case V of
        InstructionV n \<Rightarrow>
          (case v_insts s n of
             None \<Rightarrow> None
           | Some I \<Rightarrow> (case (in_opcode I, in_operands I) of (LoadOp, [Ptr]) \<Rightarrow> Some (n, Ptr) | _ \<Rightarrow> None))
      | _ \<Rightarrow> None)"

text \<open>\<open>dyn_cast<GlobalVariable>\<close> of a value, if its name starts with the placeholder prefix.\<close>

definition getPlaceholder :: "VState \<Rightarrow> Value \<Rightarrow> nat option" where
  "getPlaceholder s Ptr =
     (case Ptr of
        GlobalVariableV g \<Rightarrow>
          (case v_globals s g of
             None \<Rightarrow> None
           | Some Name \<Rightarrow> if startswith Name KPlaceholderPrefix then Some g else None)
      | _ \<Rightarrow> None)"

text \<open>\<open>mapValue\<close>. When the value has another mapping, the old mapping is read as a load instruction before anything is checked: when it is none, a null pointer is dereferenced. The \<open>assert\<close> then checks that the pointer operand is a global variable whose name starts with the placeholder prefix.\<close>

definition mapValue :: "SPIRVId \<Rightarrow> Value \<Rightarrow> VState \<Rightarrow> Value Result \<times> VState" where
  "mapValue BV V s =
     (case v_ValueMap s BV of
        None \<Rightarrow> (Ok V, s\<lparr>v_ValueMap := (v_ValueMap s)(BV \<mapsto> V)\<rparr>)
      | Some Old \<Rightarrow>
          if Old = V then (Ok V, s)
          else (case getLoadInst s Old of
                  None \<Rightarrow> (Fail NullDereference, s)
                | Some (LD, Ptr) \<Rightarrow>
                    (case getPlaceholder s Ptr of
                       None \<Rightarrow> (Fail AssertionFailure, s)
                     | Some Placeholder \<Rightarrow>
                         (let s1 = replaceAllUsesWith Old V s;
                              s2 = eraseInst LD s1;
                              s3 = eraseGlobal Placeholder s2
                          in (Ok V, s3\<lparr>v_ValueMap := (v_ValueMap s3)(BV \<mapsto> V)\<rparr>)))))"

subsection \<open>transValue\<close>

definition some :: "Value Result \<times> VState \<Rightarrow> Value option Result \<times> VState" where
  "some m = bindR m (\<lambda>V s. (Ok (Some V), s))"

text \<open>\<open>oclTransConstantSampler\<close>: a new call of the sampler initializer, appended to the current block. \<open>CallInst::Create\<close> is given the block to append to, and LLVM's instruction constructor asserts that this block is not null.\<close>

definition oclTransConstantSampler :: "nat \<Rightarrow> nat \<Rightarrow> nat \<Rightarrow> nat option \<Rightarrow> VState \<Rightarrow> Value Result \<times> VState" where
  "oclTransConstantSampler AddrMode Normalized FilterMode BB s =
     (case BB of
        None \<Rightarrow> (Fail AssertionFailure, s)
      | Some b \<Rightarrow>
          (let (CI, s1) = newInst CallOp [FunctionNamed SAMPLER_INIT,
                            ConstantIntV 32 (int (2 * AddrMode) OR int Normalized OR int (16 * (FilterMode + 1)))] b s
           in (Ok CI, s1)))"

text \<open>An operand of an instruction that is being created: the translation of a value that may leave a placeholder; a null result is dereferenced by the constructor of the instruction.\<close>

definition operand ::
  "(SPIRVId \<Rightarrow> string option \<Rightarrow> nat option \<Rightarrow> bool \<Rightarrow> VState \<Rightarrow> Value option Result \<times> VState)
   \<Rightarrow> SPIRVId \<Rightarrow> string option \<Rightarrow> nat option \<Rightarrow> VState \<Rightarrow> Value Result \<times> VState" where
  "operand rec BV F BB s =
     bindR (rec BV F BB True s)
       (\<lambda>V s. case V of None \<Rightarrow> (Fail NullDereference, s) | Some V \<Rightarrow> (Ok V, s))"

text \<open>\<open>cast<BasicBlock\<close>> fails on a null pointer and on a value that is no basic block.\<close>

definition castBasicBlock :: "Value option \<Rightarrow> VState \<Rightarrow> Value Result \<times> VState" where
  "castBasicBlock V s =
     (case V of Some (BasicBlockV b) \<Rightarrow> (Ok (BasicBlockV b), s) | _ \<Rightarrow> (Fail AssertionFailure, s))"

definition label ::
  "(SPIRVId \<Rightarrow> string option \<Rightarrow> nat option \<Rightarrow> bool \<Rightarrow> VState \<Rightarrow> Value option Result \<times> VState)
   \<Rightarrow> SPIRVId \<Rightarrow> string option \<Rightarrow> nat option \<Rightarrow> VState \<Rightarrow> Value Result \<times> VState" where
  "label rec BV F BB s = bindR (rec BV F BB True s) castBasicBlock"

text \<open>The pairs of an \<open>OpPhi\<close>: the incoming value, then the incoming block, then \<open>addIncoming\<close>.\<close>

primrec foreachPair ::
  "(SPIRVId \<Rightarrow> string option \<Rightarrow> nat option \<Rightarrow> bool \<Rightarrow> VState \<Rightarrow> Value option Result \<times> VState)
   \<Rightarrow> Value \<Rightarrow> string option \<Rightarrow> nat option \<Rightarrow> (SPIRVId \<times> SPIRVId) list \<Rightarrow> VState
   \<Rightarrow> Value option Result \<times> VState" where
  "foreachPair rec LPhi F BB [] s = (Ok (Some LPhi), s)"
| "foreachPair rec LPhi F BB (P # Pairs) s =
     bindR (operand rec (fst P) F BB s) (\<lambda>Translated s.
     bindR (label rec (snd P) F BB s) (\<lambda>IncomingBB s.
       foreachPair rec LPhi F BB Pairs (addIncoming LPhi Translated IncomingBB s)))"

text \<open>The creation of a placeholder: a global variable named with the placeholder prefix, a load of it in the current block, recorded in \<open>PlaceholderMap\<close> and mapped.\<close>

definition createPlaceHolder :: "VEnv \<Rightarrow> SPIRVId \<Rightarrow> nat \<Rightarrow> VState \<Rightarrow> Value option Result \<times> VState" where
  "createPlaceHolder E BV b s =
     (let (GV, s1) = newGlobalVariable (KPlaceholderPrefix @ v_name E BV) s;
          (LD, s2) = newInst LoadOp [GV] b s1;
          s3 = s2\<lparr>v_PlaceholderMap := (v_PlaceholderMap s2)(BV \<mapsto> LD)\<rparr>
      in some (mapValue BV LD s3))"

text \<open>The common end of the instruction cases: the instruction is created and mapped.\<close>

definition mapNewInst :: "SPIRVId \<Rightarrow> LLVMOpcode \<Rightarrow> Value list \<Rightarrow> nat \<Rightarrow> VState \<Rightarrow> Value option Result \<times> VState" where
  "mapNewInst BV Opc Ops b s = (let (I, s1) = newInst Opc Ops b s in some (mapValue BV I s1))"

text \<open>The instruction cases of \<open>transValueWithoutDecoration\<close>. The C++ leaves open the order in which the operands of one constructor call are translated; the model takes them from left to right. The length of a variable-length array is requested with no placeholder allowed, and its result is not looked at: LLVM's constructor of the allocation reads a null length as the constant 1.\<close>

definition transInstruction ::
  "(SPIRVId \<Rightarrow> string option \<Rightarrow> nat option \<Rightarrow> bool \<Rightarrow> VState \<Rightarrow> Value option Result \<times> VState)
   \<Rightarrow> VEnv \<Rightarrow> SPIRVId \<Rightarrow> string option \<Rightarrow> nat \<Rightarrow> VState \<Rightarrow> Value option Result \<times> VState" where
  "transInstruction rec E BV F b s =
     (let BB = Some b in
      case v_value E BV of
        OpBranch Target \<Rightarrow>
          bindR (label rec Target F BB s) (\<lambda>T s. mapNewInst BV BrOp [T] b s)
      | OpBranchConditional Condition TrueLabel FalseLabel \<Rightarrow>
          bindR (label rec TrueLabel F BB s) (\<lambda>T s.
          bindR (label rec FalseLabel F BB s) (\<lambda>Fl s.
          bindR (operand rec Condition F BB s) (\<lambda>C s. mapNewInst BV BrOp [C, T, Fl] b s)))
      | OpPhi Pairs \<Rightarrow>
          bindR (let (I, s1) = newInst PHIOp [] b s in mapValue BV I s1)
            (\<lambda>LPhi s. foreachPair rec LPhi F BB Pairs s)
      | OpUnreachable \<Rightarrow> mapNewInst BV UnreachableOp [] b s
      | OpReturn \<Rightarrow> mapNewInst BV RetOp [] b s
      | OpReturnValue RV \<Rightarrow>
          bindR (operand rec RV F BB s) (\<lambda>V s. mapNewInst BV RetOp [V] b s)
      | OpStore Src Dst \<Rightarrow>
          bindR (operand rec Src F BB s) (\<lambda>V s.
          bindR (operand rec Dst F BB s) (\<lambda>P s. mapNewInst BV StoreOp [V, P] b s))
      | OpLoad Src \<Rightarrow>
          bindR (operand rec Src F BB s) (\<lambda>P s. mapNewInst BV LoadOp [P] b s)
      | OpVariableLengthArrayINTEL Length \<Rightarrow>
          bindR (rec Length F BB False s) (\<lambda>ArrSize s.
            mapNewInst BV AllocaOp [case ArrSize of None \<Rightarrow> ConstantIntV 32 1 | Some V \<Rightarrow> V] b s)
      | OpLine \<Rightarrow> (Ok None, s)
      | OpSelectionMerge \<Rightarrow> (Ok None, s)
      | OpLoopMerge \<Rightarrow> (Ok None, s\<lparr>v_FuncLoopMetadataMap := (v_FuncLoopMetadataMap s)(b \<mapsto> BV)\<rparr>)
      | OpLoopControlINTEL \<Rightarrow> (Ok None, s\<lparr>v_FuncLoopMetadataMap := (v_FuncLoopMetadataMap s)(b \<mapsto> BV)\<rparr>)
      | _ \<Rightarrow> (Unmodelled, s))"

text \<open>\<open>transValueWithoutDecoration\<close>: the values that are no instructions first (a sampler constant is translated anew at each request and never mapped), then the assertion on the basic block, then the placeholder if one is asked for, then the instruction.\<close>

definition transValueWithoutDecoration ::
  "(SPIRVId \<Rightarrow> string option \<Rightarrow> nat option \<Rightarrow> bool \<Rightarrow> VState \<Rightarrow> Value option Result \<times> VState)
   \<Rightarrow> VEnv \<Rightarrow> SPIRVId \<Rightarrow> string option \<Rightarrow> nat option \<Rightarrow> bool \<Rightarrow> VState
   \<Rightarrow> Value option Result \<times> VState" where
  "transValueWithoutDecoration rec E BV F BB CreatePlaceHolder s =
     (case v_value E BV of
        OpUndef \<Rightarrow> some (mapValue BV (UndefValue (v_type E BV)) s)
      | OpConstantSampler AddrMode Normalized FilterMode \<Rightarrow>
          some (oclTransConstantSampler AddrMode Normalized FilterMode BB s)
      | OpFunctionParameter ArgNo \<Rightarrow>
          (case F of
             None \<Rightarrow> (Fail AssertionFailure, s)
           | Some Fn \<Rightarrow> if ArgNo < v_numArgs E Fn then some (mapValue BV (ArgumentOf Fn ArgNo) s)
                        else (Fail Unreachable, s))
      | OpLabel \<Rightarrow> (let (B, s1) = BasicBlock_Create (v_name E BV) F s in some (mapValue BV B s1))
      | OpOther \<Rightarrow> (Unmodelled, s)
      | _ \<Rightarrow>
          (case BB of
             None \<Rightarrow> (Fail AssertionFailure, s)
           | Some b \<Rightarrow> if CreatePlaceHolder then createPlaceHolder E BV b s
                       else transInstruction rec E BV F b s))"

text \<open>One call of \<open>transValue\<close>, its recursive calls being \<open>rec\<close>: the table entry is returned unless a placeholder was recorded for the value and the request allows none.\<close>

definition transValue_body ::
  "(SPIRVId \<Rightarrow> string option \<Rightarrow> nat option \<Rightarrow> bool \<Rightarrow> VState \<Rightarrow> Value option Result \<times> VState)
   \<Rightarrow> VEnv \<Rightarrow> SPIRVId \<Rightarrow> string option \<Rightarrow> nat option \<Rightarrow> bool \<Rightarrow> VState
   \<Rightarrow> Value option Result \<times> VState" where
  "transValue_body rec E BV F BB CreatePlaceHolder s =
     (case v_ValueMap s BV of
        Some V \<Rightarrow>
          if v_PlaceholderMap s BV = None \<or> CreatePlaceHolder then (Ok (Some V), s)
          else bindR (transValueWithoutDecoration rec E BV F BB CreatePlaceHolder s)
                 (\<lambda>V s. case V of None \<Rightarrow> (Ok None, s)
                        | Some V \<Rightarrow> if v_transDecoration E BV then (Ok (Some V), s) else (Fail AssertionFailure, s))
      | None \<Rightarrow>
          bindR (transValueWithoutDecoration rec E BV F BB CreatePlaceHolder s)
            (\<lambda>V s. case V of None \<Rightarrow> (Ok None, s)
                   | Some V \<Rightarrow> if v_transDecoration E BV then (Ok (Some V), s) else (Fail AssertionFailure, s)))"

text \<open>\<open>transValue\<close> with fuel: a recursive call takes one unit.\<close>

primrec transValue ::
  "nat \<Rightarrow> VEnv \<Rightarrow> SPIRVId \<Rightarrow> string option \<Rightarrow> nat option \<Rightarrow> bool \<Rightarrow> VState
   \<Rightarrow> Value option Result \<times> VState" where
  "transValue 0 E BV F BB CreatePlaceHolder s = (OutOfFuel, s)"
| "transValue (Suc n) E BV F BB CreatePlaceHolder s =
     transValue_body (transValue n E) E BV F BB CreatePlaceHolder s"

subsection \<open>transFunction\<close>

text \<open>The part of \<open>transFunction\<close> after the creation of the function: the arguments are mapped, every basic block is created, then the instructions of every block are translated with no placeholder allowed; their results are not looked at. (The loop metadata attached at the end is the subject of the section on loops.)\<close>

primrec mapArguments :: "string \<Rightarrow> nat \<Rightarrow> SPIRVId list \<Rightarrow> VState \<Rightarrow> unit Result \<times> VState" where
  "mapArguments F ArgNo [] s = (Ok (), s)"
| "mapArguments F ArgNo (BA # BAs) s =
     bindR (mapValue BA (ArgumentOf F ArgNo) s) (\<lambda>V s. mapArguments F (Suc ArgNo) BAs s)"

primrec createBlocks :: "nat \<Rightarrow> VEnv \<Rightarrow> string \<Rightarrow> SPIRVId list \<Rightarrow> VState \<Rightarrow> unit Result \<times> VState" where
  "createBlocks n E F [] s = (Ok (), s)"
| "createBlocks n E F (BBB # BBBs) s =
     bindR (transValue n E BBB (Some F) None True s) (\<lambda>V s. createBlocks n E F BBBs s)"

primrec transInsts :: "nat \<Rightarrow> VEnv \<Rightarrow> string \<Rightarrow> nat option \<Rightarrow> SPIRVId list \<Rightarrow> VState \<Rightarrow> unit Result \<times> VState" where
  "transInsts n E F BB [] s = (Ok (), s)"
| "transInsts n E F BB (BInst # BInsts) s =
     bindR (transValue n E BInst (Some F) BB False s) (\<lambda>V s. transInsts n E F BB BInsts s)"

definition dynCastBasicBlock :: "Value option \<Rightarrow> nat option" where
  "dynCastBasicBlock V = (case V of Some (BasicBlockV b) \<Rightarrow> Some b | _ \<Rightarrow> None)"

primrec transBlocks :: "nat \<Rightarrow> VEnv \<Rightarrow> string \<Rightarrow> (SPIRVId \<times> SPIRVId list) list \<Rightarrow> VState \<Rightarrow> unit Result \<times> VState" where
  "transBlocks n E F [] s = (Ok (), s)"
| "transBlocks n E F (BBB # BBBs) s =
     bindR (transValue n E (fst BBB) (Some F) None True s) (\<lambda>V s.
     bindR (transInsts n E F (dynCastBasicBlock V) (snd BBB) s) (\<lambda>u s.
       transBlocks n E F BBBs s))"

definition transFunction :: "nat \<Rightarrow> VEnv \<Rightarrow> SPIRVFunction \<Rightarrow> VState \<Rightarrow> unit Result \<times> VState" where
  "transFunction n E BF s =
     bindR (mapArguments (sf_name BF) 0 (sf_arguments BF) s) (\<lambda>u s.
     bindR (createBlocks n E (sf_name BF) (map fst (sf_blocks BF)) s) (\<lambda>u s.
       transBlocks n E (sf_name BF) (sf_blocks BF) s))"

subsection \<open>A concrete function\<close>

text \<open>A function with a loop: the header block 20 has a phi whose value from the latch is the load 23, which comes after it.\<close>

definition loopValues :: "SPIRVId \<Rightarrow> SPIRVValue" where
  "loopValues i =
     (if i = 2 then OpUndef
      else if i = 10 then OpLabel else if i = 11 then OpBranch 20
      else if i = 20 then OpLabel else if i = 21 then OpPhi [(23, 20), (2, 10)]
      else if i = 23 then OpLoad 21 else if i = 24 then OpBranchConditional 23 20 30
      else if i = 30 then OpLabel else if i = 31 then OpReturnValue 23
      else OpOther)"

definition loopEnv :: VEnv where
  "loopEnv = \<lparr>v_value = loopValues, v_name = (\<lambda>i. ''''), v_type = (\<lambda>i. PointerTy (IntegerTy 32) 0),
             v_transDecoration = (\<lambda>i. True), v_numArgs = (\<lambda>f. 0)\<rparr>"

definition loopFunction :: SPIRVFunction where
  "loopFunction = \<lparr>sf_name = ''f'', sf_arguments = [], sf_blocks = [(10, [11]), (20, [21, 23, 24]), (30, [31])]\<rparr>"

text \<open>A function with a loop whose header block 20 has a phi of the value loaded by 23, which comes after it, and then a variable-length array of that length: \<open>f(p, c)\<close> with \<open>%21 = phi [%23, %20], [undef, %10]\<close>, \<open>%23 = load %p\<close>, \<open>%25 = OpVariableLengthArrayINTEL %23\<close>, \<open>br %c, %20, %30\<close>.\<close>

definition vlaValues :: "SPIRVId \<Rightarrow> SPIRVValue" where
  "vlaValues i =
     (if i = 2 then OpUndef else if i = 3 then OpFunctionParameter 0 else if i = 4 then OpFunctionParameter 1
      else if i = 10 then OpLabel else if i = 11 then OpBranch 20
      else if i = 20 then OpLabel else if i = 21 then OpPhi [(23, 20), (2, 10)]
      else if i = 23 then OpLoad 3 else if i = 25 then OpVariableLengthArrayINTEL 23
      else if i = 24 then OpBranchConditional 4 20 30
      else if i = 30 then OpLabel else if i = 31 then OpReturn
      else OpOther)"

definition vlaEnv :: VEnv where
  "vlaEnv = \<lparr>v_value = vlaValues, v_name = (\<lambda>i. ''''), v_type = (\<lambda>i. IntegerTy 32),
            v_transDecoration = (\<lambda>i. True), v_numArgs = (\<lambda>f. 2)\<rparr>"

definition vlaFunction :: SPIRVFunction where
  "vlaFunction = \<lparr>sf_name = ''f'', sf_arguments = [3, 4],
                  sf_blocks = [(10, [11]), (20, [21, 23, 25, 24]), (30, [31])]\<rparr>"

definition emptyVState :: VState where
  "emptyVState = \<lparr>v_ValueMap = Map.empty, v_PlaceholderMap = Map.empty, v_FuncLoopMetadataMap = Map.empty,
                  v_insts = Map.empty, v_blocks = Map.empty, v_globals = Map.empty, v_next = 0\<rparr>"

subsection \<open>Placeholders in a state of the translator\<close>


text \<open>An identifier whose table entry is the placeholder recorded for it, and one whose table entry is another value.\<close>

definition pending :: "VState \<Rightarrow> SPIRVId \<Rightarrow> bool" where
  "pending s Y = (\<exists>v. v_PlaceholderMap s Y = Some v \<and> v_ValueMap s Y = Some v)"

definition settled :: "VState \<Rightarrow> SPIRVId \<Rightarrow> bool" where
  "settled s Y = (v_ValueMap s Y \<noteq> None \<and> \<not> pending s Y)"


text \<open>A value that exists: an instruction has an identity the module has given out.\<close>

definition bounded :: "VState \<Rightarrow> Value \<Rightarrow> bool" where
  "bounded s v = (\<forall>k. v = InstructionV k \<longrightarrow> k < v_next s)"



text \<open>A value that is an operand of an instruction of the module, and an instruction that is in a basic block.\<close>

definition uses :: "VState \<Rightarrow> Value \<Rightarrow> bool" where
  "uses s v = (\<exists>k I. v_insts s k = Some I \<and> v \<in> set (in_operands I))"

definition listed :: "VState \<Rightarrow> nat \<Rightarrow> bool" where
  "listed s n = (\<exists>b B. v_blocks s b = Some B \<and> n \<in> set (bb_insts B))"

text \<open>A global variable of the module whose name starts with the placeholder prefix.\<close>

definition isPrefixed :: "VState \<Rightarrow> nat \<Rightarrow> bool" where
  "isPrefixed s g = (\<exists>Name. v_globals s g = Some Name \<and> startswith Name KPlaceholderPrefix)"

text \<open>An instruction that is erased: not in the module, in no block, an operand of nothing.\<close>

definition dead :: "VState \<Rightarrow> Value \<Rightarrow> bool" where
  "dead s v = ((\<exists>m. v = InstructionV m \<and> v_insts s m = None \<and> \<not> listed s m) \<and> \<not> uses s v)"

text \<open>The load created for a placeholder reads the global variable created just before it.\<close>

definition shapeOk :: "VState \<Rightarrow> nat \<Rightarrow> bool" where
  "shapeOk s m = (\<exists>I. v_insts s (Suc m) = Some I \<and> in_operands I = [GlobalVariableV m])"



definition InvVb :: "VState \<Rightarrow> bool" where
  "InvVb s = (\<forall>X k. v_ValueMap s X = Some (InstructionV k) \<longrightarrow> k < v_next s)"






text \<open>The state \<open>mapValue\<close> leaves when it replaces a placeholder.\<close>

definition resolve :: "SPIRVId \<Rightarrow> Value \<Rightarrow> nat \<Rightarrow> nat \<Rightarrow> VState \<Rightarrow> VState" where
  "resolve BV V LD g s =
     (let s1 = replaceAllUsesWith (InstructionV LD) V s;
          s2 = eraseInst LD s1;
          s3 = eraseGlobal g s2
      in s3\<lparr>v_ValueMap := (v_ValueMap s3)(BV \<mapsto> V)\<rparr>)"

text \<open>The state after the creation of a placeholder.\<close>

definition placeholderState :: "VEnv \<Rightarrow> SPIRVId \<Rightarrow> nat \<Rightarrow> VState \<Rightarrow> VState" where
  "placeholderState E BV BB s =
     (let s1 = snd (newGlobalVariable (KPlaceholderPrefix @ v_name E BV) s);
          s2 = snd (newInst LoadOp [GlobalVariableV (v_next s)] BB s1)
      in s2\<lparr>v_PlaceholderMap := (v_PlaceholderMap s2)(BV \<mapsto> InstructionV (Suc (v_next s))),
            v_ValueMap := (v_ValueMap s2)(BV \<mapsto> InstructionV (Suc (v_next s)))\<rparr>)"

text \<open>A step that only adds: the tables keep their entries and a new record of \<open>PlaceholderMap\<close> is a new pending placeholder.\<close>

definition grows :: "VState \<Rightarrow> VState \<Rightarrow> bool" where
  "grows s s' =
     (v_next s \<le> v_next s'
      \<and> (\<forall>X v. v_ValueMap s X = Some v \<longrightarrow> v_ValueMap s' X = Some v)
      \<and> (\<forall>Y v. v_PlaceholderMap s' Y = Some v \<longrightarrow>
            v_PlaceholderMap s Y = Some v \<or> (\<not> bounded s v \<and> v_ValueMap s' Y = Some v)))"


text \<open>The values of the binary module that are translated as instructions, those for which a placeholder can be created.\<close>

fun isInstruction :: "SPIRVValue \<Rightarrow> bool" where
  "isInstruction OpUndef = False"
| "isInstruction (OpConstantSampler a n f) = False"
| "isInstruction (OpFunctionParameter i) = False"
| "isInstruction OpLabel = False"
| "isInstruction OpOther = False"
| "isInstruction v = True"




text \<open>The identifiers an instruction refers to.\<close>

fun operandIds :: "SPIRVValue \<Rightarrow> SPIRVId list" where
  "operandIds (OpBranch Target) = [Target]"
| "operandIds (OpBranchConditional Condition TrueLabel FalseLabel) = [Condition, TrueLabel, FalseLabel]"
| "operandIds (OpPhi Pairs) = concat (map (\<lambda>P. [fst P, snd P]) Pairs)"
| "operandIds (OpReturnValue RV) = [RV]"
| "operandIds (OpStore Src Dst) = [Src, Dst]"
| "operandIds (OpLoad Src) = [Src]"
| "operandIds (OpVariableLengthArrayINTEL Length) = [Length]"
| "operandIds v = []"

text \<open>The identifiers of a list that are instructions.\<close>

definition fwd :: "VEnv \<Rightarrow> SPIRVId list \<Rightarrow> SPIRVId set" where
  "fwd E Xs = {Y \<in> set Xs. isInstruction (v_value E Y)}"

text \<open>The values of the binary module whose translation ends in \<open>mapValue\<close>.\<close>

fun isMapped :: "SPIRVValue \<Rightarrow> bool" where
  "isMapped (OpConstantSampler a n f) = False"
| "isMapped OpLine = False"
| "isMapped OpSelectionMerge = False"
| "isMapped OpLoopMerge = False"
| "isMapped OpLoopControlINTEL = False"
| "isMapped OpOther = False"
| "isMapped v = True"



text \<open>The identifiers the translation of an instruction can leave pending: those it refers to and, as the length of a variable-length array is translated on the spot, those its length leaves pending; \<open>n\<close> bounds the depth, as the fuel does.\<close>

primrec deepFwd :: "nat \<Rightarrow> VEnv \<Rightarrow> SPIRVId \<Rightarrow> SPIRVId set" where
  "deepFwd 0 E X = {}"
| "deepFwd (Suc n) E X =
     fwd E (operandIds (v_value E X))
     \<union> (case v_value E X of OpVariableLengthArrayINTEL Length \<Rightarrow> deepFwd n E Length | _ \<Rightarrow> {})"


definition fwdAll :: "nat \<Rightarrow> VEnv \<Rightarrow> SPIRVId list \<Rightarrow> SPIRVId set" where
  "fwdAll n E Xs = (\<Union>X \<in> set Xs. deepFwd n E X)"



text \<open>The instructions of a function of the binary module.\<close>

definition allInsts :: "SPIRVFunction \<Rightarrow> SPIRVId list" where
  "allInsts BF = concat (map snd (sf_blocks BF))"

text \<open>A function whose blocks start with labels and whose instructions refer, among the instructions, only to instructions of the function whose translation is mapped.\<close>

definition wellFormed :: "VEnv \<Rightarrow> SPIRVFunction \<Rightarrow> bool" where
  "wellFormed E BF =
     ((\<forall>L \<in> set (map fst (sf_blocks BF)). \<not> isInstruction (v_value E L))
      \<and> (\<forall>X \<in> set (allInsts BF). \<forall>Y \<in> set (operandIds (v_value E X)).
            isInstruction (v_value E Y) \<longrightarrow> Y \<in> set (allInsts BF) \<and> isMapped (v_value E Y)))"


text \<open>The old mapping is a load instruction; it is the load of a global variable with the placeholder prefix.\<close>

definition isLoadInst :: "VState \<Rightarrow> Value \<Rightarrow> bool" where
  "isLoadInst s V = (getLoadInst s V \<noteq> None)"

definition isPlaceholderLoad :: "VState \<Rightarrow> Value \<Rightarrow> bool" where
  "isPlaceholderLoad s V =
     (case getLoadInst s V of None \<Rightarrow> False | Some (LD, Ptr) \<Rightarrow> getPlaceholder s Ptr \<noteq> None)"






text \<open>The state after the phi of the loop header is translated, and the state after the whole function.\<close>

definition midState :: VState where
  "midState = snd (transInsts 3 loopEnv ''f'' (Some 1) [21] (snd (createBlocks 3 loopEnv ''f'' [10, 20, 30] emptyVState)))"

text \<open>The state of the translation of \<open>vlaFunction\<close> when it comes to the variable-length array: the arguments are mapped, the blocks are created, the first block is translated, and so are the phi and the load of the second block (the basic block of label 20 is block 1).\<close>

definition vlaState :: VState where
  "vlaState =
     snd (transInsts 4 vlaEnv ''f'' (Some 1) [21, 23]
       (snd (transInsts 4 vlaEnv ''f'' (Some 0) [11]
         (snd (createBlocks 4 vlaEnv ''f'' [10, 20, 30]
           (snd (mapArguments ''f'' 0 [3, 4] emptyVState)))))))"

definition finalState :: VState where
  "finalState = snd (transFunction 3 loopEnv loopFunction emptyVState)"

subsection \<open>The invariant is kept\<close>

lemma startswith_append [simp]: "startswith (P @ N) P"
  by (simp add: startswith_def)







lemma dead_ValueMap [simp]: "dead (s\<lparr>v_ValueMap := m\<rparr>) v = dead s v"
  by (simp add: dead_def listed_def uses_def)

lemma shapeOk_ValueMap [simp]: "shapeOk (s\<lparr>v_ValueMap := m\<rparr>) k = shapeOk s k"
  by (simp add: shapeOk_def)

lemma isPrefixed_ValueMap [simp]: "isPrefixed (s\<lparr>v_ValueMap := m\<rparr>) g = isPrefixed s g"
  by (simp add: isPrefixed_def)

lemma mapValue_unmapped:
  "v_ValueMap s BV = None \<Longrightarrow> mapValue BV V s = (Ok V, s\<lparr>v_ValueMap := (v_ValueMap s)(BV \<mapsto> V)\<rparr>)"
  by (simp add: mapValue_def)


lemma resolve_fields [simp]:
  "v_ValueMap (resolve BV V LD g s) = (v_ValueMap s)(BV \<mapsto> V)"
  "v_PlaceholderMap (resolve BV V LD g s) = v_PlaceholderMap s"
  "v_insts (resolve BV V LD g s) = (\<lambda>n. map_option (replaceUse (InstructionV LD) V) (v_insts s n))(LD := None)"
  "v_blocks (resolve BV V LD g s) = (\<lambda>b. map_option (\<lambda>B. B\<lparr>bb_insts := removeAll LD (bb_insts B)\<rparr>) (v_blocks s b))"
  "v_globals (resolve BV V LD g s) = (v_globals s)(g := None)"
  "v_next (resolve BV V LD g s) = v_next s"
  "v_FuncLoopMetadataMap (resolve BV V LD g s) = v_FuncLoopMetadataMap s"
  by (simp_all add: resolve_def replaceAllUsesWith_def eraseInst_def eraseGlobal_def Let_def)

lemma mapValue_cases:
  assumes "mapValue BV V s = (Ok r, s')"
  shows "r = V \<and>
     ((v_ValueMap s BV = None \<and> s' = s\<lparr>v_ValueMap := (v_ValueMap s)(BV \<mapsto> V)\<rparr>)
      \<or> (v_ValueMap s BV = Some V \<and> s' = s)
      \<or> (\<exists>LD g I. v_ValueMap s BV = Some (InstructionV LD) \<and> InstructionV LD \<noteq> V
            \<and> v_insts s LD = Some I \<and> in_operands I = [GlobalVariableV g]
            \<and> isPrefixed s g \<and> s' = resolve BV V LD g s))"
  using assms
  apply (simp add: mapValue_def split: option.splits if_splits prod.splits)
    apply (auto simp: getLoadInst_def getPlaceholder_def resolve_def isPrefixed_def Let_def
                split: Value.splits option.splits LLVMOpcode.splits list.splits if_splits)
  done




lemma newInst_fields [simp]:
  "fst (newInst Opc Ops BB s) = InstructionV (v_next s)"
  "v_ValueMap (snd (newInst Opc Ops BB s)) = v_ValueMap s"
  "v_PlaceholderMap (snd (newInst Opc Ops BB s)) = v_PlaceholderMap s"
  "v_insts (snd (newInst Opc Ops BB s)) = (v_insts s)(v_next s \<mapsto> \<lparr>in_opcode = Opc, in_operands = Ops, in_parent = Some BB\<rparr>)"
  "v_globals (snd (newInst Opc Ops BB s)) = v_globals s"
  "v_next (snd (newInst Opc Ops BB s)) = Suc (v_next s)"
  by (simp_all add: newInst_def Let_def)






lemma BasicBlock_Create_fields [simp]:
  "fst (BasicBlock_Create Name F s) = BasicBlockV (v_next s)"
  "v_ValueMap (snd (BasicBlock_Create Name F s)) = v_ValueMap s"
  "v_PlaceholderMap (snd (BasicBlock_Create Name F s)) = v_PlaceholderMap s"
  "v_insts (snd (BasicBlock_Create Name F s)) = v_insts s"
  "v_globals (snd (BasicBlock_Create Name F s)) = v_globals s"
  "v_next (snd (BasicBlock_Create Name F s)) = Suc (v_next s)"
  by (simp_all add: BasicBlock_Create_def Let_def)



lemma newGlobalVariable_fields [simp]:
  "fst (newGlobalVariable Name s) = GlobalVariableV (v_next s)"
  "v_ValueMap (snd (newGlobalVariable Name s)) = v_ValueMap s"
  "v_PlaceholderMap (snd (newGlobalVariable Name s)) = v_PlaceholderMap s"
  "v_insts (snd (newGlobalVariable Name s)) = v_insts s"
  "v_blocks (snd (newGlobalVariable Name s)) = v_blocks s"
  "v_globals (snd (newGlobalVariable Name s)) = (v_globals s)(v_next s \<mapsto> Name)"
  "v_next (snd (newGlobalVariable Name s)) = Suc (v_next s)"
  by (simp_all add: newGlobalVariable_def Let_def)

lemma createPlaceHolder_unmapped:
  assumes "v_ValueMap s BV = None"
  shows "createPlaceHolder E BV BB s = (Ok (Some (InstructionV (Suc (v_next s)))), placeholderState E BV BB s)"
  using assms
  by (simp add: createPlaceHolder_def placeholderState_def some_def bindR_def mapValue_def Let_def
           split_beta)

lemma placeholderState_fields [simp]:
  "v_ValueMap (placeholderState E BV BB s) = (v_ValueMap s)(BV \<mapsto> InstructionV (Suc (v_next s)))"
  "v_PlaceholderMap (placeholderState E BV BB s) = (v_PlaceholderMap s)(BV \<mapsto> InstructionV (Suc (v_next s)))"
  "v_insts (placeholderState E BV BB s) =
     (v_insts s)(Suc (v_next s) \<mapsto> \<lparr>in_opcode = LoadOp, in_operands = [GlobalVariableV (v_next s)], in_parent = Some BB\<rparr>)"
  "v_globals (placeholderState E BV BB s) = (v_globals s)(v_next s \<mapsto> KPlaceholderPrefix @ v_name E BV)"
  "v_next (placeholderState E BV BB s) = Suc (Suc (v_next s))"
  by (simp_all add: placeholderState_def Let_def)



lemma addIncoming_fields [simp]:
  "v_ValueMap (addIncoming LPhi V B s) = v_ValueMap s"
  "v_PlaceholderMap (addIncoming LPhi V B s) = v_PlaceholderMap s"
  "v_globals (addIncoming LPhi V B s) = v_globals s"
  "v_blocks (addIncoming LPhi V B s) = v_blocks s"
  "v_next (addIncoming LPhi V B s) = v_next s"
  by (simp_all add: addIncoming_def split: Value.splits option.splits)












lemma grows_settled:
  assumes g: "grows s s'" and i: "InvVb s" and st: "settled s Y"
  shows "settled s' Y"
proof -
  from st obtain w where w: "v_ValueMap s Y = Some w" and np: "\<not> pending s Y" by (auto simp: settled_def)
  have w': "v_ValueMap s' Y = Some w" using g w by (simp add: grows_def)
  have bw: "bounded s w" using i w by (auto simp: bounded_def InvVb_def)
  have "\<not> pending s' Y"
  proof
    assume "pending s' Y"
    then have p: "v_PlaceholderMap s' Y = Some w" using w' by (auto simp: pending_def)
    from g p have "v_PlaceholderMap s Y = Some w \<or> (\<not> bounded s w \<and> v_ValueMap s' Y = Some w)"
      unfolding grows_def by blast
    then show False using bw np w by (auto simp: pending_def)
  qed
  then show ?thesis using w' by (simp add: settled_def)
qed

lemma grows_pending:
  assumes g: "grows s s'" and i: "InvVb s" and p: "pending s' Y"
  shows "pending s Y \<or> v_ValueMap s Y = None"
proof (cases "v_ValueMap s Y")
  case None then show ?thesis by simp
next
  case (Some w)
  then have "settled s Y \<or> pending s Y" by (auto simp: settled_def)
  then show ?thesis using grows_settled[OF g i] p by (auto simp: settled_def)
qed















lemma pending_newInst [simp]: "pending (snd (newInst Opc Ops BB s)) Y = pending s Y"
  by (simp add: pending_def)

lemma pending_BasicBlock_Create [simp]: "pending (snd (BasicBlock_Create Name F s)) Y = pending s Y"
  by (simp add: pending_def)

lemma pending_addIncoming [simp]: "pending (addIncoming LPhi V B s) Y = pending s Y"
  by (simp add: pending_def)




lemma some_Ok: "some m = (Ok r, s') \<Longrightarrow> \<exists>V. r = Some V \<and> m = (Ok V, s')"
  by (cases m, rename_tac a b, case_tac a) (auto simp: some_def bindR_def)

lemma decorate_Ok:
  assumes "bindR m (\<lambda>V s. case V of None \<Rightarrow> (Ok None, s)
             | Some V \<Rightarrow> if d then (Ok (Some V), s) else (Fail AssertionFailure, s)) = (Ok r, s')"
  shows "m = (Ok r, s')"
  using assms
  by (cases m, rename_tac a b, case_tac a) (auto simp: bindR_def split: option.splits if_splits)

lemma twd_true_inst:
  "isInstruction (v_value E X) \<Longrightarrow>
   transValueWithoutDecoration rec E X F BB True s =
     (case BB of None \<Rightarrow> (Fail AssertionFailure, s) | Some b \<Rightarrow> createPlaceHolder E X b s)"
  by (cases "v_value E X") (simp_all add: transValueWithoutDecoration_def split: option.splits)










lemma bindR_Ok:
  assumes "bindR m f = (Ok r, s')"
  obtains x s1 where "m = (Ok x, s1)" "f x s1 = (Ok r, s')"
  using assms by (cases m, rename_tac a b, case_tac a) (auto simp: bindR_def)

lemma mapValue_maps:
  assumes "mapValue BV V s = (Ok r, s')"
  shows "r = V \<and> v_ValueMap s' = (v_ValueMap s)(BV \<mapsto> V) \<and> v_PlaceholderMap s' = v_PlaceholderMap s
         \<and> v_next s' = v_next s"
  using mapValue_cases[OF assms] by (auto simp: fun_upd_idem)

















lemma twd_false_inst:
  "isInstruction (v_value E X) \<Longrightarrow>
   transValueWithoutDecoration rec E X F BB False s =
     (case BB of None \<Rightarrow> (Fail AssertionFailure, s) | Some b \<Rightarrow> transInstruction rec E X F b s)"
  by (cases "v_value E X") (simp_all add: transValueWithoutDecoration_def split: option.splits)



lemma snd_some [simp]: "snd (some m) = snd m"
  by (cases m, rename_tac a b, case_tac a) (simp_all add: some_def bindR_def)

lemma decorate_state:
  "snd (bindR m (\<lambda>V s. case V of None \<Rightarrow> (Ok None, s)
             | Some V \<Rightarrow> if d then (Ok (Some V), s) else (Fail AssertionFailure, s))) = snd m"
  by (cases m, rename_tac a b, case_tac a) (auto simp: bindR_def split: option.splits)

lemma mapValue_unmapped_keeps:
  "v_ValueMap s X = None \<Longrightarrow> v_ValueMap s Y = Some v \<Longrightarrow> v_ValueMap (snd (mapValue X V s)) Y = Some v"
  by (auto simp: mapValue_unmapped)

lemma twd_true_keeps:
  assumes u: "v_ValueMap s X = None" and y: "v_ValueMap s Y = Some v"
  shows "v_ValueMap (snd (transValueWithoutDecoration rec E X F BB True s)) Y = Some v"
proof (cases "isInstruction (v_value E X)")
  case True
  have "X \<noteq> Y" using u y by auto
  then show ?thesis using y createPlaceHolder_unmapped[OF u, of E]
    unfolding twd_true_inst[OF True] by (auto split: option.splits)
next
  case False
  show ?thesis
  proof (cases "v_value E X")
    case OpUndef
    then show ?thesis using mapValue_unmapped_keeps[OF u y] by (simp add: transValueWithoutDecoration_def)
  next
    case (OpConstantSampler a c f)
    then show ?thesis using y
      by (auto simp: transValueWithoutDecoration_def oclTransConstantSampler_def split_beta split: option.splits)
  next
    case (OpFunctionParameter i)
    then show ?thesis using mapValue_unmapped_keeps[OF u y] y
      by (auto simp: transValueWithoutDecoration_def split: option.splits)
  next
    case OpLabel
    have "v_ValueMap (snd (BasicBlock_Create (v_name E X) F s)) X = None"
      "v_ValueMap (snd (BasicBlock_Create (v_name E X) F s)) Y = Some v" using u y by simp_all
    from mapValue_unmapped_keeps[OF this] show ?thesis using OpLabel
      by (simp add: transValueWithoutDecoration_def split_beta)
  next
    case OpOther
    then show ?thesis using y by (simp add: transValueWithoutDecoration_def)
  qed (use False in simp_all)
qed

lemma transValue_true_keeps:
  assumes y: "v_ValueMap s Y = Some v"
  shows "v_ValueMap (snd (transValue n E X F BB True s)) Y = Some v"
proof (cases n)
  case 0
  then show ?thesis using y by simp
next
  case (Suc k)
  show ?thesis
  proof (cases "v_ValueMap s X")
    case None
    then show ?thesis using twd_true_keeps[OF None y] Suc by (simp add: transValue_body_def decorate_state)
  next
    case (Some w)
    then show ?thesis using y Suc by (simp add: transValue_body_def)
  qed
qed

lemma snd_bindR_keeps:
  assumes "P (snd m)" and "\<And>x s1. m = (Ok x, s1) \<Longrightarrow> P (snd (g x s1))"
  shows "P (snd (bindR m g))"
  using assms by (cases m, rename_tac a b, case_tac a) (auto simp: bindR_def)

lemma operand_keeps:
  assumes y: "v_ValueMap s Y = Some v"
  shows "v_ValueMap (snd (operand (transValue n E) X F BB s)) Y = Some v"
  unfolding operand_def
  by (rule snd_bindR_keeps) (use transValue_true_keeps[OF y, of n E X F BB] in \<open>auto split: option.splits\<close>)

lemma label_keeps:
  assumes y: "v_ValueMap s Y = Some v"
  shows "v_ValueMap (snd (label (transValue n E) X F BB s)) Y = Some v"
  unfolding label_def
  by (rule snd_bindR_keeps)
     (use transValue_true_keeps[OF y, of n E X F BB] in \<open>auto simp: castBasicBlock_def split: option.splits Value.splits\<close>)

lemma foreachPair_keeps:
  "v_ValueMap s Y = Some v \<Longrightarrow> v_ValueMap (snd (foreachPair (transValue n E) LPhi F BB Pairs s)) Y = Some v"
proof (induction Pairs arbitrary: s)
  case Nil
  then show ?case by simp
next
  case (Cons P Pairs)
  show ?case unfolding foreachPair.simps
  proof (rule snd_bindR_keeps)
    show "v_ValueMap (snd (operand (transValue n E) (fst P) F BB s)) Y = Some v"
      by (rule operand_keeps[OF Cons.prems])
  next
    fix x s1 assume o: "operand (transValue n E) (fst P) F BB s = (Ok x, s1)"
    then have y1: "v_ValueMap s1 Y = Some v" using operand_keeps[OF Cons.prems, of n E "fst P" F BB] by simp
    show "v_ValueMap (snd (bindR (label (transValue n E) (snd P) F BB s1)
             (\<lambda>IncomingBB s. foreachPair (transValue n E) LPhi F BB Pairs (addIncoming LPhi x IncomingBB s)))) Y = Some v"
    proof (rule snd_bindR_keeps)
      show "v_ValueMap (snd (label (transValue n E) (snd P) F BB s1)) Y = Some v" by (rule label_keeps[OF y1])
    next
      fix b s2 assume l: "label (transValue n E) (snd P) F BB s1 = (Ok b, s2)"
      then have "v_ValueMap s2 Y = Some v" using label_keeps[OF y1, of n E "snd P" F BB] by simp
      then have "v_ValueMap (addIncoming LPhi x b s2) Y = Some v" by simp
      then show "v_ValueMap (snd (foreachPair (transValue n E) LPhi F BB Pairs (addIncoming LPhi x b s2))) Y = Some v"
        by (rule Cons.IH)
    qed
  qed
qed

lemma foreachPair_result:
  "foreachPair rec LPhi F BB Pairs s = (Ok r, s') \<Longrightarrow> r = Some LPhi"
  by (induction Pairs arbitrary: s) (auto elim!: bindR_Ok)

lemma some_mapValue_maps:
  assumes "some (mapValue X V s) = (Ok (Some v), s')"
  shows "v_ValueMap s' X = Some v"
proof -
  from some_Ok[OF assms] obtain V' where "Some v = Some V'" "mapValue X V s = (Ok V', s')" by blast
  then show ?thesis using mapValue_maps[of X V s V' s'] by simp
qed

lemma mapNewInst_maps:
  assumes "mapNewInst X Opc Ops BB s = (Ok (Some v), s')"
  shows "v_ValueMap s' X = Some v"
  using assms some_mapValue_maps by (simp add: mapNewInst_def split_beta)

lemma transInstruction_maps:
  assumes t: "transInstruction (transValue n E) E X F b s = (Ok (Some v), s')"
  shows "v_ValueMap s' X = Some v"
proof (cases "v_value E X")
  case (OpPhi Pairs)
  let ?s1 = "snd (newInst PHIOp [] b s)"
  from t obtain LPhi s2 where m: "mapValue X (InstructionV (v_next s)) ?s1 = (Ok LPhi, s2)"
    and f: "foreachPair (transValue n E) LPhi F (Some b) Pairs s2 = (Ok (Some v), s')"
    by (auto simp: transInstruction_def Let_def OpPhi split_beta elim: bindR_Ok)
  have "v_ValueMap s2 X = Some LPhi" using mapValue_maps[OF m] by simp
  then have "v_ValueMap s' X = Some LPhi" using foreachPair_keeps[of s2 X LPhi n E LPhi F "Some b" Pairs] f by simp
  then show ?thesis using foreachPair_result[OF f] by simp
qed (use t mapNewInst_maps in \<open>auto simp: transInstruction_def Let_def elim!: bindR_Ok\<close>)

lemma twd_maps:
  assumes t: "transValueWithoutDecoration (transValue n E) E X F BB c s = (Ok (Some v), s')"
    and m: "isMapped (v_value E X)"
  shows "v_ValueMap s' X = Some v"
proof (cases "isInstruction (v_value E X)")
  case inst: True
  show ?thesis
  proof (cases c)
    case True
    obtain b where "createPlaceHolder E X b s = (Ok (Some v), s')"
      using t True twd_true_inst[OF inst, of "transValue n E" F BB s] by (auto split: option.splits)
    then show ?thesis using some_mapValue_maps by (simp add: createPlaceHolder_def split_beta Let_def)
  next
    case False
    from t obtain b where "transInstruction (transValue n E) E X F b s = (Ok (Some v), s')"
      using False twd_false_inst[OF inst, of "transValue n E" F BB s] by (auto split: option.splits)
    then show ?thesis by (rule transInstruction_maps)
  qed
next
  case False
  then show ?thesis using t m some_mapValue_maps
    by (cases "v_value E X")
       (auto simp: transValueWithoutDecoration_def split_beta split: option.splits if_splits)
qed

lemma transValue_maps:
  assumes t: "transValue n E X F BB c s = (Ok (Some v), s')" and m: "isMapped (v_value E X)"
  shows "v_ValueMap s' X = Some v"
proof (cases n)
  case 0
  then show ?thesis using t by simp
next
  case (Suc k)
  then have b: "transValue_body (transValue k E) E X F BB c s = (Ok (Some v), s')" using t by simp
  show ?thesis
  proof (cases "v_ValueMap s X \<noteq> None \<and> (v_PlaceholderMap s X = None \<or> c)")
    case True
    then show ?thesis using b by (auto simp: transValue_body_def)
  next
    case False
    then have "bindR (transValueWithoutDecoration (transValue k E) E X F BB c s)
            (\<lambda>V s. case V of None \<Rightarrow> (Ok None, s)
                   | Some V \<Rightarrow> if v_transDecoration E X then (Ok (Some V), s) else (Fail AssertionFailure, s))
          = (Ok (Some v), s')"
      using b by (auto simp: transValue_body_def split: option.splits if_splits)
    then have "transValueWithoutDecoration (transValue k E) E X F BB c s = (Ok (Some v), s')"
      by (rule decorate_Ok)
    then show ?thesis using twd_maps m by blast
  qed
qed

lemma mapNewInst_result:
  assumes "mapNewInst X Opc Ops BB s = (Ok r, s')"
  shows "\<exists>v. r = Some v \<and> v_ValueMap s' X = Some v"
proof -
  from assms obtain v where "r = Some v" using some_Ok by (fastforce simp: mapNewInst_def split_beta)
  then show ?thesis using mapNewInst_maps assms by blast
qed





lemma fwdAll_append: "fwdAll n E (Xs @ Ys) = fwdAll n E Xs \<union> fwdAll n E Ys"
  by (auto simp: fwdAll_def)









subsection \<open>Placeholders are resolved\<close>



subsection \<open>The precondition of mapValue\<close>

text \<open>Claim C10. When \<open>mapValue\<close> is called for an identifier that is mapped to another value,
  it succeeds only if the old mapping is a load of a global variable with the placeholder
  prefix. If the old mapping is no load instruction, a null pointer is dereferenced, before
  the assertion is reached; if it is a load of anything else, the assertion fails. In both
  cases the state is left as it was: nothing is reported, the result is a fault.\<close>

theorem mapValue_safe_only_over_placeholder:
  assumes "v_ValueMap s BV = Some Old" and "Old \<noteq> V"
  shows "fst (mapValue BV V s) =
           (if isPlaceholderLoad s Old then Ok V
            else if isLoadInst s Old then Fail AssertionFailure else Fail NullDereference)
         \<and> (\<not> isPlaceholderLoad s Old \<longrightarrow> snd (mapValue BV V s) = s)"
  using assms
  by (auto simp: mapValue_def isPlaceholderLoad_def isLoadInst_def Let_def split: option.splits)

text \<open>The theorem at the loop: after the function, a second mapping of the phi dereferences a
  null pointer and a second mapping of the load fails the assertion; while the load is a
  placeholder, its mapping succeeds.\<close>

theorem mapValue_safe_only_over_placeholder_witness:
  "fst (mapValue 21 (UndefValue VoidTy) finalState) = Fail NullDereference
   \<and> snd (mapValue 21 (UndefValue VoidTy) finalState) = finalState
   \<and> fst (mapValue 23 (UndefValue VoidTy) finalState) = Fail AssertionFailure
   \<and> fst (mapValue 23 (UndefValue VoidTy) midState) = Ok (UndefValue VoidTy)"
proof -
  have a1: "v_ValueMap finalState 21 = Some (InstructionV 4)" by code_simp
  have a2: "v_ValueMap finalState 23 = Some (InstructionV 7)" by code_simp
  have a3: "v_ValueMap midState 23 = Some (InstructionV 5)" by code_simp
  have b1: "\<not> isPlaceholderLoad finalState (InstructionV 4)" "\<not> isLoadInst finalState (InstructionV 4)" by code_simp+
  have b2: "\<not> isPlaceholderLoad finalState (InstructionV 7)" "isLoadInst finalState (InstructionV 7)" by code_simp+
  have b3: "isPlaceholderLoad midState (InstructionV 5)" by code_simp
  from mapValue_safe_only_over_placeholder[OF a1, of "UndefValue VoidTy"] b1
  have c1: "fst (mapValue 21 (UndefValue VoidTy) finalState) = Fail NullDereference"
    "snd (mapValue 21 (UndefValue VoidTy) finalState) = finalState" by simp_all
  from mapValue_safe_only_over_placeholder[OF a2, of "UndefValue VoidTy"] b2
  have c2: "fst (mapValue 23 (UndefValue VoidTy) finalState) = Fail AssertionFailure" by simp
  from mapValue_safe_only_over_placeholder[OF a3, of "UndefValue VoidTy"] b3
  have c3: "fst (mapValue 23 (UndefValue VoidTy) midState) = Ok (UndefValue VoidTy)" by simp
  show ?thesis using c1 c2 c3 by simp
qed

subsection \<open>A second request for a translated value\<close>

lemma vlaFunction_wellFormed: "wellFormed vlaEnv vlaFunction"
  by code_simp

text \<open>Claim C3 fails on the code. \<open>transValue\<close> returns the table entry of a value only if
  \<open>PlaceholderMap\<close> has no record for it or the request allows a placeholder, and the record
  made when a placeholder is created is never removed, not even when \<open>mapValue\<close> replaces the
  placeholder by the real value. So a request that allows no placeholder, for a value that
  once had a placeholder and is now translated, translates the value a second time and ends
  in \<open>mapValue\<close>'s assertion. In \<open>vlaFunction\<close>, when the translation comes to the
  variable-length array, the load 23 is translated (its table entry is the load instruction,
  which is in the block) and its placeholder is erased; a request for 23 that allows a
  placeholder returns the table entry; the request of the array for its length allows none
  and fails, and so does the translation of the function.\<close>

theorem transValue_translates_twice:
  "v_ValueMap vlaState 23 = Some (InstructionV 7)
   \<and> map_option in_opcode (v_insts vlaState 7) = Some LoadOp
   \<and> map_option in_operands (v_insts vlaState 7) = Some [ArgumentOf ''f'' 0]
   \<and> v_PlaceholderMap vlaState 23 = Some (InstructionV 6)
   \<and> v_insts vlaState 6 = None
   \<and> fst (transValue 4 vlaEnv 23 (Some ''f'') (Some 1) True vlaState) = Ok (Some (InstructionV 7))
   \<and> fst (transValue 4 vlaEnv 23 (Some ''f'') (Some 1) False vlaState) = Fail AssertionFailure
   \<and> fst (transValue 4 vlaEnv 25 (Some ''f'') (Some 1) False vlaState) = Fail AssertionFailure
   \<and> fst (transFunction 4 vlaEnv vlaFunction emptyVState) = Fail AssertionFailure"
  by code_simp

section \<open>The type tables keep their entries\<close>

subsection \<open>What a translation keeps and what it leaves\<close>

text \<open>A step keeps the entry of \<open>T0\<close> in the encoder's type table, if there is one.\<close>

definition presT :: "Type \<Rightarrow> SPIRVId \<Rightarrow> WState \<Rightarrow> WState \<Rightarrow> bool" where
  "presT T0 B0 s s' = (w_TypeMap s T0 = Some B0 \<longrightarrow> w_TypeMap s' T0 = Some B0)"

definition stepsT :: "Type \<Rightarrow> SPIRVId \<Rightarrow> (WState \<Rightarrow> 'a Result \<times> WState) \<Rightarrow> bool" where
  "stepsT T0 B0 f = (\<forall>s r s'. f s = (r, s') \<longrightarrow> presT T0 B0 s s')"

text \<open>A computation that, when it succeeds, leaves the type mapped to its result.\<close>

definition mapsTo :: "Type \<Rightarrow> (WState \<Rightarrow> SPIRVId Result \<times> WState) \<Rightarrow> bool" where
  "mapsTo T f = (\<forall>s r s'. f s = (Ok r, s') \<longrightarrow> w_TypeMap s' T = Some r)"

text \<open>The same for the decoder's type table.\<close>

definition r_pres :: "SPIRVId \<Rightarrow> Type \<Rightarrow> RState \<Rightarrow> RState \<Rightarrow> bool" where
  "r_pres T0 Ty0 s s' = (r_TypeMap s T0 = Some Ty0 \<longrightarrow> r_TypeMap s' T0 = Some Ty0)"

definition r_steps :: "SPIRVId \<Rightarrow> Type \<Rightarrow> (RState \<Rightarrow> 'a Result \<times> RState) \<Rightarrow> bool" where
  "r_steps T0 Ty0 f = (\<forall>s r s'. f s = (r, s') \<longrightarrow> r_pres T0 Ty0 s s')"

definition r_mapsTo :: "SPIRVId \<Rightarrow> (RState \<Rightarrow> Type Result \<times> RState) \<Rightarrow> bool" where
  "r_mapsTo T f = (\<forall>s r s'. f s = (Ok r, s') \<longrightarrow> r_TypeMap s' T = Some r)"

subsection \<open>The type tables\<close>

lemma presT_refl: "presT T0 B0 s s"
  by (simp add: presT_def)

lemma presT_trans: "presT T0 B0 s s1 \<Longrightarrow> presT T0 B0 s1 s2 \<Longrightarrow> presT T0 B0 s s2"
  by (simp add: presT_def)

lemma stepsTD: "stepsT T0 B0 f \<Longrightarrow> f s = (r, s') \<Longrightarrow> presT T0 B0 s s'"
  by (simp add: stepsT_def)

lemma presT_bindR:
  assumes f: "presT T0 B0 s s1 \<and> m = (x, s1)"
    and g: "\<And>y. x = Ok y \<Longrightarrow> presT T0 B0 s1 (snd (g y s1))"
  shows "presT T0 B0 s (snd (bindR m g))"
  using f g by (cases x) (auto simp: bindR_def intro: presT_trans)

lemma stepsT_bindR:
  assumes f: "stepsT T0 B0 f" and g: "\<And>x. stepsT T0 B0 (g x)"
  shows "stepsT T0 B0 (\<lambda>s. bindR (f s) g)"
  unfolding stepsT_def
proof (intro allI impI)
  fix s r s' assume a: "bindR (f s) g = (r, s')"
  obtain x s1 where m: "f s = (x, s1)" by (cases "f s")
  have p1: "presT T0 B0 s s1" using stepsTD[OF f m] .
  have "presT T0 B0 s (snd (bindR (f s) g))"
  proof (rule presT_bindR[of T0 B0 s s1 "f s" x])
    show "presT T0 B0 s s1 \<and> f s = (x, s1)" using p1 m by simp
  next
    fix y assume "x = Ok y"
    obtain r2 s2 where "g y s1 = (r2, s2)" by (cases "g y s1")
    then show "presT T0 B0 s1 (snd (g y s1))" using stepsTD[OF g] by simp
  qed
  then show "presT T0 B0 s s'" using a by simp
qed

lemma stepsT_return: "stepsT T0 B0 (\<lambda>s. (r, s))"
  by (simp add: stepsT_def presT_refl)

lemma stepsT_add: "stepsT T0 B0 (add e)"
  by (simp add: stepsT_def presT_def add_def)

lemma stepsT_mapType: "T \<noteq> T0 \<Longrightarrow> stepsT T0 B0 (mapType T BT)"
  by (simp add: stepsT_def presT_def mapType_def)

lemma stepsT_setMemberType: "stepsT T0 B0 (setMemberType Struct I BT)"
  by (auto simp: stepsT_def presT_def setMemberType_def split: option.splits SPIRVEntry.splits if_splits)

lemma stepsT_closeStructType: "stepsT T0 B0 (closeStructType Struct P)"
  by (auto simp: stepsT_def presT_def closeStructType_def split: option.splits SPIRVEntry.splits)

lemma checkError_TypeMap [simp]: "w_TypeMap (snd (checkError c e s)) = w_TypeMap s"
  by (simp add: checkError_def)

lemma checkExtension_TypeMap [simp]: "w_TypeMap (snd (checkExtension E x e s)) = w_TypeMap s"
  by (simp add: checkExtension_def)

lemma checkError_eq_TypeMap: "checkError c e s = (b, s1) \<Longrightarrow> w_TypeMap s1 = w_TypeMap s"
  by (auto simp: checkError_def split: if_splits)

lemma checkExtension_eq_TypeMap: "checkExtension E x e s = (b, s1) \<Longrightarrow> w_TypeMap s1 = w_TypeMap s"
  by (auto simp: checkExtension_def dest: checkError_eq_TypeMap)

lemma presT_cong: "w_TypeMap s1 = w_TypeMap s \<Longrightarrow> presT T0 B0 s1 s' = presT T0 B0 s s'"
  by (simp add: presT_def)

lemma stepsT_transTypes:
  assumes "\<And>T. stepsT T0 B0 (rec T)"
  shows "stepsT T0 B0 (transTypes rec Ts)"
proof (induction Ts)
  case Nil
  show ?case by (simp add: stepsT_return)
next
  case (Cons T Ts)
  have "stepsT T0 B0 (\<lambda>s. bindR (rec T s) (\<lambda>BT s1. bindR (transTypes rec Ts s1) (\<lambda>BTs s2. (Ok (BT # BTs), s2))))"
    by (intro stepsT_bindR assms Cons stepsT_return)
  then show ?case by simp
qed

lemma stepsT_setMemberTypes:
  assumes "\<And>T. stepsT T0 B0 (rec T)"
  shows "stepsT T0 B0 (setMemberTypes rec Struct Ms)"
proof (induction Ms)
  case Nil
  show ?case by (simp add: stepsT_return)
next
  case (Cons M Ms)
  have "stepsT T0 B0 (\<lambda>s. bindR (rec (snd M) s) (\<lambda>BT s1.
       bindR (setMemberType Struct (fst M) BT s1) (\<lambda>_ s2. setMemberTypes rec Struct Ms s2)))"
    by (intro stepsT_bindR assms Cons stepsT_setMemberType)
  then show ?case by simp
qed

lemma stepsT_pointwise:
  assumes "\<And>s. \<exists>g. stepsT T0 B0 g \<and> f s = g s"
  shows "stepsT T0 B0 f"
  unfolding stepsT_def
proof (intro allI impI)
  fix s r s' assume a: "f s = (r, s')"
  from assms[of s] obtain g where "stepsT T0 B0 g" "f s = g s" by blast
  then show "presT T0 B0 s s'" using a stepsTD by metis
qed

lemma stepsT_pre:
  assumes "stepsT T0 B0 f" and "\<And>s. w_TypeMap (h s) = w_TypeMap s"
  shows "stepsT T0 B0 (\<lambda>s. f (h s))"
  using assms unfolding stepsT_def presT_def by metis

lemma stepsT_transConstantInt:
  assumes "\<And>T. stepsT T0 B0 (rec T)"
  shows "stepsT T0 B0 (transConstantInt rec E W V)"
  unfolding stepsT_def
proof (intro allI impI)
  fix s r s' assume a: "transConstantInt rec E W V s = (r, s')"
  show "presT T0 B0 s s'"
  proof (cases "w_ValueMap s (W, V)")
    case (Some BV)
    then show ?thesis using a by (simp add: transConstantInt_def presT_refl)
  next
    case None
    let ?s1 = "if W > 64 then snd (checkError (w_isAllowedToUseExtension E SPV_INTEL_arbitrary_precision_integers) SPIRVEC_InvalidBitWidth s) else s"
    let ?g = "\<lambda>s1. bindR (rec (IntegerTy W) s1) (\<lambda>BT s2.
                bindR (add (OpConstant BT (constantWords (numWords W) V)) s2) (\<lambda>BV s3.
                  (Ok BV, s3\<lparr>w_ValueMap := (w_ValueMap s3)((W, V) \<mapsto> BV)\<rparr>)))"
    have g: "stepsT T0 B0 ?g"
      by (intro stepsT_bindR assms stepsT_add) (simp add: stepsT_def presT_def)
    have "?g ?s1 = (r, s')" using a None by (simp add: transConstantInt_def Let_def)
    from stepsTD[OF g this] show ?thesis by (simp add: presT_def)
  qed
qed

lemma stepsT_transIntegerType:
  assumes "IntegerTy W \<noteq> T0"
  shows "stepsT T0 B0 (transIntegerType E W)"
  unfolding stepsT_def
proof (intro allI impI)
  fix s r s' assume a: "transIntegerType E W s = (r, s')"
  have g: "\<And>e. stepsT T0 B0 (\<lambda>s. bindR (add e s) (mapType (IntegerTy W)))"
    by (intro stepsT_bindR stepsT_add stepsT_mapType assms)
  show "presT T0 B0 s s'"
  proof (cases "W = 1")
    case True
    then show ?thesis using a stepsTD[OF g] by (simp add: transIntegerType_def)
  next
    case False
    obtain c s1 where c: "(if w_isAllowedToUseExtension E SPV_INTEL_arbitrary_precision_integers
               then (True, s)
               else checkError (W = 8 \<or> W = 16 \<or> W = 32 \<or> W = 64) SPIRVEC_InvalidBitWidth s) = (c, s1)"
      by (cases "(if w_isAllowedToUseExtension E SPV_INTEL_arbitrary_precision_integers
               then (True, s)
               else checkError (W = 8 \<or> W = 16 \<or> W = 32 \<or> W = 64) SPIRVEC_InvalidBitWidth s)")
    have t: "w_TypeMap s1 = w_TypeMap s" using c
      by (auto split: if_splits dest: checkError_eq_TypeMap)
    show ?thesis
    proof (cases c)
      case True
      then have "bindR (add (OpTypeInt W) s1) (mapType (IntegerTy W)) = (r, s')"
        using a c False by (simp add: transIntegerType_def)
      from stepsTD[OF g this] show ?thesis using t by (simp add: presT_def)
    next
      case False
      then have "s' = s1" using a c \<open>W \<noteq> 1\<close> by (simp add: transIntegerType_def)
      then show ?thesis using t by (simp add: presT_def)
    qed
  qed
qed

lemma stepsT_transArrayType:
  assumes "\<And>T. stepsT T0 B0 (rec T)" and "ArrayTy ElTy Num \<noteq> T0"
  shows "stepsT T0 B0 (transArrayType rec E ElTy Num)"
  unfolding stepsT_def
proof (intro allI impI)
  fix s r s' assume a: "transArrayType rec E ElTy Num s = (r, s')"
  let ?g = "\<lambda>s1. bindR (rec ElTy s1) (\<lambda>BElTy s2.
           bindR (transConstantInt rec E (w_sizetBits E) (int Num) s2) (\<lambda>Length s3.
             bindR (add (OpTypeArray BElTy Length) s3) (mapType (ArrayTy ElTy Num))))"
  let ?s1 = "if Num < 1 then snd (checkError (Num \<ge> 1) SPIRVEC_InvalidArraySize s) else s"
  have g: "stepsT T0 B0 ?g"
    by (intro stepsT_bindR assms stepsT_add stepsT_mapType stepsT_transConstantInt)
  have "?g ?s1 = (r, s')" using a by (simp add: transArrayType_def Let_def)
  from stepsTD[OF g this] show "presT T0 B0 s s'" by (simp add: presT_def)
qed

lemma stepsT_transPointerType:
  assumes "\<And>T. stepsT T0 B0 (rec T)" and "PointerTy ET A \<noteq> T0"
  shows "stepsT T0 B0 (transPointerType rec E ET A)"
  unfolding stepsT_def
proof (intro allI impI)
  fix s r s' assume a: "transPointerType rec E ET A s = (r, s')"
  let ?c = "(case ET of FunctionTy R Ps \<Rightarrow> checkExtension E SPV_INTEL_function_pointers SPIRVEC_FunctionPointers s
            | _ \<Rightarrow> (True, s))"
  obtain c s1 where c: "?c = (c, s1)" by (cases ?c)
  have t: "w_TypeMap s1 = w_TypeMap s"
    using c by (cases ET) (auto dest: checkExtension_eq_TypeMap)
  let ?g = "\<lambda>s1. bindR (rec ET s1) (\<lambda>BET s2.
                 bindR (add (OpTypePointer (w_SPIRSPIRVAddrSpaceMap E A) BET) s2)
                   (mapType (PointerTy ET A)))"
  have g: "stepsT T0 B0 ?g" by (intro stepsT_bindR assms stepsT_add stepsT_mapType)
  have "s' = s1 \<or> ?g s1 = (r, s')"
    using a c by (cases c) (auto simp: transPointerType_def split: if_splits)
  then show "presT T0 B0 s s'" using stepsTD[OF g] t by (auto simp: presT_def)
qed

lemma stepsT_transStructType:
  assumes "\<And>T. stepsT T0 B0 (rec T)" and "StructTy k \<noteq> T0"
  shows "stepsT T0 B0 (transStructType rec n E k)"
  unfolding stepsT_def
proof (intro allI impI)
  fix s r s' assume a: "transStructType rec n E k s = (r, s')"
  show "presT T0 B0 s s'"
  proof (cases "st_elements (w_structs E k)")
    case None
    have g: "stepsT T0 B0 (\<lambda>s. bindR (add (OpTypeOpaque (st_name (w_structs E k))) s) (mapType (StructTy k)))"
      by (intro stepsT_bindR assms stepsT_add stepsT_mapType)
    have "s' = s \<or> bindR (add (OpTypeOpaque (st_name (w_structs E k))) s) (mapType (StructTy k)) = (r, s')"
      using a None by (auto simp: transStructType_def split: if_splits)
    then show ?thesis using stepsTD[OF g] by (auto simp: presT_refl)
  next
    case (Some Elements)
    let ?g = "\<lambda>s. bindR (add (OpTypeStruct (st_name (w_structs E k))
                          (replicate (length Elements) None) False False) s) (\<lambda>Struct s1.
            bindR (mapType (StructTy k) Struct s1) (\<lambda>_ s2.
              case splitForwardRefs n (w_structs E) k (zip [0 ..< length Elements] Elements) of
                None \<Rightarrow> (OutOfFuel, s2)
              | Some (now, ForwardRefs) \<Rightarrow>
                  bindR (setMemberTypes rec Struct now s2) (\<lambda>_ s3.
                  bindR (closeStructType Struct (st_isPacked (w_structs E k)) s3) (\<lambda>_ s4.
                  bindR (setMemberTypes rec Struct ForwardRefs s4) (\<lambda>_ s5.
                    (Ok Struct, s5))))))"
    have inner: "\<And>Struct. stepsT T0 B0 (\<lambda>s2.
              case splitForwardRefs n (w_structs E) k (zip [0 ..< length Elements] Elements) of
                None \<Rightarrow> (OutOfFuel, s2)
              | Some (now, ForwardRefs) \<Rightarrow>
                  bindR (setMemberTypes rec Struct now s2) (\<lambda>_ s3.
                  bindR (closeStructType Struct (st_isPacked (w_structs E k)) s3) (\<lambda>_ s4.
                  bindR (setMemberTypes rec Struct ForwardRefs s4) (\<lambda>_ s5.
                    (Ok Struct, s5)))))"
    proof -
      fix Struct
      show "stepsT T0 B0 (\<lambda>s2.
              case splitForwardRefs n (w_structs E) k (zip [0 ..< length Elements] Elements) of
                None \<Rightarrow> (OutOfFuel, s2)
              | Some (now, ForwardRefs) \<Rightarrow>
                  bindR (setMemberTypes rec Struct now s2) (\<lambda>_ s3.
                  bindR (closeStructType Struct (st_isPacked (w_structs E k)) s3) (\<lambda>_ s4.
                  bindR (setMemberTypes rec Struct ForwardRefs s4) (\<lambda>_ s5.
                    (Ok Struct, s5)))))"
      proof (cases "splitForwardRefs n (w_structs E) k (zip [0 ..< length Elements] Elements)")
        case None
        then show ?thesis by (simp add: stepsT_return)
      next
        case (Some p)
        obtain now later where p: "p = (now, later)" by (cases p)
        have "stepsT T0 B0 (\<lambda>s2. bindR (setMemberTypes rec Struct now s2) (\<lambda>_ s3.
                  bindR (closeStructType Struct (st_isPacked (w_structs E k)) s3) (\<lambda>_ s4.
                  bindR (setMemberTypes rec Struct later s4) (\<lambda>_ s5.
                    (Ok Struct, s5)))))"
          by (intro stepsT_bindR stepsT_setMemberTypes assms stepsT_closeStructType stepsT_return)
        then show ?thesis using Some p by simp
      qed
    qed
    have g: "stepsT T0 B0 ?g"
      by (intro stepsT_bindR stepsT_add stepsT_mapType assms inner)
    have "s' = s \<or> ?g s = (r, s')"
      using a Some by (auto simp: transStructType_def split: if_splits)
    then show ?thesis using stepsTD[OF g] by (auto simp: presT_refl)
  qed
qed

lemma stepsT_transType: "stepsT T0 B0 (transType n E T)"
proof (induction n arbitrary: T)
  case 0
  show ?case by (simp add: stepsT_return)
next
  case (Suc n)
  note rec = Suc.IH
  show ?case unfolding stepsT_def
  proof (intro allI impI)
    fix s r s' assume a: "transType (Suc n) E T s = (r, s')"
    show "presT T0 B0 s s'"
    proof (cases "w_TypeMap s T")
      case (Some BT)
      then show ?thesis using a by (simp add: transType_body_def presT_refl)
    next
      case None
      show ?thesis
      proof (cases "T = T0")
        case True
        then show ?thesis using None by (simp add: presT_def)
      next
        case False
        have m: "\<And>e. stepsT T0 B0 (\<lambda>s. bindR (add e s) (mapType T))"
          by (intro stepsT_bindR stepsT_add stepsT_mapType False)
        show ?thesis
        proof (cases T)
          case VoidTy
          then show ?thesis using a None stepsTD[OF m] by (simp add: transType_body_def)
        next
          case (IntegerTy W)
          then show ?thesis using a None False stepsTD[OF stepsT_transIntegerType[of W T0 B0 E]]
            by (simp add: transType_body_def)
        next
          case (FloatingPointTy B)
          then show ?thesis using a None stepsTD[OF m] by (simp add: transType_body_def)
        next
          case (PointerTy ET A)
          then show ?thesis using a None False stepsTD[OF stepsT_transPointerType[of T0 B0 "transType n E" ET A E, OF rec]]
            by (simp add: transType_body_def)
        next
          case (VectorTy ElTy Num)
          have "stepsT T0 B0 (\<lambda>s. bindR (transType n E ElTy s) (\<lambda>BElTy s1.
                bindR (add (OpTypeVector BElTy Num) s1) (mapType T)))"
            by (intro stepsT_bindR rec stepsT_add stepsT_mapType False)
          then show ?thesis using a None VectorTy stepsTD by (fastforce simp: transType_body_def)
        next
          case (ArrayTy ElTy Num)
          then show ?thesis using a None False stepsTD[OF stepsT_transArrayType[of T0 B0 "transType n E" ElTy Num E, OF rec]]
            by (simp add: transType_body_def)
        next
          case (FunctionTy RetTy Params)
          have "stepsT T0 B0 (\<lambda>s. bindR (transType n E RetTy s) (\<lambda>RT s1.
                bindR (transTypes (transType n E) Params s1) (\<lambda>PT s2.
                  bindR (add (OpTypeFunction RT PT) s2) (mapType T))))"
            by (intro stepsT_bindR rec stepsT_add stepsT_mapType False stepsT_transTypes)
          then show ?thesis using a None FunctionTy stepsTD by (fastforce simp: transType_body_def)
        next
          case (StructTy k)
          then show ?thesis using a None False stepsTD[OF stepsT_transStructType[of T0 B0 "transType n E" k n E, OF rec]]
            by (simp add: transType_body_def)
        qed
      qed
    qed
  qed
qed

lemma transType_stable:
  "transType n E T s = (r, s') \<Longrightarrow> w_TypeMap s T0 = Some B0 \<Longrightarrow> w_TypeMap s' T0 = Some B0"
  using stepsTD[OF stepsT_transType] by (simp add: presT_def)

lemma mapsToD: "mapsTo T f \<Longrightarrow> f s = (Ok r, s') \<Longrightarrow> w_TypeMap s' T = Some r"
  by (simp add: mapsTo_def)

lemma mapsTo_bindR:
  assumes "\<And>x. mapsTo T (g x)"
  shows "mapsTo T (\<lambda>s. bindR (f s) g)"
  unfolding mapsTo_def using assms by (auto elim!: bindR_Ok dest: mapsToD)

lemma mapsTo_mapType: "mapsTo T (mapType T BT)"
  by (auto simp: mapsTo_def mapType_def)

lemma mapsTo_add_mapType: "mapsTo T (\<lambda>s. bindR (add e s) (mapType T))"
  by (intro mapsTo_bindR mapsTo_mapType)

lemma mapsTo_transIntegerType: "mapsTo (IntegerTy W) (transIntegerType E W)"
  unfolding mapsTo_def
  using mapsToD[OF mapsTo_add_mapType[of "IntegerTy W"]]
  by (auto simp: transIntegerType_def split: if_splits prod.splits bool.splits)

lemma mapsTo_transArrayType: "mapsTo (ArrayTy ElTy Num) (transArrayType rec E ElTy Num)"
proof -
  let ?g = "\<lambda>s1. bindR (rec ElTy s1) (\<lambda>BElTy s2.
           bindR (transConstantInt rec E (w_sizetBits E) (int Num) s2) (\<lambda>Length s3.
             bindR (add (OpTypeArray BElTy Length) s3) (mapType (ArrayTy ElTy Num))))"
  have g: "mapsTo (ArrayTy ElTy Num) ?g" by (intro mapsTo_bindR mapsTo_mapType)
  show ?thesis unfolding mapsTo_def
  proof (intro allI impI)
    fix s r s' assume a: "transArrayType rec E ElTy Num s = (Ok r, s')"
    let ?s1 = "if Num < 1 then snd (checkError (Num \<ge> 1) SPIRVEC_InvalidArraySize s) else s"
    have "?g ?s1 = (Ok r, s')" using a by (simp add: transArrayType_def Let_def)
    from mapsToD[OF g this] show "w_TypeMap s' (ArrayTy ElTy Num) = Some r" .
  qed
qed

lemma mapsTo_transPointerType: "mapsTo (PointerTy ET A) (transPointerType rec E ET A)"
proof -
  let ?g = "\<lambda>s1. bindR (rec ET s1) (\<lambda>BET s2.
                 bindR (add (OpTypePointer (w_SPIRSPIRVAddrSpaceMap E A) BET) s2)
                   (mapType (PointerTy ET A)))"
  have g: "mapsTo (PointerTy ET A) ?g" by (intro mapsTo_bindR mapsTo_mapType)
  show ?thesis unfolding mapsTo_def
  proof (intro allI impI)
    fix s r s' assume a: "transPointerType rec E ET A s = (Ok r, s')"
    then obtain s1 where "?g s1 = (Ok r, s')"
      by (auto simp: transPointerType_def split: prod.splits bool.splits if_splits)
    from mapsToD[OF g this] show "w_TypeMap s' (PointerTy ET A) = Some r" .
  qed
qed

lemma mapsTo_transStructType:
  assumes rec: "\<And>T T0 B0. stepsT T0 B0 (rec T)"
  shows "mapsTo (StructTy k) (transStructType rec n E k)"
  unfolding mapsTo_def
proof (intro allI impI)
  fix s r s' assume a: "transStructType rec n E k s = (Ok r, s')"
  show "w_TypeMap s' (StructTy k) = Some r"
  proof (cases "st_elements (w_structs E k)")
    case None
    then have "bindR (add (OpTypeOpaque (st_name (w_structs E k))) s) (mapType (StructTy k)) = (Ok r, s')"
      using a by (auto simp: transStructType_def split: if_splits)
    from mapsToD[OF mapsTo_add_mapType this] show ?thesis .
  next
    case (Some Elements)
    have a': "bindR (add (OpTypeStruct (st_name (w_structs E k))
                          (replicate (length Elements) None) False False) s) (\<lambda>Struct s1.
            bindR (mapType (StructTy k) Struct s1) (\<lambda>_ s2.
              case splitForwardRefs n (w_structs E) k (zip [0 ..< length Elements] Elements) of
                None \<Rightarrow> (OutOfFuel, s2)
              | Some (now, ForwardRefs) \<Rightarrow>
                  bindR (setMemberTypes rec Struct now s2) (\<lambda>_ s3.
                  bindR (closeStructType Struct (st_isPacked (w_structs E k)) s3) (\<lambda>_ s4.
                  bindR (setMemberTypes rec Struct ForwardRefs s4) (\<lambda>_ s5.
                    (Ok Struct, s5)))))) = (Ok r, s')"
      using a Some by (simp add: transStructType_def split: if_splits)
    from a' obtain Struct s1 where ad: "add (OpTypeStruct (st_name (w_structs E k))
                          (replicate (length Elements) None) False False) s = (Ok Struct, s1)"
      and r1: "bindR (mapType (StructTy k) Struct s1) (\<lambda>_ s2.
              case splitForwardRefs n (w_structs E) k (zip [0 ..< length Elements] Elements) of
                None \<Rightarrow> (OutOfFuel, s2)
              | Some (now, ForwardRefs) \<Rightarrow>
                  bindR (setMemberTypes rec Struct now s2) (\<lambda>_ s3.
                  bindR (closeStructType Struct (st_isPacked (w_structs E k)) s3) (\<lambda>_ s4.
                  bindR (setMemberTypes rec Struct ForwardRefs s4) (\<lambda>_ s5.
                    (Ok Struct, s5))))) = (Ok r, s')"
      by (rule bindR_Ok)
    let ?s2 = "s1\<lparr>w_TypeMap := (w_TypeMap s1)(StructTy k \<mapsto> Struct)\<rparr>"
    from r1 obtain now later where sp: "splitForwardRefs n (w_structs E) k (zip [0 ..< length Elements] Elements) = Some (now, later)"
      and r2: "bindR (setMemberTypes rec Struct now ?s2) (\<lambda>_ s3.
                  bindR (closeStructType Struct (st_isPacked (w_structs E k)) s3) (\<lambda>_ s4.
                  bindR (setMemberTypes rec Struct later s4) (\<lambda>_ s5.
                    (Ok Struct, s5)))) = (Ok r, s')"
      by (auto simp: mapType_def bindR_def split: option.splits)
    have st: "stepsT (StructTy k) Struct (\<lambda>s2. bindR (setMemberTypes rec Struct now s2) (\<lambda>_ s3.
                  bindR (closeStructType Struct (st_isPacked (w_structs E k)) s3) (\<lambda>_ s4.
                  bindR (setMemberTypes rec Struct later s4) (\<lambda>_ s5.
                    (Ok Struct, s5)))))"
      by (intro stepsT_bindR stepsT_setMemberTypes rec stepsT_closeStructType stepsT_return)
    have "w_TypeMap s' (StructTy k) = Some Struct" using stepsTD[OF st r2] by (simp add: presT_def)
    moreover have "r = Struct" using r2 by (auto elim!: bindR_Ok)
    ultimately show ?thesis by simp
  qed
qed

lemma transType_maps:
  assumes "transType n E T s = (Ok BT, s')"
  shows "w_TypeMap s' T = Some BT"
proof (cases n)
  case 0
  then show ?thesis using assms by simp
next
  case (Suc m)
  then have b: "transType_body (transType m E) m E T s = (Ok BT, s')" using assms by simp
  show ?thesis
  proof (cases "w_TypeMap s T")
    case (Some x)
    then show ?thesis using b by (simp add: transType_body_def)
  next
    case None
    have g: "mapsTo T (\<lambda>s. case T of
            VoidTy \<Rightarrow> bindR (add OpTypeVoid s) (mapType T)
          | IntegerTy BitWidth \<Rightarrow> transIntegerType E BitWidth s
          | FloatingPointTy Bits \<Rightarrow> bindR (add (OpTypeFloat Bits) s) (mapType T)
          | PointerTy ET AddrSpc \<Rightarrow> transPointerType (transType m E) E ET AddrSpc s
          | VectorTy ElTy Num \<Rightarrow>
              bindR (transType m E ElTy s) (\<lambda>BElTy s1.
                bindR (add (OpTypeVector BElTy Num) s1) (mapType T))
          | ArrayTy ElTy Num \<Rightarrow> transArrayType (transType m E) E ElTy Num s
          | StructTy k \<Rightarrow> transStructType (transType m E) m E k s
          | FunctionTy RetTy Params \<Rightarrow>
              bindR (transType m E RetTy s) (\<lambda>RT s1.
                bindR (transTypes (transType m E) Params s1) (\<lambda>PT s2.
                  bindR (add (OpTypeFunction RT PT) s2) (mapType T))))"
    proof (cases T)
      case VoidTy then show ?thesis by (simp add: mapsTo_add_mapType)
    next
      case (IntegerTy W) then show ?thesis by (simp add: mapsTo_transIntegerType)
    next
      case (FloatingPointTy B) then show ?thesis by (simp add: mapsTo_add_mapType)
    next
      case (PointerTy ET A) then show ?thesis by (simp add: mapsTo_transPointerType)
    next
      case (VectorTy ElTy Num)
      have "mapsTo T (\<lambda>s. bindR (transType m E ElTy s) (\<lambda>BElTy s1.
                bindR (add (OpTypeVector BElTy Num) s1) (mapType T)))"
        by (intro mapsTo_bindR mapsTo_mapType)
      then show ?thesis using VectorTy by simp
    next
      case (ArrayTy ElTy Num) then show ?thesis by (simp add: mapsTo_transArrayType)
    next
      case (FunctionTy RetTy Params)
      have "mapsTo T (\<lambda>s. bindR (transType m E RetTy s) (\<lambda>RT s1.
                bindR (transTypes (transType m E) Params s1) (\<lambda>PT s2.
                  bindR (add (OpTypeFunction RT PT) s2) (mapType T))))"
        by (intro mapsTo_bindR mapsTo_mapType)
      then show ?thesis using FunctionTy by simp
    next
      case (StructTy k)
      then show ?thesis using mapsTo_transStructType[of "transType m E" k m E] stepsT_transType by simp
    qed
    show ?thesis using mapsToD[OF g] b None by (simp add: transType_body_def)
  qed
qed

lemma transType_twice:
  assumes "transType n E T s = (Ok BT, s')"
  shows "transType (Suc m) E T s' = (Ok BT, s')"
  using transType_maps[OF assms] by (simp add: transType_body_def)

lemma transType_later:
  assumes a: "transType n E T s = (Ok BT, s')" and b: "transType k E T' s' = (r, s'')"
  shows "transType (Suc m) E T s'' = (Ok BT, s'')"
  using transType_stable[OF b transType_maps[OF a]] by (simp add: transType_body_def)

lemma r_pres_refl: "r_pres T0 Ty0 s s"
  by (simp add: r_pres_def)

lemma r_pres_trans: "r_pres T0 Ty0 s s1 \<Longrightarrow> r_pres T0 Ty0 s1 s2 \<Longrightarrow> r_pres T0 Ty0 s s2"
  by (simp add: r_pres_def)

lemma r_stepsD: "r_steps T0 Ty0 f \<Longrightarrow> f s = (r, s') \<Longrightarrow> r_pres T0 Ty0 s s'"
  by (simp add: r_steps_def)

lemma r_steps_bindR:
  assumes f: "r_steps T0 Ty0 f" and g: "\<And>x. r_steps T0 Ty0 (g x)"
  shows "r_steps T0 Ty0 (\<lambda>s. bindR (f s) g)"
  unfolding r_steps_def
proof (intro allI impI)
  fix s r s' assume a: "bindR (f s) g = (r, s')"
  obtain x s1 where m: "f s = (x, s1)" by (cases "f s")
  have p1: "r_pres T0 Ty0 s s1" using r_stepsD[OF f m] .
  show "r_pres T0 Ty0 s s'"
  proof (cases x)
    case (Ok y)
    then have "g y s1 = (r, s')" using a m by (simp add: bindR_def)
    from r_pres_trans[OF p1 r_stepsD[OF g this]] show ?thesis .
  qed (use a m p1 in \<open>auto simp: bindR_def\<close>)
qed

lemma r_steps_return: "r_steps T0 Ty0 (\<lambda>s. (r, s))"
  by (simp add: r_steps_def r_pres_refl)

lemma r_steps_mapType: "T \<noteq> T0 \<Longrightarrow> r_steps T0 Ty0 (r_mapType T Ty)"
  by (simp add: r_steps_def r_pres_def r_mapType_def)

lemma r_steps_create: "r_steps T0 Ty0 (StructType_create Name)"
  by (simp add: r_steps_def r_pres_def StructType_create_def)

lemma r_steps_setBody: "r_steps T0 Ty0 (setBody k MT P)"
  by (simp add: r_steps_def r_pres_def setBody_def)

lemma r_steps_transTypes:
  assumes "\<And>T b. r_steps T0 Ty0 (rec T b)"
  shows "r_steps T0 Ty0 (r_transTypes rec b Ms)"
proof (induction Ms)
  case Nil
  show ?case by (simp add: r_steps_return)
next
  case (Cons M Ms)
  show ?case
  proof (cases M)
    case None
    then show ?thesis by (simp add: r_steps_return)
  next
    case (Some BT)
    have "r_steps T0 Ty0 (\<lambda>s. bindR (rec BT b s) (\<lambda>T s1.
            bindR (r_transTypes rec b Ms s1) (\<lambda>Ts s2. (Ok (T # Ts), s2))))"
      by (intro r_steps_bindR assms Cons r_steps_return)
    then show ?thesis using Some by simp
  qed
qed

lemma r_steps_transStructType:
  assumes rec: "\<And>T b. r_steps T0 Ty0 (rec T b)" and ne: "ST \<noteq> T0"
  shows "r_steps T0 Ty0 (r_transStructType rec ST Name0 Members Packed)"
proof -
  let ?g = "\<lambda>Name s1. bindR (StructType_create Name s1) (\<lambda>k s2.
         bindR (r_mapType ST (StructTy k) s2) (\<lambda>_ s3.
         bindR (r_transTypes rec True Members s3) (\<lambda>MT s4.
         bindR (setBody k MT Packed s4) (\<lambda>_ s5.
           (Ok (StructTy k), s5)))))"
  have g: "\<And>Name. r_steps T0 Ty0 (?g Name)"
    by (intro r_steps_bindR r_steps_create r_steps_mapType ne r_steps_transTypes rec r_steps_setBody r_steps_return)
  show ?thesis unfolding r_steps_def
  proof (intro allI impI)
    fix s r s' assume a: "r_transStructType rec ST Name0 Members Packed s = (r, s')"
    let ?s1 = "if Name0 \<noteq> [] then releaseName Name0 s else s"
    have t: "r_TypeMap ?s1 = r_TypeMap s" by (simp add: releaseName_def)
    have "?g (if Name0 \<noteq> [] then Name0 else ''structtype'') ?s1 = (r, s')"
      using a by (simp add: r_transStructType_def Let_def)
    from r_stepsD[OF g this] show "r_pres T0 Ty0 s s'" using t by (simp add: r_pres_def)
  qed
qed

lemma r_steps_transType: "r_steps T0 Ty0 (r_transType n E T b)"
proof (induction n arbitrary: T b)
  case 0
  show ?case by (simp add: r_steps_return)
next
  case (Suc n)
  note rec = Suc.IH
  show ?case unfolding r_steps_def
  proof (intro allI impI)
    fix s r s' assume a: "r_transType (Suc n) E T b s = (r, s')"
    show "r_pres T0 Ty0 s s'"
    proof (cases "r_TypeMap s T")
      case (Some Ty)
      then show ?thesis using a by (simp add: r_transType_body_def r_pres_refl)
    next
      case None
      show ?thesis
      proof (cases "T = T0")
        case True
        then show ?thesis using None by (simp add: r_pres_def)
      next
        case False
        note m = r_steps_mapType[OF False, of Ty0]
        show ?thesis
        proof (cases "r_entries E T")
          case None
          then show ?thesis using a \<open>r_TypeMap s T = None\<close> by (simp add: r_transType_body_def r_pres_refl)
        next
          case (Some e)
          show ?thesis
          proof (cases e)
            case OpTypeVoid
            then show ?thesis using a None Some r_stepsD[OF m] by (simp add: r_transType_body_def)
          next
            case OpTypeBool
            then show ?thesis using a None Some r_stepsD[OF m] by (simp add: r_transType_body_def)
          next
            case (OpTypeInt W)
            then show ?thesis using a None Some r_stepsD[OF m] by (simp add: r_transType_body_def)
          next
            case (OpTypeFloat W)
            have "r_steps T0 Ty0 (\<lambda>s. bindR (transFPType W, s) (r_mapType T))"
              by (intro r_steps_bindR r_steps_return m)
            then show ?thesis using a None Some OpTypeFloat r_stepsD by (fastforce simp: r_transType_body_def)
          next
            case (OpTypePointer SC El)
            have "r_steps T0 Ty0 (\<lambda>s. bindR (r_transType n E El b s) (\<lambda>El s1.
                r_mapType T (PointerTy El (r_SPIRSPIRVAddrSpaceMap_rmap E SC)) s1))"
              by (intro r_steps_bindR rec m)
            then show ?thesis using a None Some OpTypePointer r_stepsD by (fastforce simp: r_transType_body_def)
          next
            case (OpTypeVector C N)
            have "r_steps T0 Ty0 (\<lambda>s. bindR (r_transType n E C False s) (\<lambda>El s1. r_mapType T (VectorTy El N) s1))"
              by (intro r_steps_bindR rec m)
            then show ?thesis using a None Some OpTypeVector r_stepsD by (fastforce simp: r_transType_body_def)
          next
            case (OpTypeArray El Len)
            have g: "\<And>RawData. r_steps T0 Ty0 (\<lambda>s. bindR (r_transType n E El False s) (\<lambda>El s1.
                     r_mapType T (ArrayTy El (nat (APInt 64 (packWords (take 2 RawData))))) s1))"
              by (intro r_steps_bindR rec m)
            show ?thesis
            proof (cases "r_entries E Len")
              case None
              then show ?thesis using a \<open>r_TypeMap s T = None\<close> Some OpTypeArray
                by (simp add: r_transType_body_def r_pres_refl)
            next
              case (Some l)
              then show ?thesis using a \<open>r_TypeMap s T = None\<close> \<open>r_entries E T = Some e\<close> OpTypeArray r_stepsD[OF g]
                by (cases l) (auto simp: r_transType_body_def r_pres_refl)
            qed
          next
            case (OpTypeMatrix C N)
            have "r_steps T0 Ty0 (\<lambda>s. bindR (r_transType n E C False s) (\<lambda>El s1. r_mapType T (ArrayTy El N) s1))"
              by (intro r_steps_bindR rec m)
            then show ?thesis using a None Some OpTypeMatrix r_stepsD by (fastforce simp: r_transType_body_def)
          next
            case (OpTypeOpaque Name)
            have "r_steps T0 Ty0 (\<lambda>s. bindR (StructType_create Name s) (\<lambda>k s1. r_mapType T (StructTy k) s1))"
              by (intro r_steps_bindR r_steps_create m)
            then show ?thesis using a None Some OpTypeOpaque r_stepsD by (fastforce simp: r_transType_body_def)
          next
            case (OpTypeFunction Ret Params)
            have "r_steps T0 Ty0 (\<lambda>s. bindR (r_transType n E Ret False s) (\<lambda>RT s1.
                bindR (r_transTypes (r_transType n E) False (map Some Params) s1) (\<lambda>PT s2.
                  r_mapType T (FunctionTy RT PT) s2)))"
              by (intro r_steps_bindR rec m r_steps_transTypes)
            then show ?thesis using a None Some OpTypeFunction r_stepsD by (fastforce simp: r_transType_body_def)
          next
            case (OpTypeStruct Name Members Packed Closed)
            then show ?thesis using a None Some
                r_stepsD[OF r_steps_transStructType[of T0 Ty0 "r_transType n E" T Name Members Packed, OF rec False]]
              by (simp add: r_transType_body_def)
          next
            case (OpConstant CT Raw)
            then show ?thesis using a None Some by (simp add: r_transType_body_def r_pres_refl)
          qed
        qed
      qed
    qed
  qed
qed

lemma r_transType_stable:
  "r_transType n E T b s = (r, s') \<Longrightarrow> r_TypeMap s T0 = Some Ty0 \<Longrightarrow> r_TypeMap s' T0 = Some Ty0"
  using r_stepsD[OF r_steps_transType] by (simp add: r_pres_def)

lemma r_mapsToD: "r_mapsTo T f \<Longrightarrow> f s = (Ok r, s') \<Longrightarrow> r_TypeMap s' T = Some r"
  by (simp add: r_mapsTo_def)

lemma r_mapsTo_bindR:
  assumes "\<And>x. r_mapsTo T (g x)"
  shows "r_mapsTo T (\<lambda>s. bindR (f s) g)"
  unfolding r_mapsTo_def using assms by (auto elim!: bindR_Ok dest: r_mapsToD)

lemma r_mapsTo_mapType: "r_mapsTo T (r_mapType T Ty)"
  by (auto simp: r_mapsTo_def r_mapType_def)

lemma r_mapsTo_transStructType:
  assumes rec: "\<And>T b T0 Ty0. r_steps T0 Ty0 (rec T b)"
  shows "r_mapsTo ST (r_transStructType rec ST Name0 Members Packed)"
  unfolding r_mapsTo_def
proof (intro allI impI)
  fix s r s' assume a: "r_transStructType rec ST Name0 Members Packed s = (Ok r, s')"
  let ?s1 = "if Name0 \<noteq> [] then releaseName Name0 s else s"
  let ?Name = "if Name0 \<noteq> [] then Name0 else ''structtype''"
  have a': "bindR (StructType_create ?Name ?s1) (\<lambda>k s2.
         bindR (r_mapType ST (StructTy k) s2) (\<lambda>_ s3.
         bindR (r_transTypes rec True Members s3) (\<lambda>MT s4.
         bindR (setBody k MT Packed s4) (\<lambda>_ s5.
           (Ok (StructTy k), s5))))) = (Ok r, s')"
    using a by (simp add: r_transStructType_def Let_def)
  from a' obtain k s2 where c: "StructType_create ?Name ?s1 = (Ok k, s2)"
    and r1: "bindR (r_mapType ST (StructTy k) s2) (\<lambda>_ s3.
         bindR (r_transTypes rec True Members s3) (\<lambda>MT s4.
         bindR (setBody k MT Packed s4) (\<lambda>_ s5.
           (Ok (StructTy k), s5)))) = (Ok r, s')"
    by (rule bindR_Ok)
  let ?s3 = "s2\<lparr>r_TypeMap := (r_TypeMap s2)(ST \<mapsto> StructTy k)\<rparr>"
  have r2: "bindR (r_transTypes rec True Members ?s3) (\<lambda>MT s4.
         bindR (setBody k MT Packed s4) (\<lambda>_ s5.
           (Ok (StructTy k), s5))) = (Ok r, s')"
    using r1 by (simp add: r_mapType_def bindR_def)
  have st: "r_steps ST (StructTy k) (\<lambda>s3. bindR (r_transTypes rec True Members s3) (\<lambda>MT s4.
         bindR (setBody k MT Packed s4) (\<lambda>_ s5.
           (Ok (StructTy k), s5))))"
    by (intro r_steps_bindR r_steps_transTypes rec r_steps_setBody r_steps_return)
  have "r_TypeMap s' ST = Some (StructTy k)" using r_stepsD[OF st r2] by (simp add: r_pres_def)
  moreover have "r = StructTy k" using r2 by (auto elim!: bindR_Ok)
  ultimately show "r_TypeMap s' ST = Some r" by simp
qed

lemma r_transType_maps:
  assumes "r_transType n E T b s = (Ok Ty, s')"
  shows "r_TypeMap s' T = Some Ty"
proof (cases n)
  case 0
  then show ?thesis using assms by simp
next
  case (Suc m)
  then have b: "r_transType_body (r_transType m E) E T b s = (Ok Ty, s')" using assms by simp
  show ?thesis
  proof (cases "r_TypeMap s T")
    case (Some x)
    then show ?thesis using b by (simp add: r_transType_body_def)
  next
    case None
    note tm = None
    show ?thesis
    proof (cases "r_entries E T")
      case None
      then show ?thesis using b tm by (simp add: r_transType_body_def)
    next
      case (Some e)
      note mt = r_mapsToD[OF r_mapsTo_mapType]
      show ?thesis
      proof (cases e)
        case OpTypeVoid
        then show ?thesis using b tm Some mt by (simp add: r_transType_body_def)
      next
        case OpTypeBool
        then show ?thesis using b tm Some mt by (simp add: r_transType_body_def)
      next
        case (OpTypeInt W)
        then show ?thesis using b tm Some mt by (simp add: r_transType_body_def)
      next
        case (OpTypeFloat W)
        have "r_mapsTo T (\<lambda>s. bindR (transFPType W, s) (r_mapType T))"
          by (intro r_mapsTo_bindR r_mapsTo_mapType)
        then show ?thesis using b tm Some OpTypeFloat r_mapsToD by (fastforce simp: r_transType_body_def)
      next
        case (OpTypePointer SC El)
        have "r_mapsTo T (\<lambda>s. bindR (r_transType m E El b s) (\<lambda>El s1.
                r_mapType T (PointerTy El (r_SPIRSPIRVAddrSpaceMap_rmap E SC)) s1))"
          by (intro r_mapsTo_bindR r_mapsTo_mapType)
        then show ?thesis using b tm Some OpTypePointer r_mapsToD by (fastforce simp: r_transType_body_def)
      next
        case (OpTypeVector C N)
        have "r_mapsTo T (\<lambda>s. bindR (r_transType m E C False s) (\<lambda>El s1. r_mapType T (VectorTy El N) s1))"
          by (intro r_mapsTo_bindR r_mapsTo_mapType)
        then show ?thesis using b tm Some OpTypeVector r_mapsToD by (fastforce simp: r_transType_body_def)
      next
        case (OpTypeArray El Len)
        have g: "\<And>RawData. r_mapsTo T (\<lambda>s. bindR (r_transType m E El False s) (\<lambda>El s1.
                     r_mapType T (ArrayTy El (nat (APInt 64 (packWords (take 2 RawData))))) s1))"
          by (intro r_mapsTo_bindR r_mapsTo_mapType)
        show ?thesis
        proof (cases "r_entries E Len")
          case None
          then show ?thesis using b tm Some OpTypeArray by (simp add: r_transType_body_def)
        next
          case (Some l)
          then show ?thesis using b tm \<open>r_entries E T = Some e\<close> OpTypeArray r_mapsToD[OF g]
            by (cases l) (auto simp: r_transType_body_def)
        qed
      next
        case (OpTypeMatrix C N)
        have "r_mapsTo T (\<lambda>s. bindR (r_transType m E C False s) (\<lambda>El s1. r_mapType T (ArrayTy El N) s1))"
          by (intro r_mapsTo_bindR r_mapsTo_mapType)
        then show ?thesis using b tm Some OpTypeMatrix r_mapsToD by (fastforce simp: r_transType_body_def)
      next
        case (OpTypeOpaque Name)
        have "r_mapsTo T (\<lambda>s. bindR (StructType_create Name s) (\<lambda>k s1. r_mapType T (StructTy k) s1))"
          by (intro r_mapsTo_bindR r_mapsTo_mapType)
        then show ?thesis using b tm Some OpTypeOpaque r_mapsToD by (fastforce simp: r_transType_body_def)
      next
        case (OpTypeFunction Ret Params)
        have "r_mapsTo T (\<lambda>s. bindR (r_transType m E Ret False s) (\<lambda>RT s1.
                bindR (r_transTypes (r_transType m E) False (map Some Params) s1) (\<lambda>PT s2.
                  r_mapType T (FunctionTy RT PT) s2)))"
          by (intro r_mapsTo_bindR r_mapsTo_mapType)
        then show ?thesis using b tm Some OpTypeFunction r_mapsToD by (fastforce simp: r_transType_body_def)
      next
        case (OpTypeStruct Name Members Packed Closed)
        then show ?thesis using b tm Some
            r_mapsToD[OF r_mapsTo_transStructType[of "r_transType m E" T Name Members Packed]] r_steps_transType
          by (simp add: r_transType_body_def)
      next
        case (OpConstant CT Raw)
        then show ?thesis using b tm Some by (simp add: r_transType_body_def)
      qed
    qed
  qed
qed

lemma r_transType_twice:
  assumes "r_transType n E T b s = (Ok Ty, s')"
  shows "r_transType (Suc m) E T b' s' = (Ok Ty, s')"
  using r_transType_maps[OF assms] by (simp add: r_transType_body_def)

section \<open>Struct types that refer to themselves (the struct cases of the two transType)\<close>

subsection \<open>What a translated type is\<close>

text \<open>The entry \<open>i\<close> of the module under construction stands for the type \<open>T\<close>:
  the entry has the right kind and its operands stand for the component types. A struct type is
  a leaf here: its entry is the one the type table gives it, so a pointer to a struct under
  translation points to the very entry of that struct.\<close>

fun w_matches :: "WEnv \<Rightarrow> WState \<Rightarrow> SPIRVId \<Rightarrow> Type \<Rightarrow> bool"
  and w_matchesAll :: "WEnv \<Rightarrow> WState \<Rightarrow> SPIRVId list \<Rightarrow> Type list \<Rightarrow> bool" where
  "w_matches E s i VoidTy = (w_entries s i = Some OpTypeVoid)"
| "w_matches E s i (IntegerTy W) = (w_entries s i = Some (if W = 1 then OpTypeBool else OpTypeInt W))"
| "w_matches E s i (FloatingPointTy B) = (w_entries s i = Some (OpTypeFloat B))"
| "w_matches E s i (PointerTy ET A) =
     (case w_entries s i of
        Some (OpTypePointer SC j) \<Rightarrow> SC = w_SPIRSPIRVAddrSpaceMap E A \<and> w_matches E s j ET
      | _ \<Rightarrow> False)"
| "w_matches E s i (VectorTy ET N) =
     (case w_entries s i of Some (OpTypeVector j N') \<Rightarrow> N' = N \<and> w_matches E s j ET | _ \<Rightarrow> False)"
| "w_matches E s i (ArrayTy ET N) =
     (case w_entries s i of Some (OpTypeArray j L) \<Rightarrow> w_matches E s j ET | _ \<Rightarrow> False)"
| "w_matches E s i (FunctionTy R Ps) =
     (case w_entries s i of
        Some (OpTypeFunction r ps) \<Rightarrow> w_matches E s r R \<and> w_matchesAll E s ps Ps
      | _ \<Rightarrow> False)"
| "w_matches E s i (StructTy k) = (w_TypeMap s (StructTy k) = Some i)"
| "w_matchesAll E s [] [] = True"
| "w_matchesAll E s (i # is) (T # Ts) = (w_matches E s i T \<and> w_matchesAll E s is Ts)"
| "w_matchesAll E s is Ts = False"

text \<open>The table and the module agree: every type in the table has an entry that stands for
  it, every identity in use is below the next free one, and no two struct types share an
  entry.\<close>

definition w_Good :: "WEnv \<Rightarrow> WState \<Rightarrow> bool" where
  "w_Good E s = ((\<forall>T i. w_TypeMap s T = Some i \<longrightarrow> w_matches E s i T \<and> i < w_nextId s)
               \<and> (\<forall>i e. w_entries s i = Some e \<longrightarrow> i < w_nextId s)
               \<and> (\<forall>k k' i. w_TypeMap s (StructTy k) = Some i \<longrightarrow> w_TypeMap s (StructTy k') = Some i \<longrightarrow> k = k'))"

text \<open>The state \<open>st\<close> is later than the state of identity counter \<open>N\<close>, table \<open>M\<close> and
  entries \<open>e0\<close>: the counter has not gone back, the older entries are as they were and the
  table has kept what it had.\<close>

definition w_after :: "nat \<Rightarrow> (Type \<rightharpoonup> SPIRVId) \<Rightarrow> (SPIRVId \<rightharpoonup> SPIRVEntry) \<Rightarrow> WState \<Rightarrow> bool" where
  "w_after N M e0 st = (N \<le> w_nextId st \<and> (\<forall>j < N. w_entries st j = e0 j) \<and> (\<forall>T i. M T = Some i \<longrightarrow> w_TypeMap st T = Some i))"

text \<open>The state \<open>s'\<close> is later than the state \<open>s\<close>.\<close>

definition w_frame :: "WState \<Rightarrow> WState \<Rightarrow> bool" where
  "w_frame s s' = w_after (w_nextId s) (w_TypeMap s) (w_entries s) s'"

text \<open>Two entries are of the same kind and, unless they are struct entries, equal.\<close>

definition w_sameShape :: "SPIRVEntry option \<Rightarrow> SPIRVEntry option \<Rightarrow> bool" where
  "w_sameShape e e' =
     (case e of Some (OpTypeStruct n m p c) \<Rightarrow> (\<exists>n' m' p' c'. e' = Some (OpTypeStruct n' m' p' c'))
      | x \<Rightarrow> e' = x)"

text \<open>A member of a struct entry is set and stands for the member type.\<close>

definition w_memberOk :: "WEnv \<Rightarrow> WState \<Rightarrow> SPIRVId option \<Rightarrow> Type \<Rightarrow> bool" where
  "w_memberOk E s m T = (case m of None \<Rightarrow> False | Some j \<Rightarrow> w_matches E s j T)"

text \<open>The entry \<open>i\<close> is the finished translation of the struct type \<open>k\<close>: an opaque entry
  of its name when the struct type has no body; otherwise a closed struct entry of its name and
  packing whose members, in order, stand for the member types.\<close>

definition w_done :: "WEnv \<Rightarrow> WState \<Rightarrow> nat \<Rightarrow> SPIRVId \<Rightarrow> bool" where
  "w_done E s k i =
     (case st_elements (w_structs E k) of
        None \<Rightarrow> w_entries s i = Some (OpTypeOpaque (st_name (w_structs E k)))
      | Some els \<Rightarrow>
          (case w_entries s i of
             Some (OpTypeStruct nm ms p c) \<Rightarrow>
               nm = st_name (w_structs E k) \<and> p = st_isPacked (w_structs E k) \<and> c
               \<and> list_all2 (w_memberOk E s) ms els
           | _ \<Rightarrow> False))"

text \<open>Every struct type in the table, those of \<open>Open\<close> apart (the ones under
  translation), is finished.\<close>

definition w_Complete :: "WEnv \<Rightarrow> nat set \<Rightarrow> WState \<Rightarrow> bool" where
  "w_Complete E Open s = (\<forall>k i. w_TypeMap s (StructTy k) = Some i \<and> k \<notin> Open \<longrightarrow> w_done E s k i)"

text \<open>The invariant of the encoder's type translation.\<close>

definition w_Inv :: "WEnv \<Rightarrow> nat set \<Rightarrow> WState \<Rightarrow> bool" where
  "w_Inv E Open s = (w_Good E s \<and> w_Complete E Open s)"

text \<open>What a call of the encoder's \<open>transType\<close> that returns \<open>i\<close> for \<open>T\<close> has
  brought about.\<close>

definition w_Goal :: "WEnv \<Rightarrow> nat set \<Rightarrow> nat \<Rightarrow> (Type \<rightharpoonup> SPIRVId) \<Rightarrow> (SPIRVId \<rightharpoonup> SPIRVEntry) \<Rightarrow> Type \<Rightarrow> SPIRVId \<Rightarrow> WState \<Rightarrow> bool" where
  "w_Goal E Open N M e0 T i s' = (w_Inv E Open s' \<and> w_after N M e0 s' \<and> w_matches E s' i T)"

text \<open>A translator \<open>rec\<close> keeps the invariant and returns an entry that stands for the
  type it was given.\<close>

definition w_sound :: "WEnv \<Rightarrow> (Type \<Rightarrow> WState \<Rightarrow> SPIRVId Result \<times> WState) \<Rightarrow> bool" where
  "w_sound E rec = (\<forall>Open T s i s'. w_Inv E Open s \<longrightarrow> rec T s = (Ok i, s') \<longrightarrow>
                    w_Inv E Open s' \<and> w_frame s s' \<and> w_matches E s' i T)"

text \<open>The entry of the struct under translation: its members of the positions in \<open>D\<close> are
  set and stand for the member types.\<close>

definition w_building ::
  "WEnv \<Rightarrow> Type list \<Rightarrow> SPIRVId \<Rightarrow> string \<Rightarrow> bool \<Rightarrow> bool \<Rightarrow> nat set \<Rightarrow> WState \<Rightarrow> bool" where
  "w_building E els Struct nm p c D st =
     (\<exists>ms. w_entries st Struct = Some (OpTypeStruct nm ms p c) \<and> length ms = length els
           \<and> (\<forall>I \<in> D. I < length els \<longrightarrow> w_memberOk E st (ms ! I) (els ! I)))"

text \<open>The struct types a type refers to without going into a struct, and a measure of the
  size of a type.\<close>

fun structsOf :: "Type \<Rightarrow> nat set" where
  "structsOf (StructTy k) = {k}"
| "structsOf (PointerTy T a) = structsOf T"
| "structsOf (VectorTy T n) = structsOf T"
| "structsOf (ArrayTy T n) = structsOf T"
| "structsOf (FunctionTy R Ps) = structsOf R \<union> (\<Union>P \<in> set Ps. structsOf P)"
| "structsOf T = {}"

fun tsize :: "Type \<Rightarrow> nat" where
  "tsize (PointerTy T a) = Suc (tsize T)"
| "tsize (VectorTy T n) = Suc (tsize T)"
| "tsize (ArrayTy T n) = Suc (tsize T)"
| "tsize (FunctionTy R Ps) = Suc (tsize R + sum_list (map tsize Ps))"
| "tsize T = 0"

text \<open>The set \<open>U\<close> of struct types holds every struct type its members refer to.\<close>

definition closedU :: "(nat \<Rightarrow> StructType) \<Rightarrow> nat set \<Rightarrow> bool" where
  "closedU S U = (\<forall>k \<in> U. \<forall>els. st_elements (S k) = Some els \<longrightarrow> (\<forall>T \<in> set els. structsOf T \<subseteq> U))"

text \<open>A computation with fuel ends: from some fuel on it gives one and the same result, which
  is not the end of the fuel.\<close>

definition halts :: "(nat \<Rightarrow> 'a Result \<times> 's) \<Rightarrow> bool" where
  "halts f = (\<exists>n r s'. r \<noteq> OutOfFuel \<and> (\<forall>m \<ge> n. f m = (r, s')))"

definition haltsO :: "(nat \<Rightarrow> 'a option) \<Rightarrow> bool" where
  "haltsO f = (\<exists>n r. \<forall>m \<ge> n. f m = Some r)"

text \<open>The struct types that are in the table stay there, with their entries.\<close>

definition w_keeps :: "WState \<Rightarrow> WState \<Rightarrow> bool" where
  "w_keeps s s' = (\<forall>k i. w_TypeMap s (StructTy k) = Some i \<longrightarrow> w_TypeMap s' (StructTy k) = Some i)"

text \<open>The struct types of \<open>U\<close> that are not in the table yet.\<close>

definition w_unmapped :: "nat set \<Rightarrow> WState \<Rightarrow> nat set" where
  "w_unmapped U s = {k \<in> U. w_TypeMap s (StructTy k) = None}"

text \<open>The entry is a struct type or an opaque type.\<close>

definition isStructEntry :: "SPIRVEntry option \<Rightarrow> bool" where
  "isStructEntry e = (case e of Some (OpTypeStruct nm ms p c) \<Rightarrow> True | Some (OpTypeOpaque nm) \<Rightarrow> True | _ \<Rightarrow> False)"

text \<open>The entry \<open>L\<close> is a constant whose value, read as the decoder reads the length of an
  array, is \<open>N\<close>.\<close>

definition r_isLength :: "REnv \<Rightarrow> SPIRVId \<Rightarrow> nat \<Rightarrow> bool" where
  "r_isLength E L N =
     (case r_entries E L of
        Some (OpConstant CT RawData) \<Rightarrow> N = nat (APInt 64 (packWords (take 2 RawData)))
      | _ \<Rightarrow> False)"

text \<open>The type \<open>Ty\<close> of the compiler IR stands for the entry \<open>i\<close> of the binary module:
  the entry has the right kind and the component types stand for its operands. A struct entry is
  a leaf here: its type is the one the type table gives it, so the type of a pointer to a struct
  under translation points to the very struct type made for it.\<close>

fun r_matches :: "REnv \<Rightarrow> RState \<Rightarrow> SPIRVId \<Rightarrow> Type \<Rightarrow> bool"
  and r_matchesAll :: "REnv \<Rightarrow> RState \<Rightarrow> SPIRVId list \<Rightarrow> Type list \<Rightarrow> bool" where
  "r_matches E s i VoidTy = (r_entries E i = Some OpTypeVoid)"
| "r_matches E s i (IntegerTy W) =
     (case r_entries E i of Some OpTypeBool \<Rightarrow> W = 1 | Some (OpTypeInt W') \<Rightarrow> W' = W | _ \<Rightarrow> False)"
| "r_matches E s i (FloatingPointTy B) = (r_entries E i = Some (OpTypeFloat B))"
| "r_matches E s i (PointerTy ET A) =
     (case r_entries E i of
        Some (OpTypePointer SC j) \<Rightarrow> A = r_SPIRSPIRVAddrSpaceMap_rmap E SC \<and> r_matches E s j ET
      | _ \<Rightarrow> False)"
| "r_matches E s i (VectorTy ET N) =
     (case r_entries E i of Some (OpTypeVector j N') \<Rightarrow> N' = N \<and> r_matches E s j ET | _ \<Rightarrow> False)"
| "r_matches E s i (ArrayTy ET N) =
     (case r_entries E i of
        Some (OpTypeArray j L) \<Rightarrow>
          r_isLength E L N \<and> r_matches E s j ET
      | Some (OpTypeMatrix j N') \<Rightarrow> N' = N \<and> r_matches E s j ET
      | _ \<Rightarrow> False)"
| "r_matches E s i (FunctionTy R Ps) =
     (case r_entries E i of
        Some (OpTypeFunction r ps) \<Rightarrow> r_matches E s r R \<and> r_matchesAll E s ps Ps
      | _ \<Rightarrow> False)"
| "r_matches E s i (StructTy k) = (r_TypeMap s i = Some (StructTy k) \<and> isStructEntry (r_entries E i))"
| "r_matchesAll E s [] [] = True"
| "r_matchesAll E s (i # is) (T # Ts) = (r_matches E s i T \<and> r_matchesAll E s is Ts)"
| "r_matchesAll E s is Ts = False"

text \<open>A member of a struct entry is given and the type stands for it.\<close>

definition r_memberOk :: "REnv \<Rightarrow> RState \<Rightarrow> SPIRVId option \<Rightarrow> Type \<Rightarrow> bool" where
  "r_memberOk E s m T = (case m of None \<Rightarrow> False | Some j \<Rightarrow> r_matches E s j T)"

text \<open>The struct type \<open>k\<close> is the finished translation of the entry \<open>i\<close>: it has no body
  when the entry is opaque; otherwise it has the packing of the entry and its member types, in
  order, stand for the members of the entry.\<close>

definition r_done :: "REnv \<Rightarrow> RState \<Rightarrow> SPIRVId \<Rightarrow> nat \<Rightarrow> bool" where
  "r_done E s i k =
     (case r_entries E i of
        Some (OpTypeStruct nm ms p c) \<Rightarrow>
          (case st_elements (r_structs s ! k) of
             None \<Rightarrow> False
           | Some els \<Rightarrow> st_isPacked (r_structs s ! k) = p \<and> list_all2 (r_memberOk E s) ms els)
      | Some (OpTypeOpaque nm) \<Rightarrow> st_elements (r_structs s ! k) = None
      | _ \<Rightarrow> False)"

text \<open>The table and the entries agree: every type in the table stands for its entry, every
  struct type in the table exists, and no two entries share a struct type.\<close>

definition r_Good :: "REnv \<Rightarrow> RState \<Rightarrow> bool" where
  "r_Good E s = ((\<forall>i T. r_TypeMap s i = Some T \<longrightarrow> r_matches E s i T)
                 \<and> (\<forall>i k. r_TypeMap s i = Some (StructTy k) \<longrightarrow> k < length (r_structs s))
                 \<and> (\<forall>i j k. r_TypeMap s i = Some (StructTy k) \<longrightarrow> r_TypeMap s j = Some (StructTy k) \<longrightarrow> i = j))"

text \<open>Every struct type in the table, those of the entries in \<open>Open\<close> apart (the ones
  under translation), is finished.\<close>

definition r_Complete :: "REnv \<Rightarrow> SPIRVId set \<Rightarrow> RState \<Rightarrow> bool" where
  "r_Complete E Open s = (\<forall>i k. r_TypeMap s i = Some (StructTy k) \<and> i \<notin> Open \<longrightarrow> r_done E s i k)"

text \<open>The invariant of the decoder's type translation.\<close>

definition r_Inv :: "REnv \<Rightarrow> SPIRVId set \<Rightarrow> RState \<Rightarrow> bool" where
  "r_Inv E Open s = (r_Good E s \<and> r_Complete E Open s)"

text \<open>The struct types in the table stay there, no struct type goes away, and the struct
  types that were there keep their members.\<close>

definition r_frame :: "RState \<Rightarrow> RState \<Rightarrow> bool" where
  "r_frame s s' =
     ((\<forall>i k. r_TypeMap s i = Some (StructTy k) \<longrightarrow> r_TypeMap s' i = Some (StructTy k))
      \<and> length (r_structs s) \<le> length (r_structs s')
      \<and> (\<forall>k < length (r_structs s). st_elements (r_structs s' ! k) = st_elements (r_structs s ! k)
                                     \<and> st_isPacked (r_structs s' ! k) = st_isPacked (r_structs s ! k)))"

text \<open>A translator \<open>rec\<close> keeps the invariant and returns a type that stands for the
  entry it was given.\<close>

definition r_sound :: "REnv \<Rightarrow> (SPIRVId \<Rightarrow> bool \<Rightarrow> RState \<Rightarrow> Type Result \<times> RState) \<Rightarrow> bool" where
  "r_sound E rec = (\<forall>Open T b s Ty s'. r_Inv E Open s \<longrightarrow> rec T b s = (Ok Ty, s') \<longrightarrow>
                      r_Inv E Open s' \<and> r_frame s s' \<and> r_matches E s' T Ty)"

text \<open>The table keeps what it has.\<close>

definition r_keeps :: "RState \<Rightarrow> RState \<Rightarrow> bool" where
  "r_keeps s s' = (\<forall>i Ty. r_TypeMap s i = Some Ty \<longrightarrow> r_TypeMap s' i = Some Ty)"

text \<open>The struct entries that are not in the table yet.\<close>

definition r_unmapped :: "REnv \<Rightarrow> RState \<Rightarrow> SPIRVId set" where
  "r_unmapped E s = {i. isStructEntry (r_entries E i) \<and> r_TypeMap s i = None}"

text \<open>The operands the decoder translates for an entry that is no struct, and the rule of the
  binary format that such an entry is declared after its operands: \<open>rank\<close> is the place of
  the declaration. Only a struct may name a member declared later (a forward pointer).\<close>

fun r_operands :: "SPIRVEntry \<Rightarrow> SPIRVId list" where
  "r_operands (OpTypePointer SC j) = [j]"
| "r_operands (OpTypeVector j n) = [j]"
| "r_operands (OpTypeArray j L) = [j]"
| "r_operands (OpTypeMatrix j n) = [j]"
| "r_operands (OpTypeFunction r ps) = r # ps"
| "r_operands e = []"

definition r_ordered :: "(SPIRVId \<Rightarrow> nat) \<Rightarrow> REnv \<Rightarrow> bool" where
  "r_ordered rank E = (\<forall>i e. r_entries E i = Some e \<longrightarrow> (\<forall>j \<in> set (r_operands e). rank j < rank i))"

text \<open>A translator that runs only once the given type has its entry in the table, and stops
  with a failed assertion before. With it the struct case says where its calls for the members
  stand: after the struct itself has been entered.\<close>

definition onceRegistered ::
  "Type \<Rightarrow> (Type \<Rightarrow> WState \<Rightarrow> SPIRVId Result \<times> WState) \<Rightarrow> Type \<Rightarrow> WState \<Rightarrow> SPIRVId Result \<times> WState" where
  "onceRegistered T0 rec T s = (if w_TypeMap s T0 = None then (Fail AssertionFailure, s) else rec T s)"

definition r_onceRegistered ::
  "SPIRVId \<Rightarrow> (SPIRVId \<Rightarrow> bool \<Rightarrow> RState \<Rightarrow> Type Result \<times> RState) \<Rightarrow> SPIRVId \<Rightarrow> bool \<Rightarrow> RState
     \<Rightarrow> Type Result \<times> RState" where
  "r_onceRegistered T0 rec T b s = (if r_TypeMap s T0 = None then (Fail AssertionFailure, s) else rec T b s)"

text \<open>A module of the compiler IR with two struct types: \<open>node\<close> (struct 0) holds an integer, a
  pointer to \<open>node\<close>, an array of two pointers to \<open>node\<close> and a \<open>link\<close>; \<open>link\<close>
  (every other struct) holds a pointer to \<open>node\<close>. So \<open>node\<close> refers to itself directly,
  through an array and through a struct.\<close>

definition nodeEnv :: WEnv where
  "nodeEnv = \<lparr>w_structs = (\<lambda>k. if k = 0
        then \<lparr>st_name = ''node'',
              st_elements = Some [IntegerTy 32, PointerTy (StructTy 0) 1,
                                  ArrayTy (PointerTy (StructTy 0) 1) 2, StructTy 1],
              st_isPacked = False\<rparr>
        else \<lparr>st_name = ''link'', st_elements = Some [PointerTy (StructTy 0) 1], st_isPacked = False\<rparr>),
     w_isAllowedToUseExtension = (\<lambda>e. False),
     w_SPIRSPIRVAddrSpaceMap = (\<lambda>a. a + 4), w_sizetBits = 64, w_specialOpaqueName = (\<lambda>n. False),
     w_specialStructName = (\<lambda>n. False), w_MaxNumElements = 65533\<rparr>"

text \<open>The same two struct types as a binary module: entry 2 is \<open>node\<close>, entry 6 is \<open>link\<close>,
  entry 3 is the pointer to \<open>node\<close> (declared forward, so that \<open>node\<close> can name it) and
  entry 5 the array of two such pointers.\<close>

definition nodeModule :: REnv where
  "nodeModule = \<lparr>r_entries = [1 \<mapsto> OpTypeInt 32,
                               2 \<mapsto> OpTypeStruct ''node'' [Some 1, Some 3, Some 5, Some 6] False True,
                               3 \<mapsto> OpTypePointer 5 2,
                               4 \<mapsto> OpConstant 1 [2],
                               5 \<mapsto> OpTypeArray 3 4,
                               6 \<mapsto> OpTypeStruct ''link'' [Some 3] False True],
                  r_SPIRSPIRVAddrSpaceMap_rmap = (\<lambda>a. a - 4)\<rparr>"

subsection \<open>The struct cases: proofs\<close>

lemma w_frame_refl: "w_frame s s"
  by (simp add: w_frame_def w_after_def)

lemma w_after_frame:
  "w_after N M e0 st \<Longrightarrow> w_frame st st' \<Longrightarrow> w_after N M e0 st'"
  by (auto simp: w_after_def w_frame_def)

lemma w_frame_trans: "w_frame s s1 \<Longrightarrow> w_frame s1 s2 \<Longrightarrow> w_frame s s2"
  unfolding w_frame_def by (rule w_after_frame[unfolded w_frame_def])

lemma w_matches_mono:
  "(\<forall>i x. w_entries s i = Some x \<longrightarrow> w_entries s' i = Some x) \<Longrightarrow>
   (\<forall>k i. w_TypeMap s (StructTy k) = Some i \<longrightarrow> w_TypeMap s' (StructTy k) = Some i) \<Longrightarrow>
   w_matches E s i T \<Longrightarrow> w_matches E s' i T"
  "(\<forall>i x. w_entries s i = Some x \<longrightarrow> w_entries s' i = Some x) \<Longrightarrow>
   (\<forall>k i. w_TypeMap s (StructTy k) = Some i \<longrightarrow> w_TypeMap s' (StructTy k) = Some i) \<Longrightarrow>
   w_matchesAll E s is Ts \<Longrightarrow> w_matchesAll E s' is Ts"
  by (induction E s i T and E s "is" Ts rule: w_matches_w_matchesAll.induct)
     (auto split: option.splits SPIRVEntry.splits)

lemma w_matches_after:
  assumes b: "\<forall>i e. w_entries s i = Some e \<longrightarrow> i < w_nextId s"
    and a: "w_after (w_nextId s) (w_TypeMap s) (w_entries s) s'"
    and m: "w_matches E s i T"
  shows "w_matches E s' i T"
proof (rule w_matches_mono(1)[OF _ _ m])
  show "\<forall>i x. w_entries s i = Some x \<longrightarrow> w_entries s' i = Some x"
    using a b by (auto simp: w_after_def)
  show "\<forall>k i. w_TypeMap s (StructTy k) = Some i \<longrightarrow> w_TypeMap s' (StructTy k) = Some i"
    using a by (auto simp: w_after_def)
qed

lemma w_matches_frame: "w_Good E s \<Longrightarrow> w_frame s s' \<Longrightarrow> w_matches E s i T \<Longrightarrow> w_matches E s' i T"
  unfolding w_frame_def w_Good_def by (rule w_matches_after) auto

lemma w_sameShape_refl: "w_sameShape e e"
  by (auto simp: w_sameShape_def split: option.splits SPIRVEntry.splits)

lemma w_matches_cong:
  "(\<forall>i. w_sameShape (w_entries s i) (w_entries s' i)) \<Longrightarrow>
   (\<forall>k. w_TypeMap s' (StructTy k) = w_TypeMap s (StructTy k)) \<Longrightarrow>
   w_matches E s i T \<Longrightarrow> w_matches E s' i T"
  "(\<forall>i. w_sameShape (w_entries s i) (w_entries s' i)) \<Longrightarrow>
   (\<forall>k. w_TypeMap s' (StructTy k) = w_TypeMap s (StructTy k)) \<Longrightarrow>
   w_matchesAll E s is Ts \<Longrightarrow> w_matchesAll E s' is Ts"
proof (induction E s i T and E s "is" Ts rule: w_matches_w_matchesAll.induct)
  case (1 E s i)
  from 1(1) have "w_sameShape (w_entries s i) (w_entries s' i)" by blast
  then show ?case using 1 by (auto simp: w_sameShape_def)
next
  case (2 E s i W)
  from 2(1) have "w_sameShape (w_entries s i) (w_entries s' i)" by blast
  then show ?case using 2 by (auto simp: w_sameShape_def split: if_splits)
next
  case (3 E s i B)
  from 3(1) have "w_sameShape (w_entries s i) (w_entries s' i)" by blast
  then show ?case using 3 by (auto simp: w_sameShape_def)
next
  case (4 E s i ET A)
  from 4(2) have "w_sameShape (w_entries s i) (w_entries s' i)" by blast
  then show ?case using 4 by (auto simp: w_sameShape_def split: option.splits SPIRVEntry.splits)
next
  case (5 E s i ET N)
  from 5(2) have "w_sameShape (w_entries s i) (w_entries s' i)" by blast
  then show ?case using 5 by (auto simp: w_sameShape_def split: option.splits SPIRVEntry.splits)
next
  case (6 E s i ET N)
  from 6(2) have "w_sameShape (w_entries s i) (w_entries s' i)" by blast
  then show ?case using 6 by (auto simp: w_sameShape_def split: option.splits SPIRVEntry.splits)
next
  case (7 E s i R Ps)
  from 7(3) have "w_sameShape (w_entries s i) (w_entries s' i)" by blast
  then show ?case using 7 by (auto simp: w_sameShape_def split: option.splits SPIRVEntry.splits)
qed auto

lemma w_InvG: "w_Inv E Open s \<Longrightarrow> w_Good E s" by (simp add: w_Inv_def)

lemma w_InvC: "w_Inv E Open s \<Longrightarrow> w_Complete E Open s" by (simp add: w_Inv_def)

lemma w_GoodB: "w_Good E s \<Longrightarrow> w_entries s i = Some e \<Longrightarrow> i < w_nextId s"
  unfolding w_Good_def by blast

lemma w_GoodM: "w_Good E s \<Longrightarrow> w_TypeMap s T = Some i \<Longrightarrow> w_matches E s i T"
  unfolding w_Good_def by blast

lemma w_GoodL: "w_Good E s \<Longrightarrow> w_TypeMap s T = Some i \<Longrightarrow> i < w_nextId s"
  unfolding w_Good_def by blast

lemma w_GoodI: "w_Good E s \<Longrightarrow> w_TypeMap s (StructTy k) = Some i \<Longrightarrow> w_TypeMap s (StructTy k') = Some i \<Longrightarrow> k = k'"
  unfolding w_Good_def by blast

lemma w_done_entry: "w_done E s k i \<Longrightarrow> \<exists>e. w_entries s i = Some e"
  by (auto simp: w_done_def split: option.splits SPIRVEntry.splits)

lemma w_memberOk_mono:
  "(\<And>j T. w_matches E s j T \<Longrightarrow> w_matches E s' j T) \<Longrightarrow> w_memberOk E s m T \<Longrightarrow> w_memberOk E s' m T"
  by (auto simp: w_memberOk_def split: option.splits)

lemma w_done_mono:
  assumes m: "\<And>j T. w_matches E s j T \<Longrightarrow> w_matches E s' j T"
    and e: "w_entries s' i = w_entries s i" and d: "w_done E s k i"
  shows "w_done E s' k i"
proof (cases "st_elements (w_structs E k)")
  case None
  then show ?thesis using d e by (simp add: w_done_def)
next
  case (Some els)
  from d Some obtain ms where en: "w_entries s i = Some (OpTypeStruct (st_name (w_structs E k)) ms (st_isPacked (w_structs E k)) True)"
    and l: "list_all2 (w_memberOk E s) ms els"
    by (auto simp: w_done_def split: option.splits SPIRVEntry.splits)
  have "list_all2 (w_memberOk E s') ms els"
    by (rule list_all2_mono[OF l]) (rule w_memberOk_mono[OF m])
  then show ?thesis using Some en e by (simp add: w_done_def)
qed

lemma w_done_frame:
  assumes g: "w_Good E s" and f: "w_frame s s'" and d: "w_done E s k i"
  shows "w_done E s' k i"
proof (rule w_done_mono[OF _ _ d])
  fix j T assume "w_matches E s j T" then show "w_matches E s' j T" by (rule w_matches_frame[OF g f])
next
  from w_done_entry[OF d] obtain e where "w_entries s i = Some e" by blast
  then show "w_entries s' i = w_entries s i" using w_GoodB[OF g] f by (auto simp: w_frame_def w_after_def)
qed

lemma w_Good_cong:
  assumes "w_TypeMap s' = w_TypeMap s" "w_entries s' = w_entries s" "w_nextId s' = w_nextId s"
    and g: "w_Good E s"
  shows "w_Good E s'"
proof -
  have "\<And>i T. w_matches E s i T \<Longrightarrow> w_matches E s' i T"
    by (rule w_matches_mono(1)) (use assms in auto)
  then show ?thesis using g assms(1-3) unfolding w_Good_def by simp
qed

lemma w_Inv_cong:
  assumes eq: "w_TypeMap s' = w_TypeMap s" "w_entries s' = w_entries s" "w_nextId s' = w_nextId s"
    and i: "w_Inv E Open s"
  shows "w_Inv E Open s'"
proof -
  have m: "\<And>i T. w_matches E s i T \<Longrightarrow> w_matches E s' i T"
    by (rule w_matches_mono(1)) (use eq in auto)
  have "w_Complete E Open s'" unfolding w_Complete_def
  proof (intro allI impI)
    fix k i assume "w_TypeMap s' (StructTy k) = Some i \<and> k \<notin> Open"
    then have "w_done E s k i" using w_InvC[OF i] eq by (simp add: w_Complete_def)
    then show "w_done E s' k i" by (rule w_done_mono[where s = s, rotated 2]) (simp_all add: m eq)
  qed
  then show ?thesis using w_Good_cong[OF eq w_InvG[OF i]] by (simp add: w_Inv_def)
qed

lemma w_after_cong:
  "w_TypeMap s' = w_TypeMap s \<Longrightarrow> w_entries s' = w_entries s \<Longrightarrow> w_nextId s' = w_nextId s \<Longrightarrow>
   w_after N M e0 s \<Longrightarrow> w_after N M e0 s'"
  by (simp add: w_after_def)

lemma w_frame_cong:
  "w_TypeMap s' = w_TypeMap s \<Longrightarrow> w_entries s' = w_entries s \<Longrightarrow> w_nextId s' = w_nextId s \<Longrightarrow> w_frame s s'"
  by (simp add: w_frame_def w_after_def)

lemma checkError_fields:
  "w_TypeMap (snd (checkError c e s)) = w_TypeMap s"
  "w_entries (snd (checkError c e s)) = w_entries s"
  "w_nextId (snd (checkError c e s)) = w_nextId s"
  by (simp_all add: checkError_def)

lemma checkError_eq_fields:
  assumes "checkError c e s = (b, s1)"
  shows "w_TypeMap s1 = w_TypeMap s \<and> w_entries s1 = w_entries s \<and> w_nextId s1 = w_nextId s"
  using assms checkError_fields[of c e s] by (metis snd_conv)

lemma w_Inv_add:
  assumes iv: "w_Inv E Open s" and a: "add e s = (r, s1)"
  shows "r = Ok (w_nextId s) \<and> w_Inv E Open s1 \<and> w_frame s s1 \<and> w_entries s1 (w_nextId s) = Some e
         \<and> w_TypeMap s1 = w_TypeMap s \<and> w_nextId s1 = Suc (w_nextId s)"
proof -
  note g = w_InvG[OF iv]
  have s1: "s1 = s\<lparr>w_entries := (w_entries s)(w_nextId s \<mapsto> e), w_nextId := Suc (w_nextId s)\<rparr>"
    and r: "r = Ok (w_nextId s)" using a by (auto simp: add_def)
  have f: "w_frame s s1" using s1 by (auto simp: w_frame_def w_after_def)
  have "w_Good E s1" unfolding w_Good_def
  proof (intro conjI allI impI)
    fix T i assume "w_TypeMap s1 T = Some i"
    then have m: "w_TypeMap s T = Some i" using s1 by simp
    show "w_matches E s1 i T" by (rule w_matches_frame[OF g f w_GoodM[OF g m]])
    show "i < w_nextId s1" using w_GoodL[OF g m] s1 by simp
  next
    fix i x assume "w_entries s1 i = Some x"
    then show "i < w_nextId s1" using w_GoodB[OF g, of i] s1 by (auto split: if_splits)
  next
    fix k k' i assume "w_TypeMap s1 (StructTy k) = Some i" "w_TypeMap s1 (StructTy k') = Some i"
    then show "k = k'" using w_GoodI[OF g, of k i k'] s1 by simp
  qed
  moreover have "w_Complete E Open s1" unfolding w_Complete_def
  proof (intro allI impI)
    fix k i assume "w_TypeMap s1 (StructTy k) = Some i \<and> k \<notin> Open"
    then have "w_done E s k i" using w_InvC[OF iv] s1 by (simp add: w_Complete_def)
    then show "w_done E s1 k i" by (rule w_done_frame[OF g f])
  qed
  ultimately show ?thesis using r f s1 by (simp add: w_Inv_def)
qed

lemma w_after_mapType:
  assumes a: "w_after N M e0 s" and u: "M T = None"
  shows "w_after N M e0 (s\<lparr>w_TypeMap := (w_TypeMap s)(T \<mapsto> i)\<rparr>)"
  using a u by (auto simp: w_after_def)

text \<open>Entering a type that is no struct in the table changes no match.\<close>

lemma w_matches_mapType:
  assumes ns: "\<forall>k. T \<noteq> StructTy k"
  shows "w_matches E (s\<lparr>w_TypeMap := (w_TypeMap s)(T \<mapsto> i)\<rparr>) j T' = w_matches E s j T'"
proof
  assume "w_matches E (s\<lparr>w_TypeMap := (w_TypeMap s)(T \<mapsto> i)\<rparr>) j T'"
  then show "w_matches E s j T'" by (rule w_matches_mono(1)[rotated 2]) (use ns in auto)
next
  assume "w_matches E s j T'"
  then show "w_matches E (s\<lparr>w_TypeMap := (w_TypeMap s)(T \<mapsto> i)\<rparr>) j T'"
    by (rule w_matches_mono(1)[rotated 2]) (use ns in auto)
qed

lemma w_Inv_mapType:
  assumes iv: "w_Inv E Open s" and ns: "\<forall>k. T \<noteq> StructTy k"
    and m: "w_matches E s i T" and b: "i < w_nextId s"
  shows "w_Inv E Open (s\<lparr>w_TypeMap := (w_TypeMap s)(T \<mapsto> i)\<rparr>)"
proof -
  let ?s = "s\<lparr>w_TypeMap := (w_TypeMap s)(T \<mapsto> i)\<rparr>"
  note g = w_InvG[OF iv]
  note mm = w_matches_mapType[OF ns, of E s i]
  have "w_Good E ?s" unfolding w_Good_def
  proof (intro conjI allI impI)
    fix T' j assume a: "w_TypeMap ?s T' = Some j"
    show "w_matches E ?s j T'" using a m w_GoodM[OF g, of T' j] by (auto simp: mm split: if_splits)
    show "j < w_nextId ?s" using a b w_GoodL[OF g, of T' j] by (auto split: if_splits)
  next
    fix j x assume "w_entries ?s j = Some x"
    then show "j < w_nextId ?s" using w_GoodB[OF g, of j] by simp
  next
    fix k k' j assume "w_TypeMap ?s (StructTy k) = Some j" "w_TypeMap ?s (StructTy k') = Some j"
    moreover have "StructTy k \<noteq> T" "StructTy k' \<noteq> T" using ns by auto
    ultimately show "k = k'" using w_GoodI[OF g, of k j k'] by simp
  qed
  moreover have "w_Complete E Open ?s" unfolding w_Complete_def
  proof (intro allI impI)
    fix k j assume "w_TypeMap ?s (StructTy k) = Some j \<and> k \<notin> Open"
    moreover have "StructTy k \<noteq> T" using ns by auto
    ultimately have "w_done E s k j" using w_InvC[OF iv] by (simp add: w_Complete_def)
    then show "w_done E ?s k j" by (rule w_done_mono[where s = s, rotated 2]) (simp_all add: w_matches_mapType[OF ns])
  qed
  ultimately show ?thesis by (simp add: w_Inv_def)
qed

lemma w_Goal_frame: "w_Goal E Open (w_nextId s) (w_TypeMap s) (w_entries s) T i s' \<Longrightarrow>
    w_Inv E Open s' \<and> w_frame s s' \<and> w_matches E s' i T"
  by (simp add: w_Goal_def w_frame_def)

lemma w_finish:
  assumes iv: "w_Inv E Open s2" and a: "w_after N M e0 s2" and u: "M T = None"
    and ns: "\<forall>k. T \<noteq> StructTy k"
    and new: "\<And>s3 P. w_entries s3 P = Some e \<Longrightarrow> (\<forall>j T'. w_matches E s2 j T' \<longrightarrow> w_matches E s3 j T') \<Longrightarrow>
                (\<forall>js Ts. w_matchesAll E s2 js Ts \<longrightarrow> w_matchesAll E s3 js Ts) \<Longrightarrow> w_matches E s3 P T"
    and r: "bindR (add e s2) (mapType T) = (Ok i, s')"
  shows "w_Goal E Open N M e0 T i s'"
proof -
  obtain ra s3 where ad: "add e s2 = (ra, s3)" by (cases "add e s2")
  from w_Inv_add[OF iv ad] have ra: "ra = Ok (w_nextId s2)" and i3: "w_Inv E Open s3" and f3: "w_frame s2 s3"
    and e3: "w_entries s3 (w_nextId s2) = Some e" and n3: "w_nextId s3 = Suc (w_nextId s2)" by simp_all
  note g = w_InvG[OF iv]
  let ?P = "w_nextId s2"
  let ?s = "s3\<lparr>w_TypeMap := (w_TypeMap s3)(T \<mapsto> ?P)\<rparr>"
  have s': "s' = ?s" and i: "i = ?P" using r ad ra by (auto simp: bindR_def mapType_def)
  have a3: "w_after N M e0 s3" by (rule w_after_frame[OF a f3])
  have lift: "\<forall>j T'. w_matches E s2 j T' \<longrightarrow> w_matches E s3 j T'"
    using w_matches_frame[OF g f3] by blast
  have liftA: "\<forall>js Ts. w_matchesAll E s2 js Ts \<longrightarrow> w_matchesAll E s3 js Ts"
  proof (intro allI impI)
    fix js Ts assume "w_matchesAll E s2 js Ts"
    then show "w_matchesAll E s3 js Ts"
      by (rule w_matches_mono(2)[rotated 2]) (use w_GoodB[OF g] f3 in \<open>auto simp: w_frame_def w_after_def\<close>)
  qed
  have m: "w_matches E s3 ?P T" by (rule new[OF e3 lift liftA])
  have "w_Inv E Open ?s" by (rule w_Inv_mapType[OF i3 ns m]) (simp add: n3)
  moreover have "w_after N M e0 ?s" by (rule w_after_mapType[OF a3 u])
  moreover have "w_matches E ?s ?P T" using m by (simp add: w_matches_mapType[OF ns])
  ultimately show ?thesis unfolding w_Goal_def using s' i by simp
qed

lemma w_soundD:
  "w_sound E rec \<Longrightarrow> w_Inv E Open s \<Longrightarrow> rec T s = (Ok i, s') \<Longrightarrow> w_Inv E Open s' \<and> w_frame s s' \<and> w_matches E s' i T"
  unfolding w_sound_def by blast

lemma w_sound_transTypes:
  assumes r: "w_sound E rec"
  shows "w_Inv E Open s \<Longrightarrow> transTypes rec Ts s = (Ok ids, s') \<Longrightarrow> w_Inv E Open s' \<and> w_frame s s' \<and> w_matchesAll E s' ids Ts"
proof (induction Ts arbitrary: s ids)
  case Nil
  then show ?case by (simp add: w_frame_refl)
next
  case (Cons T Ts)
  from Cons.prems(2) obtain i s1 where c1: "rec T s = (Ok i, s1)"
    and r1: "bindR (transTypes rec Ts s1) (\<lambda>BTs s2. (Ok (i # BTs), s2)) = (Ok ids, s')"
    by (auto elim: bindR_Ok)
  from r1 obtain js where c2: "transTypes rec Ts s1 = (Ok js, s')" and ids: "ids = i # js"
    by (auto elim!: bindR_Ok)
  from w_soundD[OF r Cons.prems(1) c1] have g1: "w_Inv E Open s1" and f1: "w_frame s s1" and m1: "w_matches E s1 i T" by simp_all
  from Cons.IH[OF g1 c2] have g2: "w_Inv E Open s'" and f2: "w_frame s1 s'" and m2: "w_matchesAll E s' js Ts" by simp_all
  have "w_matches E s' i T" by (rule w_matches_frame[OF w_InvG[OF g1] f2 m1])
  then show ?case using g2 w_frame_trans[OF f1 f2] m2 ids by simp
qed

lemma w_sound_transConstantInt:
  assumes r: "w_sound E rec" and g: "w_Inv E Open s" and t: "transConstantInt rec E W V s = (Ok BV, s')"
  shows "w_Inv E Open s' \<and> w_frame s s'"
proof (cases "w_ValueMap s (W, V)")
  case (Some x)
  then show ?thesis using t g by (simp add: transConstantInt_def w_frame_refl)
next
  case None
  let ?s1 = "if W > 64 then snd (checkError (w_isAllowedToUseExtension E SPV_INTEL_arbitrary_precision_integers) SPIRVEC_InvalidBitWidth s) else s"
  have eq: "w_TypeMap ?s1 = w_TypeMap s" "w_entries ?s1 = w_entries s" "w_nextId ?s1 = w_nextId s"
    by (simp_all add: checkError_fields)
  have g1: "w_Inv E Open ?s1" by (rule w_Inv_cong[OF eq g])
  have f1: "w_frame s ?s1" by (rule w_frame_cong[OF eq])
  have t': "bindR (rec (IntegerTy W) ?s1) (\<lambda>BT s2.
                bindR (add (OpConstant BT (constantWords (numWords W) V)) s2) (\<lambda>BV s3.
                  (Ok BV, s3\<lparr>w_ValueMap := (w_ValueMap s3)((W, V) \<mapsto> BV)\<rparr>))) = (Ok BV, s')"
    using t None by (simp add: transConstantInt_def Let_def)
  from t' obtain BT s2 where c1: "rec (IntegerTy W) ?s1 = (Ok BT, s2)"
    and r1: "bindR (add (OpConstant BT (constantWords (numWords W) V)) s2) (\<lambda>BV s3.
                  (Ok BV, s3\<lparr>w_ValueMap := (w_ValueMap s3)((W, V) \<mapsto> BV)\<rparr>)) = (Ok BV, s')"
    by (rule bindR_Ok)
  from w_soundD[OF r g1 c1] have g2: "w_Inv E Open s2" and f2: "w_frame ?s1 s2" by simp_all
  from r1 obtain x s3 where c2: "add (OpConstant BT (constantWords (numWords W) V)) s2 = (Ok x, s3)"
    and s': "s' = s3\<lparr>w_ValueMap := (w_ValueMap s3)((W, V) \<mapsto> x)\<rparr>"
    by (auto elim!: bindR_Ok)
  from w_Inv_add[OF g2 c2] have g3: "w_Inv E Open s3" and f3: "w_frame s2 s3" by simp_all
  have "w_Inv E Open s'" unfolding s' by (rule w_Inv_cong[OF _ _ _ g3]) simp_all
  moreover have "w_frame s s'" using w_frame_trans[OF w_frame_trans[OF f1 f2] f3] unfolding s'
    by (simp add: w_frame_def w_after_def)
  ultimately show ?thesis by simp
qed

lemma w_sound_add_mapType:
  assumes iv: "w_Inv E Open s" and u: "w_TypeMap s T = None" and ns: "\<forall>k. T \<noteq> StructTy k"
    and new: "\<And>s3 P. w_entries s3 P = Some e \<Longrightarrow> w_matches E s3 P T"
    and t: "bindR (add e s) (mapType T) = (Ok i, s')"
  shows "w_Inv E Open s' \<and> w_frame s s' \<and> w_matches E s' i T"
proof (rule w_Goal_frame, rule w_finish[where N = "w_nextId s" and M = "w_TypeMap s" and ?e0.0 = "w_entries s", OF iv _ u ns _ t])
  show "w_after (w_nextId s) (w_TypeMap s) (w_entries s) s" using w_frame_refl[of s] by (simp add: w_frame_def)
qed (rule new)

lemma w_sound_transIntegerType:
  assumes iv: "w_Inv E Open s" and u: "w_TypeMap s (IntegerTy W) = None"
    and t: "transIntegerType E W s = (Ok i, s')"
  shows "w_Inv E Open s' \<and> w_frame s s' \<and> w_matches E s' i (IntegerTy W)"
proof (cases "W = 1")
  case True
  then have "bindR (add OpTypeBool s) (mapType (IntegerTy W)) = (Ok i, s')"
    using t by (simp add: transIntegerType_def)
  then show ?thesis by (rule w_sound_add_mapType[OF iv u, rotated 2]) (simp_all add: True)
next
  case False
  let ?c = "if w_isAllowedToUseExtension E SPV_INTEL_arbitrary_precision_integers
               then (True, s)
               else checkError (W = 8 \<or> W = 16 \<or> W = 32 \<or> W = 64) SPIRVEC_InvalidBitWidth s"
  obtain c s1 where c: "?c = (c, s1)" by (cases ?c)
  have eq: "w_TypeMap s1 = w_TypeMap s" "w_entries s1 = w_entries s" "w_nextId s1 = w_nextId s"
    using c checkError_eq_fields[of "W = 8 \<or> W = 16 \<or> W = 32 \<or> W = 64" SPIRVEC_InvalidBitWidth s c s1]
    by (auto split: if_splits)
  have b: "bindR (add (OpTypeInt W) s1) (mapType (IntegerTy W)) = (Ok i, s')"
    using t c False by (cases c) (auto simp: transIntegerType_def)
  have iv1: "w_Inv E Open s1" by (rule w_Inv_cong[OF eq iv])
  have u1: "w_TypeMap s1 (IntegerTy W) = None" using u eq by simp
  have "w_Inv E Open s' \<and> w_frame s1 s' \<and> w_matches E s' i (IntegerTy W)"
    by (rule w_sound_add_mapType[OF iv1 u1 _ _ b]) (use False in simp_all)
  then show ?thesis using w_frame_trans[OF w_frame_cong[OF eq]] by blast
qed

lemma w_sound_transPointerType:
  assumes r: "w_sound E rec" and iv: "w_Inv E Open s" and u: "w_TypeMap s (PointerTy ET A) = None"
    and t: "transPointerType rec E ET A s = (Ok i, s')"
  shows "w_Inv E Open s' \<and> w_frame s s' \<and> w_matches E s' i (PointerTy ET A)"
proof -
  let ?c = "(case ET of FunctionTy R Ps \<Rightarrow> checkExtension E SPV_INTEL_function_pointers SPIRVEC_FunctionPointers s
            | _ \<Rightarrow> (True, s))"
  obtain c s1 where c: "?c = (c, s1)" by (cases ?c)
  have eq: "w_TypeMap s1 = w_TypeMap s" "w_entries s1 = w_entries s" "w_nextId s1 = w_nextId s"
    using c by (cases ET; auto simp: checkExtension_def dest: checkError_eq_fields)+
  let ?g = "\<lambda>s1. bindR (rec ET s1) (\<lambda>BET s2.
                 bindR (add (OpTypePointer (w_SPIRSPIRVAddrSpaceMap E A) BET) s2)
                   (mapType (PointerTy ET A)))"
  have b: "?g s1 = (Ok i, s')"
    using t c by (cases c) (auto simp: transPointerType_def split: if_splits)
  have iv1: "w_Inv E Open s1" by (rule w_Inv_cong[OF eq iv])
  have f1: "w_frame s s1" by (rule w_frame_cong[OF eq])
  from b obtain BET s2 where c1: "rec ET s1 = (Ok BET, s2)"
    and fin: "bindR (add (OpTypePointer (w_SPIRSPIRVAddrSpaceMap E A) BET) s2) (mapType (PointerTy ET A)) = (Ok i, s')"
    by (rule bindR_Ok)
  from w_soundD[OF r iv1 c1] have iv2: "w_Inv E Open s2" and f2: "w_frame s1 s2" and m2: "w_matches E s2 BET ET"
    by simp_all
  have a2: "w_after (w_nextId s) (w_TypeMap s) (w_entries s) s2"
    using w_frame_trans[OF f1 f2] by (simp add: w_frame_def)
  show ?thesis
  proof (rule w_Goal_frame, rule w_finish[where N = "w_nextId s" and M = "w_TypeMap s" and ?e0.0 = "w_entries s", OF iv2 a2 u _ _ fin])
    fix s3 P assume "w_entries s3 P = Some (OpTypePointer (w_SPIRSPIRVAddrSpaceMap E A) BET)"
      "\<forall>j T'. w_matches E s2 j T' \<longrightarrow> w_matches E s3 j T'"
    then show "w_matches E s3 P (PointerTy ET A)" using m2 by simp
  qed simp
qed

lemma w_sound_transVectorType:
  assumes r: "w_sound E rec" and iv: "w_Inv E Open s" and u: "w_TypeMap s (VectorTy ET N) = None"
    and t: "bindR (rec ET s) (\<lambda>BElTy s1. bindR (add (OpTypeVector BElTy N) s1) (mapType (VectorTy ET N))) = (Ok i, s')"
  shows "w_Inv E Open s' \<and> w_frame s s' \<and> w_matches E s' i (VectorTy ET N)"
proof -
  from t obtain BET s2 where c1: "rec ET s = (Ok BET, s2)"
    and fin: "bindR (add (OpTypeVector BET N) s2) (mapType (VectorTy ET N)) = (Ok i, s')"
    by (rule bindR_Ok)
  from w_soundD[OF r iv c1] have iv2: "w_Inv E Open s2" and f2: "w_frame s s2" and m2: "w_matches E s2 BET ET"
    by simp_all
  have a2: "w_after (w_nextId s) (w_TypeMap s) (w_entries s) s2"
    using f2 by (simp add: w_frame_def)
  show ?thesis
  proof (rule w_Goal_frame, rule w_finish[where N = "w_nextId s" and M = "w_TypeMap s" and ?e0.0 = "w_entries s", OF iv2 a2 u _ _ fin])
    fix s3 P assume "w_entries s3 P = Some (OpTypeVector BET N)"
      "\<forall>j T'. w_matches E s2 j T' \<longrightarrow> w_matches E s3 j T'"
    then show "w_matches E s3 P (VectorTy ET N)" using m2 by simp
  qed simp
qed

lemma w_sound_transArrayType:
  assumes r: "w_sound E rec" and iv: "w_Inv E Open s" and u: "w_TypeMap s (ArrayTy ET N) = None"
    and t: "transArrayType rec E ET N s = (Ok i, s')"
  shows "w_Inv E Open s' \<and> w_frame s s' \<and> w_matches E s' i (ArrayTy ET N)"
proof -
  let ?s1 = "if N < 1 then snd (checkError (N \<ge> 1) SPIRVEC_InvalidArraySize s) else s"
  let ?g = "\<lambda>s1. bindR (rec ET s1) (\<lambda>BElTy s2.
           bindR (transConstantInt rec E (w_sizetBits E) (int N) s2) (\<lambda>Length s3.
             bindR (add (OpTypeArray BElTy Length) s3) (mapType (ArrayTy ET N))))"
  have b: "?g ?s1 = (Ok i, s')" using t by (simp add: transArrayType_def Let_def)
  have eq: "w_TypeMap ?s1 = w_TypeMap s" "w_entries ?s1 = w_entries s" "w_nextId ?s1 = w_nextId s"
    by (simp_all add: checkError_fields)
  have iv1: "w_Inv E Open ?s1" by (rule w_Inv_cong[OF eq iv])
  have f1: "w_frame s ?s1" by (rule w_frame_cong[OF eq])
  from b obtain BET s2 where c1: "rec ET ?s1 = (Ok BET, s2)"
    and b2: "bindR (transConstantInt rec E (w_sizetBits E) (int N) s2) (\<lambda>Length s3.
             bindR (add (OpTypeArray BET Length) s3) (mapType (ArrayTy ET N))) = (Ok i, s')"
    by (rule bindR_Ok)
  from b2 obtain L s3 where c2: "transConstantInt rec E (w_sizetBits E) (int N) s2 = (Ok L, s3)"
    and fin: "bindR (add (OpTypeArray BET L) s3) (mapType (ArrayTy ET N)) = (Ok i, s')"
    by (rule bindR_Ok)
  from w_soundD[OF r iv1 c1] have iv2: "w_Inv E Open s2" and f2: "w_frame ?s1 s2" and m2: "w_matches E s2 BET ET"
    by simp_all
  from w_sound_transConstantInt[OF r iv2 c2] have iv3: "w_Inv E Open s3" and f3: "w_frame s2 s3" by simp_all
  have m3: "w_matches E s3 BET ET" by (rule w_matches_frame[OF w_InvG[OF iv2] f3 m2])
  have a3: "w_after (w_nextId s) (w_TypeMap s) (w_entries s) s3"
    using w_frame_trans[OF w_frame_trans[OF f1 f2] f3] by (simp add: w_frame_def)
  show ?thesis
  proof (rule w_Goal_frame, rule w_finish[where N = "w_nextId s" and M = "w_TypeMap s" and ?e0.0 = "w_entries s", OF iv3 a3 u _ _ fin])
    fix s4 P assume "w_entries s4 P = Some (OpTypeArray BET L)"
      "\<forall>j T'. w_matches E s3 j T' \<longrightarrow> w_matches E s4 j T'"
    then show "w_matches E s4 P (ArrayTy ET N)" using m3 by simp
  qed simp
qed

lemma w_sound_transFunctionType:
  assumes r: "w_sound E rec" and iv: "w_Inv E Open s" and u: "w_TypeMap s (FunctionTy R Ps) = None"
    and t: "bindR (rec R s) (\<lambda>RT s1.
                bindR (transTypes rec Ps s1) (\<lambda>PT s2.
                  bindR (add (OpTypeFunction RT PT) s2) (mapType (FunctionTy R Ps)))) = (Ok i, s')"
  shows "w_Inv E Open s' \<and> w_frame s s' \<and> w_matches E s' i (FunctionTy R Ps)"
proof -
  from t obtain RT s1 where c1: "rec R s = (Ok RT, s1)"
    and b2: "bindR (transTypes rec Ps s1) (\<lambda>PT s2.
                  bindR (add (OpTypeFunction RT PT) s2) (mapType (FunctionTy R Ps))) = (Ok i, s')"
    by (rule bindR_Ok)
  from b2 obtain PT s2 where c2: "transTypes rec Ps s1 = (Ok PT, s2)"
    and fin: "bindR (add (OpTypeFunction RT PT) s2) (mapType (FunctionTy R Ps)) = (Ok i, s')"
    by (rule bindR_Ok)
  from w_soundD[OF r iv c1] have iv1: "w_Inv E Open s1" and f1: "w_frame s s1" and m1: "w_matches E s1 RT R"
    by simp_all
  from w_sound_transTypes[OF r iv1 c2] have iv2: "w_Inv E Open s2" and f2: "w_frame s1 s2"
    and m2: "w_matchesAll E s2 PT Ps" by simp_all
  have m1': "w_matches E s2 RT R" by (rule w_matches_frame[OF w_InvG[OF iv1] f2 m1])
  have a2: "w_after (w_nextId s) (w_TypeMap s) (w_entries s) s2"
    using w_frame_trans[OF f1 f2] by (simp add: w_frame_def)
  show ?thesis
  proof (rule w_Goal_frame, rule w_finish[where N = "w_nextId s" and M = "w_TypeMap s" and ?e0.0 = "w_entries s", OF iv2 a2 u _ _ fin])
    fix s3 P assume "w_entries s3 P = Some (OpTypeFunction RT PT)"
      "\<forall>j T'. w_matches E s2 j T' \<longrightarrow> w_matches E s3 j T'"
      "\<forall>js Ts. w_matchesAll E s2 js Ts \<longrightarrow> w_matchesAll E s3 js Ts"
    then show "w_matches E s3 P (FunctionTy R Ps)" using m1' m2 by simp
  qed simp
qed

lemma w_Complete_insert: "w_Complete E Open s \<Longrightarrow> w_Complete E (insert k Open) s"
  by (auto simp: w_Complete_def)

lemma w_Inv_insert: "w_Inv E Open s \<Longrightarrow> w_Inv E (insert k Open) s"
  by (simp add: w_Inv_def w_Complete_insert)

text \<open>A change of the members, the packing or the closing of the entry of a struct under
  translation.\<close>

lemma w_Inv_update:
  assumes iv: "w_Inv E Open st" and tm: "w_TypeMap st (StructTy k) = Some Struct" and ko: "k \<in> Open"
    and en: "w_entries st Struct = Some (OpTypeStruct nm ms p c)"
    and st': "st' = st\<lparr>w_entries := (w_entries st)(Struct \<mapsto> OpTypeStruct nm' ms' p' c')\<rparr>"
  shows "w_Inv E Open st'" and "\<And>j T. w_matches E st j T \<Longrightarrow> w_matches E st' j T"
proof -
  note g = w_InvG[OF iv]
  have sh: "\<forall>i. w_sameShape (w_entries st i) (w_entries st' i)"
    using en st' by (auto simp: w_sameShape_def split: option.splits SPIRVEntry.splits)
  have tmeq: "w_TypeMap st' = w_TypeMap st" "w_nextId st' = w_nextId st" using st' by simp_all
  show lift: "\<And>j T. w_matches E st j T \<Longrightarrow> w_matches E st' j T"
    by (rule w_matches_cong(1)[OF sh]) (simp_all add: tmeq)
  have "w_Good E st'" unfolding w_Good_def
  proof (intro conjI allI impI)
    fix T i assume a: "w_TypeMap st' T = Some i"
    then show "w_matches E st' i T" using w_GoodM[OF g, of T i] lift tmeq by simp
    show "i < w_nextId st'" using a w_GoodL[OF g, of T i] tmeq by simp
  next
    fix i x assume "w_entries st' i = Some x"
    then show "i < w_nextId st'" using w_GoodB[OF g, of i] w_GoodB[OF g en] st' by (auto split: if_splits)
  next
    fix k k' i assume "w_TypeMap st' (StructTy k) = Some i" "w_TypeMap st' (StructTy k') = Some i"
    then show "k = k'" using w_GoodI[OF g, of k i k'] tmeq by simp
  qed
  moreover have "w_Complete E Open st'" unfolding w_Complete_def
  proof (intro allI impI)
    fix k' i assume a: "w_TypeMap st' (StructTy k') = Some i \<and> k' \<notin> Open"
    then have m: "w_TypeMap st (StructTy k') = Some i" and "k' \<noteq> k" using tmeq ko by auto
    then have ne: "i \<noteq> Struct" using w_GoodI[OF g m, of k] tm by auto
    have "w_done E st k' i" using w_InvC[OF iv] a m by (simp add: w_Complete_def)
    then show "w_done E st' k' i"
      by (rule w_done_mono[where s = st, rotated 2]) (use ne st' lift in auto)
  qed
  ultimately show "w_Inv E Open st'" by (simp add: w_Inv_def)
qed

lemma w_Inv_mapStruct:
  assumes iv: "w_Inv E Open s1" and u: "w_TypeMap s1 (StructTy k) = None" and b: "P < w_nextId s1"
    and fr: "\<forall>T. w_TypeMap s1 T \<noteq> Some P"
    and d: "k \<notin> Open \<Longrightarrow> w_done E s1 k P"
    and s2: "s2 = s1\<lparr>w_TypeMap := (w_TypeMap s1)(StructTy k \<mapsto> P)\<rparr>"
  shows "w_Inv E Open s2" and "\<And>j T. w_matches E s1 j T \<Longrightarrow> w_matches E s2 j T"
proof -
  note g = w_InvG[OF iv]
  show lift: "\<And>j T. w_matches E s1 j T \<Longrightarrow> w_matches E s2 j T"
    by (rule w_matches_mono(1)) (use u s2 in auto)
  have "w_Good E s2" unfolding w_Good_def
  proof (intro conjI allI impI)
    fix T i assume a: "w_TypeMap s2 T = Some i"
    show "w_matches E s2 i T"
    proof (cases "T = StructTy k")
      case True then show ?thesis using a s2 by simp
    next
      case False then show ?thesis using a s2 w_GoodM[OF g, of T i] lift by simp
    qed
    show "i < w_nextId s2" using a b s2 w_GoodL[OF g, of T i] by (auto split: if_splits)
  next
    fix i x assume "w_entries s2 i = Some x"
    then show "i < w_nextId s2" using w_GoodB[OF g, of i] s2 by simp
  next
    fix k1 k2 i assume "w_TypeMap s2 (StructTy k1) = Some i" "w_TypeMap s2 (StructTy k2) = Some i"
    then show "k1 = k2" using w_GoodI[OF g, of k1 i k2] fr s2 by (auto split: if_splits)
  qed
  moreover have "w_Complete E Open s2" unfolding w_Complete_def
  proof (intro allI impI)
    fix k' i assume a: "w_TypeMap s2 (StructTy k') = Some i \<and> k' \<notin> Open"
    have "w_done E s1 k' i"
    proof (cases "k' = k")
      case True then show ?thesis using a d s2 by simp
    next
      case False then show ?thesis using a s2 w_InvC[OF iv] by (simp add: w_Complete_def)
    qed
    then show "w_done E s2 k' i"
      by (rule w_done_mono[where s = s1, rotated 2]) (use s2 lift in auto)
  qed
  ultimately show "w_Inv E Open s2" by (simp add: w_Inv_def)
qed

lemma splitForwardRefs_set:
  "splitForwardRefs n S ST L = Some (now, later) \<Longrightarrow> set now \<union> set later = set L"
proof (induction L arbitrary: now later)
  case Nil
  then show ?case by simp
next
  case (Cons m rest)
  obtain I T where m: "m = (I, T)" by (cases m)
  show ?case
  proof (cases "splitForwardRefs n S ST rest")
    case None
    then show ?thesis using Cons.prems m by simp
  next
    case (Some p)
    obtain now' later' where p: "p = (now', later')" by (cases p)
    from Cons.IH[OF Some[unfolded p]] have ih: "set now' \<union> set later' = set rest" .
    show ?thesis
    proof (cases "isCompositeOrPointer T")
      case False
      then have "now = (I, T) # now'" "later = later'" using Cons.prems m Some p by simp_all
      then show ?thesis using ih m by auto
    next
      case True
      show ?thesis
      proof (cases "recursiveType n S ST T")
        case None
        then show ?thesis using Cons.prems m Some p True by simp
      next
        case (Some b)
        show ?thesis
        proof (cases b)
          case True
          then have "now = now'" "later = (I, T) # later'"
            using Cons.prems m \<open>splitForwardRefs n S ST rest = Some p\<close> p \<open>isCompositeOrPointer T\<close> Some by simp_all
          then show ?thesis using ih m by auto
        next
          case False
          then have "now = (I, T) # now'" "later = later'"
            using Cons.prems m \<open>splitForwardRefs n S ST rest = Some p\<close> p \<open>isCompositeOrPointer T\<close> Some by simp_all
          then show ?thesis using ih m by auto
        qed
      qed
    qed
  qed
qed

lemma w_building_lift:
  assumes b: "w_building E els Struct nm p c D st"
    and e: "w_entries st' Struct = w_entries st Struct"
    and l: "\<And>j T. w_matches E st j T \<Longrightarrow> w_matches E st' j T"
  shows "w_building E els Struct nm p c D st'"
  using b e w_memberOk_mono[of E st st', OF l] unfolding w_building_def by metis

lemma setMemberTypes_sound:
  assumes r: "w_sound E rec" and ko: "k \<in> Open" and NS: "N \<le> Struct"
  shows "w_Inv E Open st \<Longrightarrow> w_after N M e0 st \<Longrightarrow> w_TypeMap st (StructTy k) = Some Struct \<Longrightarrow>
         w_building E els Struct nm p c D st \<Longrightarrow> (\<forall>(I, T) \<in> set L. I < length els \<and> T = els ! I) \<Longrightarrow>
         setMemberTypes rec Struct L st = (Ok x, st') \<Longrightarrow>
         w_Inv E Open st' \<and> w_after N M e0 st' \<and> w_TypeMap st' (StructTy k) = Some Struct
         \<and> w_building E els Struct nm p c (D \<union> fst ` set L) st'"
proof (induction L arbitrary: st D)
  case Nil
  then show ?case by simp
next
  case (Cons m rest)
  obtain I T where m: "m = (I, T)" by (cases m)
  have IT: "I < length els" "T = els ! I" using Cons.prems(5) m by auto
  note iv = Cons.prems(1)
  note g = w_InvG[OF iv]
  from Cons.prems(6) m have b0: "bindR (rec T st) (\<lambda>BT s1.
       bindR (setMemberType Struct I BT s1) (\<lambda>_ s2. setMemberTypes rec Struct rest s2)) = (Ok x, st')"
    by simp
  from b0 obtain BT s1 where c1: "rec T st = (Ok BT, s1)"
    and b1: "bindR (setMemberType Struct I BT s1) (\<lambda>_ s2. setMemberTypes rec Struct rest s2) = (Ok x, st')"
    by (rule bindR_Ok)
  from b1 obtain y s2 where c2: "setMemberType Struct I BT s1 = (Ok y, s2)"
    and c3: "setMemberTypes rec Struct rest s2 = (Ok x, st')"
    by (rule bindR_Ok)
  from w_soundD[OF r iv c1] have iv1: "w_Inv E Open s1" and f1: "w_frame st s1" and m1: "w_matches E s1 BT T"
    by simp_all
  have a1: "w_after N M e0 s1" by (rule w_after_frame[OF Cons.prems(2) f1])
  have t1: "w_TypeMap s1 (StructTy k) = Some Struct"
    using f1 Cons.prems(3) by (simp add: w_frame_def w_after_def)
  from Cons.prems(4) obtain ms0 where en0: "w_entries st Struct = Some (OpTypeStruct nm ms0 p c)"
    by (auto simp: w_building_def)
  have lt: "Struct < w_nextId st" by (rule w_GoodB[OF g en0])
  have e1: "w_entries s1 Struct = w_entries st Struct"
    using f1 lt by (simp add: w_frame_def w_after_def)
  have bd1: "w_building E els Struct nm p c D s1"
    by (rule w_building_lift[OF Cons.prems(4) e1]) (rule w_matches_frame[OF g f1])
  from bd1 obtain ms where en1: "w_entries s1 Struct = Some (OpTypeStruct nm ms p c)"
    and len: "length ms = length els"
    and ok: "\<forall>J \<in> D. J < length els \<longrightarrow> w_memberOk E s1 (ms ! J) (els ! J)"
    by (auto simp: w_building_def)
  have s2: "s2 = s1\<lparr>w_entries := (w_entries s1)(Struct \<mapsto> OpTypeStruct nm (ms[I := Some BT]) p c)\<rparr>"
    using c2 en1 len IT by (simp add: setMemberType_def)
  note up = w_Inv_update[OF iv1 t1 ko en1 s2]
  have a2: "w_after N M e0 s2" using a1 NS s2 by (auto simp: w_after_def)
  have t2: "w_TypeMap s2 (StructTy k) = Some Struct" using t1 s2 by simp
  have bd2: "w_building E els Struct nm p c (insert I D) s2"
    unfolding w_building_def
  proof (intro exI[of _ "ms[I := Some BT]"] conjI ballI impI)
    show "w_entries s2 Struct = Some (OpTypeStruct nm (ms[I := Some BT]) p c)" using s2 by simp
    show "length (ms[I := Some BT]) = length els" using len by simp
    fix J assume J: "J \<in> insert I D" "J < length els"
    show "w_memberOk E s2 (ms[I := Some BT] ! J) (els ! J)"
    proof (cases "J = I")
      case True
      then show ?thesis using up(2)[OF m1] IT len by (simp add: w_memberOk_def)
    next
      case False
      then have "w_memberOk E s1 (ms ! J) (els ! J)" using J ok by auto
      then have "w_memberOk E s2 (ms ! J) (els ! J)" using up(2) by (rule w_memberOk_mono[rotated])
      then show ?thesis using False by simp
    qed
  qed
  have rest: "\<forall>(I, T) \<in> set rest. I < length els \<and> T = els ! I" using Cons.prems(5) by simp
  from Cons.IH[OF up(1) a2 t2 bd2 rest c3]
  show ?case using m by simp
qed

lemma zip_upt_set: "(I, T) \<in> set (zip [0 ..< length els] els) \<longleftrightarrow> I < length els \<and> T = els ! I"
  by (auto simp: in_set_zip intro!: exI[of _ I])

lemma w_sound_transStructType:
  assumes r: "w_sound E rec" and iv: "w_Inv E Open s" and u: "w_TypeMap s (StructTy k) = None"
    and t: "transStructType rec n E k s = (Ok i, s')"
  shows "w_Inv E Open s' \<and> w_frame s s' \<and> w_matches E s' i (StructTy k)"
proof (cases "st_elements (w_structs E k)")
  case None
  let ?e = "OpTypeOpaque (st_name (w_structs E k))"
  have b: "bindR (add ?e s) (mapType (StructTy k)) = (Ok i, s')"
    using t None by (auto simp: transStructType_def split: if_splits)
  obtain ra s1 where ad: "add ?e s = (ra, s1)" by (cases "add ?e s")
  from w_Inv_add[OF iv ad] have ra: "ra = Ok (w_nextId s)" and i1: "w_Inv E Open s1" and f1: "w_frame s s1"
    and e1: "w_entries s1 (w_nextId s) = Some ?e" and n1: "w_nextId s1 = Suc (w_nextId s)"
    and t1: "w_TypeMap s1 = w_TypeMap s" by simp_all
  have s': "s' = s1\<lparr>w_TypeMap := (w_TypeMap s1)(StructTy k \<mapsto> w_nextId s)\<rparr>" and i: "i = w_nextId s"
    using b ad ra by (auto simp: bindR_def mapType_def)
  have fr: "\<forall>T. w_TypeMap s1 T \<noteq> Some (w_nextId s)"
    using w_GoodL[OF w_InvG[OF iv]] t1 by (metis less_irrefl)
  have d: "w_done E s1 k (w_nextId s)" using None e1 by (simp add: w_done_def)
  have "w_Inv E Open s'"
    by (rule w_Inv_mapStruct(1)[OF i1 _ _ fr d s']) (use u t1 n1 in simp_all)
  moreover have "w_frame s s'" using f1 u unfolding s' w_frame_def by (rule w_after_mapType)
  moreover have "w_matches E s' i (StructTy k)" using s' i by simp
  ultimately show ?thesis by simp
next
  case (Some els)
  let ?nm = "st_name (w_structs E k)"
  let ?pk = "st_isPacked (w_structs E k)"
  let ?e = "OpTypeStruct ?nm (replicate (length els) None) False False"
  let ?O = "insert k Open"
  let ?N = "w_nextId s" let ?M = "w_TypeMap s" let ?en = "w_entries s"
  let ?g = "\<lambda>s. bindR (add ?e s) (\<lambda>Struct s1.
            bindR (mapType (StructTy k) Struct s1) (\<lambda>_ s2.
              case splitForwardRefs n (w_structs E) k (zip [0 ..< length els] els) of
                None \<Rightarrow> (OutOfFuel, s2)
              | Some (now, ForwardRefs) \<Rightarrow>
                  bindR (setMemberTypes rec Struct now s2) (\<lambda>_ s3.
                  bindR (closeStructType Struct ?pk s3) (\<lambda>_ s4.
                  bindR (setMemberTypes rec Struct ForwardRefs s4) (\<lambda>_ s5.
                    (Ok Struct, s5))))))"
  have b: "?g s = (Ok i, s')" using t Some by (auto simp: transStructType_def split: if_splits)
  from b obtain Struct s1 where ad: "add ?e s = (Ok Struct, s1)"
    and b1: "bindR (mapType (StructTy k) Struct s1) (\<lambda>_ s2.
              case splitForwardRefs n (w_structs E) k (zip [0 ..< length els] els) of
                None \<Rightarrow> (OutOfFuel, s2)
              | Some (now, ForwardRefs) \<Rightarrow>
                  bindR (setMemberTypes rec Struct now s2) (\<lambda>_ s3.
                  bindR (closeStructType Struct ?pk s3) (\<lambda>_ s4.
                  bindR (setMemberTypes rec Struct ForwardRefs s4) (\<lambda>_ s5.
                    (Ok Struct, s5))))) = (Ok i, s')"
    by (rule bindR_Ok)
  from w_Inv_add[OF iv ad] have S: "Struct = w_nextId s" and i1: "w_Inv E Open s1" and f1: "w_frame s s1"
    and e1: "w_entries s1 Struct = Some ?e" and n1: "w_nextId s1 = Suc (w_nextId s)"
    and t1: "w_TypeMap s1 = w_TypeMap s" by simp_all
  let ?s2 = "s1\<lparr>w_TypeMap := (w_TypeMap s1)(StructTy k \<mapsto> Struct)\<rparr>"
  obtain now later where sp: "splitForwardRefs n (w_structs E) k (zip [0 ..< length els] els) = Some (now, later)"
    using b1 by (cases "splitForwardRefs n (w_structs E) k (zip [0 ..< length els] els)")
                (auto simp: mapType_def bindR_def)
  have b2: "bindR (setMemberTypes rec Struct now ?s2) (\<lambda>_ s3.
                  bindR (closeStructType Struct ?pk s3) (\<lambda>_ s4.
                  bindR (setMemberTypes rec Struct later s4) (\<lambda>_ s5.
                    (Ok Struct, s5)))) = (Ok i, s')"
    using b1 sp by (simp add: mapType_def bindR_def)
  from b2 obtain x3 s3 where c3: "setMemberTypes rec Struct now ?s2 = (Ok x3, s3)"
    and b3: "bindR (closeStructType Struct ?pk s3) (\<lambda>_ s4.
                  bindR (setMemberTypes rec Struct later s4) (\<lambda>_ s5.
                    (Ok Struct, s5))) = (Ok i, s')"
    by (rule bindR_Ok)
  from b3 obtain x4 s4 where c4: "closeStructType Struct ?pk s3 = (Ok x4, s4)"
    and b4: "bindR (setMemberTypes rec Struct later s4) (\<lambda>_ s5. (Ok Struct, s5)) = (Ok i, s')"
    by (rule bindR_Ok)
  from b4 obtain x5 where c5: "setMemberTypes rec Struct later s4 = (Ok x5, s')" and i: "i = Struct"
    by (auto elim!: bindR_Ok)
  have fr: "\<forall>T. w_TypeMap s1 T \<noteq> Some Struct"
    using w_GoodL[OF w_InvG[OF iv]] t1 S by (metis less_irrefl)
  have i2: "w_Inv E ?O ?s2"
    by (rule w_Inv_mapStruct(1)[OF w_Inv_insert[OF i1] _ _ fr _ refl]) (use u t1 n1 S in simp_all)
  have a2: "w_after ?N ?M ?en ?s2" using f1 u unfolding w_frame_def by (rule w_after_mapType)
  have t2: "w_TypeMap ?s2 (StructTy k) = Some Struct" by simp
  have bd2: "w_building E els Struct ?nm False False {} ?s2"
    using e1 by (simp add: w_building_def)
  have parts: "set now \<union> set later = set (zip [0 ..< length els] els)"
    by (rule splitForwardRefs_set[OF sp])
  have pn: "\<forall>(I, T) \<in> set now. I < length els \<and> T = els ! I"
    using parts zip_upt_set[of _ _ els] by blast
  have pl: "\<forall>(I, T) \<in> set later. I < length els \<and> T = els ! I"
    using parts zip_upt_set[of _ _ els] by blast
  have NS: "?N \<le> Struct" using S by simp
  from setMemberTypes_sound[OF r _ NS i2 a2 t2 bd2 pn c3]
  have i3: "w_Inv E ?O s3" and a3: "w_after ?N ?M ?en s3" and t3: "w_TypeMap s3 (StructTy k) = Some Struct"
    and bd3: "w_building E els Struct ?nm False False ({} \<union> fst ` set now) s3" by simp_all
  from bd3 obtain ms3 where en3: "w_entries s3 Struct = Some (OpTypeStruct ?nm ms3 False False)"
    and len3: "length ms3 = length els"
    and ok3: "\<forall>I \<in> fst ` set now. I < length els \<longrightarrow> w_memberOk E s3 (ms3 ! I) (els ! I)"
    by (auto simp: w_building_def)
  have s4: "s4 = s3\<lparr>w_entries := (w_entries s3)(Struct \<mapsto> OpTypeStruct ?nm ms3 ?pk True)\<rparr>"
    using c4 en3 by (simp add: closeStructType_def)
  note up = w_Inv_update[OF i3 t3 _ en3 s4, simplified]
  have a4: "w_after ?N ?M ?en s4" using a3 NS s4 by (auto simp: w_after_def)
  have t4: "w_TypeMap s4 (StructTy k) = Some Struct" using t3 s4 by simp
  have bd4: "w_building E els Struct ?nm ?pk True (fst ` set now) s4"
    unfolding w_building_def
  proof (intro exI[of _ ms3] conjI ballI impI)
    show "w_entries s4 Struct = Some (OpTypeStruct ?nm ms3 ?pk True)" using s4 by simp
    show "length ms3 = length els" by (rule len3)
    fix I assume "I \<in> fst ` set now" "I < length els"
    then have "w_memberOk E s3 (ms3 ! I) (els ! I)" using ok3 by blast
    then show "w_memberOk E s4 (ms3 ! I) (els ! I)" using up(2) by (rule w_memberOk_mono[rotated])
  qed
  from setMemberTypes_sound[OF r _ NS up(1) a4 t4 bd4 pl c5]
  have i5: "w_Inv E ?O s'" and a5: "w_after ?N ?M ?en s'" and t5: "w_TypeMap s' (StructTy k) = Some Struct"
    and bd5: "w_building E els Struct ?nm ?pk True (fst ` set now \<union> fst ` set later) s'" by simp_all
  have all: "fst ` set now \<union> fst ` set later = {0 ..< length els}"
  proof -
    have "fst ` set now \<union> fst ` set later = fst ` set (zip [0 ..< length els] els)"
      using parts by (metis image_Un)
    also have "\<dots> = {0 ..< length els}"
      by (simp add: map_fst_zip flip: set_map)
    finally show ?thesis .
  qed
  from bd5 obtain ms where en5: "w_entries s' Struct = Some (OpTypeStruct ?nm ms ?pk True)"
    and len5: "length ms = length els"
    and ok5: "\<forall>I < length els. w_memberOk E s' (ms ! I) (els ! I)"
    unfolding all by (auto simp: w_building_def)
  have d: "w_done E s' k Struct"
    using Some en5 len5 ok5 by (simp add: w_done_def list_all2_conv_all_nth)
  have "w_Complete E Open s'" unfolding w_Complete_def
  proof (intro allI impI)
    fix k' j assume a: "w_TypeMap s' (StructTy k') = Some j \<and> k' \<notin> Open"
    show "w_done E s' k' j"
    proof (cases "k' = k")
      case True then show ?thesis using a t5 d by simp
    next
      case False then show ?thesis using a w_InvC[OF i5] by (simp add: w_Complete_def)
    qed
  qed
  then have "w_Inv E Open s'" using w_InvG[OF i5] by (simp add: w_Inv_def)
  moreover have "w_frame s s'" using a5 by (simp add: w_frame_def)
  moreover have "w_matches E s' i (StructTy k)" using t5 i by simp
  ultimately show ?thesis by simp
qed

lemma w_sound_body:
  assumes r: "w_sound E rec"
  shows "w_sound E (transType_body rec n E)"
  unfolding w_sound_def
proof (intro allI impI)
  fix Open T s i s'
  assume iv: "w_Inv E Open s" and t: "transType_body rec n E T s = (Ok i, s')"
  show "w_Inv E Open s' \<and> w_frame s s' \<and> w_matches E s' i T"
  proof (cases "w_TypeMap s T")
    case (Some BT)
    then have "s' = s" "i = BT" using t by (simp_all add: transType_body_def)
    then show ?thesis using iv w_GoodM[OF w_InvG[OF iv] Some] by (simp add: w_frame_refl)
  next
    case None
    show ?thesis
    proof (cases T)
      case VoidTy
      have "bindR (add OpTypeVoid s) (mapType T) = (Ok i, s')"
        using t None VoidTy by (simp add: transType_body_def)
      then show ?thesis by (rule w_sound_add_mapType[OF iv None, rotated 2]) (simp_all add: VoidTy)
    next
      case (IntegerTy W)
      then show ?thesis using w_sound_transIntegerType[OF iv, of W i s'] t None
        by (simp add: transType_body_def)
    next
      case (FloatingPointTy B)
      have "bindR (add (OpTypeFloat B) s) (mapType T) = (Ok i, s')"
        using t None FloatingPointTy by (simp add: transType_body_def)
      then show ?thesis by (rule w_sound_add_mapType[OF iv None, rotated 2]) (simp_all add: FloatingPointTy)
    next
      case (PointerTy ET A)
      then show ?thesis using w_sound_transPointerType[OF r iv, of ET A i s'] t None
        by (simp add: transType_body_def)
    next
      case (VectorTy ET N)
      then show ?thesis using w_sound_transVectorType[OF r iv, of ET N i s'] t None
        by (simp add: transType_body_def)
    next
      case (ArrayTy ET N)
      then show ?thesis using w_sound_transArrayType[OF r iv, of ET N i s'] t None
        by (simp add: transType_body_def)
    next
      case (FunctionTy R Ps)
      then show ?thesis using w_sound_transFunctionType[OF r iv, of R Ps i s'] t None
        by (simp add: transType_body_def)
    next
      case (StructTy k)
      then show ?thesis using w_sound_transStructType[OF r iv, of k n i s'] t None
        by (simp add: transType_body_def)
    qed
  qed
qed

lemma w_sound_transType: "w_sound E (transType n E)"
proof (induction n)
  case 0
  show ?case by (simp add: w_sound_def)
next
  case (Suc n)
  have "transType (Suc n) E = transType_body (transType n E) n E" by (intro ext) simp
  then show ?case using w_sound_body[OF Suc] by simp
qed

lemma tsize_param: "P \<in> set Ps \<Longrightarrow> tsize P \<le> sum_list (map tsize Ps)"
  by (induction Ps) auto

lemma halts_fixed: "fst v \<noteq> OutOfFuel \<Longrightarrow> halts (\<lambda>m. v)"
  unfolding halts_def by (cases v) auto

lemma halts_bindR:
  assumes f: "halts f" and g: "\<And>m x s1. f m = (Ok x, s1) \<Longrightarrow> halts (\<lambda>m. g m x s1)"
  shows "halts (\<lambda>m. bindR (f m) (g m))"
proof -
  from f obtain n r s' where r: "r \<noteq> OutOfFuel" and n: "\<forall>m \<ge> n. f m = (r, s')"
    unfolding halts_def by blast
  show ?thesis
  proof (cases r)
    case (Ok x)
    have "f n = (Ok x, s')" using n Ok by simp
    from g[OF this] obtain n2 r2 s2 where r2: "r2 \<noteq> OutOfFuel" and n2: "\<forall>m \<ge> n2. g m x s' = (r2, s2)"
      unfolding halts_def by blast
    have "\<forall>m \<ge> max n n2. bindR (f m) (g m) = (r2, s2)" using n n2 Ok by (simp add: bindR_def)
    then show ?thesis unfolding halts_def using r2 by blast
  next
    case (Fail e)
    have "\<forall>m \<ge> n. bindR (f m) (g m) = (Fail e, s')" using n Fail by (simp add: bindR_def)
    then show ?thesis unfolding halts_def by blast
  next
    case OutOfFuel
    then show ?thesis using r by simp
  next
    case Unmodelled
    have "\<forall>m \<ge> n. bindR (f m) (g m) = (Unmodelled, s')" using n Unmodelled by (simp add: bindR_def)
    then show ?thesis unfolding halts_def by blast
  qed
qed

lemma halts_shift: "halts (\<lambda>m. f (Suc m)) \<Longrightarrow> halts f"
proof -
  assume "halts (\<lambda>m. f (Suc m))"
  then obtain n r s' where r: "r \<noteq> OutOfFuel" and n: "\<forall>m \<ge> n. f (Suc m) = (r, s')"
    unfolding halts_def by blast
  have "\<forall>m \<ge> Suc n. f m = (r, s')"
  proof (intro allI impI)
    fix m assume "Suc n \<le> m"
    then obtain m' where "m = Suc m'" "n \<le> m'" by (cases m) auto
    then show "f m = (r, s')" using n by simp
  qed
  then show ?thesis unfolding halts_def using r by blast
qed

lemma halts_eventually:
  assumes "\<forall>m \<ge> n0. f m = h m" and "halts h"
  shows "halts f"
proof -
  from assms(2) obtain n r s' where r: "r \<noteq> OutOfFuel" and n: "\<forall>m \<ge> n. h m = (r, s')"
    unfolding halts_def by blast
  have "\<forall>m \<ge> max n n0. f m = (r, s')" using n assms(1) by simp
  then show ?thesis unfolding halts_def using r by blast
qed

lemma haltsO_fixed: "haltsO (\<lambda>m. Some v)"
  unfolding haltsO_def by auto

lemma haltsO_shift: "haltsO (\<lambda>m. f (Suc m)) \<Longrightarrow> haltsO f"
proof -
  assume "haltsO (\<lambda>m. f (Suc m))"
  then obtain n r where n: "\<forall>m \<ge> n. f (Suc m) = Some r" unfolding haltsO_def by blast
  have "\<forall>m \<ge> Suc n. f m = Some r"
  proof (intro allI impI)
    fix m assume "Suc n \<le> m"
    then obtain m' where "m = Suc m'" "n \<le> m'" by (cases m) auto
    then show "f m = Some r" using n by simp
  qed
  then show ?thesis unfolding haltsO_def by blast
qed

lemma Run_mono:
  "Run n S ST Ty Seen = Some (b, Seen') \<Longrightarrow> set Seen \<subseteq> set Seen'"
  "RunAny n S ST Ts Seen = Some (b, Seen') \<Longrightarrow> set Seen \<subseteq> set Seen'"
proof (induction n S ST Ty Seen and n S ST Ts Seen arbitrary: b Seen' and b Seen' rule: Run_RunAny.induct)
  case (1 S ST Ty Seen)
  then show ?case by simp
next
  case (2 n S ST Ty Seen)
  note prem = "2.prems"
  show ?case
  proof (cases Ty)
    case (StructTy k)
    show ?thesis
    proof (cases "k = ST \<or> k \<in> set Seen")
      case True
      then show ?thesis using prem StructTy by (auto split: if_splits)
    next
      case False
      then have r: "RunAny n S ST (case st_elements (S k) of None \<Rightarrow> [] | Some els \<Rightarrow> els) (k # Seen) = Some (b, Seen')"
        using prem StructTy by simp
      have "set (k # Seen) \<subseteq> set Seen'" by (rule "2.IH"(10)[OF StructTy _ _ r]) (use False in auto)
      then show ?thesis by auto
    qed
  next
    case (PointerTy ElTy a)
    show ?thesis
    proof (cases "\<exists>R Ps. ElTy = FunctionTy R Ps")
      case True
      then obtain R Ps where e: "ElTy = FunctionTy R Ps" by blast
      then have r: "RunAny n S ST (R # Ps) Seen = Some (b, Seen')" using prem PointerTy by simp
      show ?thesis by (rule "2.IH"(7)[OF PointerTy e r])
    next
      case False
      then have r: "Run n S ST ElTy Seen = Some (b, Seen')" using prem PointerTy by (cases ElTy) simp_all
      show ?thesis using "2.IH"(1-6,8)[OF PointerTy _ r] False by (cases ElTy) simp_all
    qed
  next
    case (ArrayTy ElTy k)
    then have r: "Run n S ST ElTy Seen = Some (b, Seen')" using prem by simp
    show ?thesis by (rule "2.IH"(9)[OF ArrayTy r])
  qed (use prem in auto)
next
  case (3 n S ST Seen)
  then show ?case by simp
next
  case (4 n S ST T Ts Seen)
  note prem = "4.prems"
  show ?case
  proof (cases "Run n S ST T Seen")
    case None
    then show ?thesis using prem by simp
  next
    case (Some p)
    obtain b1 Seen1 where p: "p = (b1, Seen1)" by (cases p)
    have s1: "set Seen \<subseteq> set Seen1" by (rule "4.IH"(1)[OF Some[unfolded p]])
    show ?thesis
    proof (cases b1)
      case True
      then show ?thesis using prem Some p s1 by simp
    next
      case False
      then have r: "RunAny n S ST Ts Seen1 = Some (b, Seen')" using prem Some p by simp
      have "set Seen1 \<subseteq> set Seen'" by (rule "4.IH"(2)[OF Some[unfolded p] _ _ r]) (use False in auto)
      then show ?thesis using s1 by auto
    qed
  qed
qed

lemma RunAny_halts:
  "(\<And>T Seen1. T \<in> set Ts \<Longrightarrow> set Seen \<subseteq> set Seen1 \<Longrightarrow> haltsO (\<lambda>m. Run m S ST T Seen1))
   \<Longrightarrow> haltsO (\<lambda>m. RunAny m S ST Ts Seen)"
proof (induction Ts arbitrary: Seen)
  case Nil
  show ?case by (simp add: haltsO_fixed)
next
  case (Cons T Ts)
  have "haltsO (\<lambda>m. Run m S ST T Seen)" by (rule Cons.prems) simp_all
  then obtain n1 r1 where n1: "\<forall>m \<ge> n1. Run m S ST T Seen = Some r1" unfolding haltsO_def by blast
  obtain b1 Seen1 where r1: "r1 = (b1, Seen1)" by (cases r1)
  have "Run n1 S ST T Seen = Some (b1, Seen1)" using n1 r1 by simp
  then have sub: "set Seen \<subseteq> set Seen1" by (rule Run_mono(1))
  show ?case
  proof (cases b1)
    case True
    then have "\<forall>m \<ge> n1. RunAny m S ST (T # Ts) Seen = Some (True, Seen1)" using n1 r1 by simp
    then show ?thesis unfolding haltsO_def by blast
  next
    case False
    have "haltsO (\<lambda>m. RunAny m S ST Ts Seen1)"
    proof (rule Cons.IH)
      fix T' Seen2 assume "T' \<in> set Ts" "set Seen1 \<subseteq> set Seen2"
      then show "haltsO (\<lambda>m. Run m S ST T' Seen2)" using Cons.prems[of T' Seen2] sub by auto
    qed
    then obtain n2 r2 where n2: "\<forall>m \<ge> n2. RunAny m S ST Ts Seen1 = Some r2" unfolding haltsO_def by blast
    have "\<forall>m \<ge> max n1 n2. RunAny m S ST (T # Ts) Seen = Some r2" using n1 n2 r1 False by simp
    then show ?thesis unfolding haltsO_def by blast
  qed
qed

lemma Run_halts_aux:
  assumes fin: "finite U" and cl: "closedU S U"
  shows "\<forall>Ty Seen. structsOf Ty \<subseteq> U \<longrightarrow> card (U - set Seen) = c \<longrightarrow> tsize Ty = z
           \<longrightarrow> haltsO (\<lambda>m. Run m S ST Ty Seen)"
proof (induction c arbitrary: z rule: less_induct)
  case (less c)
  note outer = less.IH
  show ?case
  proof (induction z rule: less_induct)
    case (less z)
    note inner = less.IH
    show ?case
    proof (intro allI impI)
      fix Ty Seen
      assume sub: "structsOf Ty \<subseteq> U" and c: "card (U - set Seen) = c" and z: "tsize Ty = z"
      have H: "\<And>Ty' Seen1. structsOf Ty' \<subseteq> U \<Longrightarrow>
                 card (U - set Seen1) < c \<or> (card (U - set Seen1) \<le> c \<and> tsize Ty' < z) \<Longrightarrow>
                 haltsO (\<lambda>m. Run m S ST Ty' Seen1)"
      proof -
        fix Ty' Seen1
        assume s: "structsOf Ty' \<subseteq> U"
          and m: "card (U - set Seen1) < c \<or> (card (U - set Seen1) \<le> c \<and> tsize Ty' < z)"
        show "haltsO (\<lambda>m. Run m S ST Ty' Seen1)"
        proof (cases "card (U - set Seen1) < c")
          case True
          then show ?thesis using outer s by blast
        next
          case False
          then have "card (U - set Seen1) = c" "tsize Ty' < z" using m by auto
          then show ?thesis using inner s by blast
        qed
      qed
      have le: "\<And>Seen1. set Seen \<subseteq> set Seen1 \<Longrightarrow> card (U - set Seen1) \<le> c"
      proof -
        fix Seen1 assume "set Seen \<subseteq> set Seen1"
        then have "U - set Seen1 \<subseteq> U - set Seen" by auto
        then show "card (U - set Seen1) \<le> c" unfolding c[symmetric] by (rule card_mono[rotated]) (use fin in simp)
      qed
      have "haltsO (\<lambda>m. Run (Suc m) S ST Ty Seen)"
      proof (cases Ty)
        case (StructTy k)
        show ?thesis
        proof (cases "k = ST \<or> k \<in> set Seen")
          case True
          then have "\<And>m. Run (Suc m) S ST Ty Seen = Some (k = ST, Seen)" using StructTy by auto
          then show ?thesis by (simp add: haltsO_fixed)
        next
          case False
          let ?els = "case st_elements (S k) of None \<Rightarrow> [] | Some els \<Rightarrow> els"
          have kU: "k \<in> U" using sub StructTy by simp
          have "haltsO (\<lambda>m. RunAny m S ST ?els (k # Seen))"
          proof (rule RunAny_halts)
            fix T Seen1 assume T: "T \<in> set ?els" and s1: "set (k # Seen) \<subseteq> set Seen1"
            have st: "structsOf T \<subseteq> U"
            proof (cases "st_elements (S k)")
              case None then show ?thesis using T by simp
            next
              case (Some els)
              then have "T \<in> set els" using T by simp
              then show ?thesis using cl kU Some unfolding closedU_def by blast
            qed
            have "U - set Seen1 \<subset> U - set Seen" using s1 kU False by auto
            then have "card (U - set Seen1) < c" unfolding c[symmetric]
              by (rule psubset_card_mono[rotated]) (use fin in simp)
            then show "haltsO (\<lambda>m. Run m S ST T Seen1)" using H[OF st] by blast
          qed
          moreover have "\<And>m. Run (Suc m) S ST Ty Seen = RunAny m S ST ?els (k # Seen)"
            using StructTy False by simp
          ultimately show ?thesis by simp
        qed
      next
        case (PointerTy ElTy a)
        show ?thesis
        proof (cases "\<exists>R Ps. ElTy = FunctionTy R Ps")
          case True
          then obtain R Ps where e: "ElTy = FunctionTy R Ps" by blast
          have "haltsO (\<lambda>m. RunAny m S ST (R # Ps) Seen)"
          proof (rule RunAny_halts)
            fix T Seen1 assume T: "T \<in> set (R # Ps)" and s1: "set Seen \<subseteq> set Seen1"
            have st: "structsOf T \<subseteq> U" using T sub PointerTy e by auto
            have "tsize T < z" using T z PointerTy e tsize_param[of T Ps] by auto
            then show "haltsO (\<lambda>m. Run m S ST T Seen1)" using H[OF st] le[OF s1] by blast
          qed
          moreover have "\<And>m. Run (Suc m) S ST Ty Seen = RunAny m S ST (R # Ps) Seen"
            using PointerTy e by simp
          ultimately show ?thesis by simp
        next
          case False
          have st: "structsOf ElTy \<subseteq> U" using sub PointerTy by simp
          have "tsize ElTy < z" using z PointerTy by simp
          then have "haltsO (\<lambda>m. Run m S ST ElTy Seen)" using H[OF st] c by simp
          moreover have "\<And>m. Run (Suc m) S ST Ty Seen = Run m S ST ElTy Seen"
            using PointerTy False by (cases ElTy) simp_all
          ultimately show ?thesis by simp
        qed
      next
        case (ArrayTy ElTy k)
        have st: "structsOf ElTy \<subseteq> U" using sub ArrayTy by simp
        have "tsize ElTy < z" using z ArrayTy by simp
        then have "haltsO (\<lambda>m. Run m S ST ElTy Seen)" using H[OF st] c by simp
        then show ?thesis using ArrayTy by simp
      qed (simp_all add: haltsO_fixed)
      then show "haltsO (\<lambda>m. Run m S ST Ty Seen)" by (rule haltsO_shift)
    qed
  qed
qed

lemma recursiveType_halts:
  assumes "finite U" "closedU S U" "structsOf Ty \<subseteq> U"
  shows "haltsO (\<lambda>m. recursiveType m S ST Ty)"
proof -
  have "haltsO (\<lambda>m. Run m S ST Ty [])" using Run_halts_aux[OF assms(1,2)] assms(3) by blast
  then obtain n r where "\<forall>m \<ge> n. Run m S ST Ty [] = Some r" unfolding haltsO_def by blast
  then have "\<forall>m \<ge> n. recursiveType m S ST Ty = Some (fst r)" by (simp add: recursiveType_def)
  then show ?thesis unfolding haltsO_def by blast
qed

lemma splitForwardRefs_halts:
  assumes fin: "finite U" and cl: "closedU S U"
  shows "\<forall>p \<in> set L. structsOf (snd p) \<subseteq> U \<Longrightarrow> haltsO (\<lambda>m. splitForwardRefs m S ST L)"
proof (induction L)
  case Nil
  show ?case by (simp add: haltsO_fixed)
next
  case (Cons p L)
  obtain I T where p: "p = (I, T)" by (cases p)
  from Cons obtain n1 r1 where n1: "\<forall>m \<ge> n1. splitForwardRefs m S ST L = Some r1"
    unfolding haltsO_def by auto
  obtain now later where r1: "r1 = (now, later)" by (cases r1)
  show ?case
  proof (cases "isCompositeOrPointer T")
    case False
    then have "\<forall>m \<ge> n1. splitForwardRefs m S ST (p # L) = Some ((I, T) # now, later)"
      using n1 r1 p by simp
    then show ?thesis unfolding haltsO_def by blast
  next
    case True
    have "structsOf T \<subseteq> U" using Cons.prems p by simp
    from recursiveType_halts[OF fin cl this] obtain n2 b where
      n2: "\<forall>m \<ge> n2. recursiveType m S ST T = Some b" unfolding haltsO_def by blast
    have "\<forall>m \<ge> max n1 n2. splitForwardRefs m S ST (p # L)
            = Some (if b then (now, (I, T) # later) else ((I, T) # now, later))"
      using n1 n2 r1 p True by simp
    then show ?thesis unfolding haltsO_def by blast
  qed
qed

lemma w_keeps_refl: "w_keeps s s" by (simp add: w_keeps_def)

lemma w_keeps_trans: "w_keeps s s1 \<Longrightarrow> w_keeps s1 s2 \<Longrightarrow> w_keeps s s2" by (simp add: w_keeps_def)

lemma w_keeps_eq: "w_TypeMap s1 = w_TypeMap s \<Longrightarrow> w_keeps s s1" by (simp add: w_keeps_def)

lemma stepsT_presS:
  assumes "\<And>k i. stepsT (StructTy k) i f" and "f s = (r, s')"
  shows "w_keeps s s'"
  unfolding w_keeps_def using stepsTD[OF assms(1) assms(2)] by (simp add: presT_def)

lemma w_keeps_transType: "transType m E T s = (r, s') \<Longrightarrow> w_keeps s s'"
  by (rule stepsT_presS[OF stepsT_transType])

lemma w_keeps_transTypes: "transTypes (transType m E) Ts s = (r, s') \<Longrightarrow> w_keeps s s'"
  by (rule stepsT_presS[OF stepsT_transTypes[OF stepsT_transType]])

lemma w_keeps_setMemberTypes: "setMemberTypes (transType m E) Struct L s = (r, s') \<Longrightarrow> w_keeps s s'"
  by (rule stepsT_presS[OF stepsT_setMemberTypes[OF stepsT_transType]])

lemma w_keeps_transConstantInt: "transConstantInt (transType m E) E W V s = (r, s') \<Longrightarrow> w_keeps s s'"
  by (rule stepsT_presS[OF stepsT_transConstantInt[OF stepsT_transType]])

lemma w_unmapped_mono:
  assumes "w_keeps s s1"
  shows "w_unmapped U s1 \<subseteq> w_unmapped U s"
proof
  fix k assume k: "k \<in> w_unmapped U s1"
  have "w_TypeMap s (StructTy k) = None"
  proof (cases "w_TypeMap s (StructTy k)")
    case (Some i)
    then have "w_TypeMap s1 (StructTy k) = Some i" using assms by (simp add: w_keeps_def)
    then show ?thesis using k by (simp add: w_unmapped_def)
  qed simp
  then show "k \<in> w_unmapped U s" using k by (simp add: w_unmapped_def)
qed

lemma add_mapType_Ok: "fst (bindR (add e s) (mapType T)) \<noteq> OutOfFuel"
  by (simp add: add_def mapType_def bindR_def)

lemma halts_add_mapType: "halts (\<lambda>m. bindR (add e s) (mapType T))"
  by (rule halts_fixed[OF add_mapType_Ok])

lemma transIntegerType_Ok: "fst (transIntegerType E W s) \<noteq> OutOfFuel"
  by (auto simp: transIntegerType_def add_def mapType_def bindR_def checkError_def split: prod.splits bool.splits)

lemma halts_Integer: "halts (\<lambda>m. transType m E (IntegerTy W) s)"
proof (rule halts_shift)
  let ?v = "transType (Suc 0) E (IntegerTy W) s"
  have e: "\<And>m. transType (Suc m) E (IntegerTy W) s = ?v"
    by (simp add: transType_body_def split: option.splits)
  have "fst ?v \<noteq> OutOfFuel"
    using transIntegerType_Ok[of E W s] by (simp add: transType_body_def split: option.splits)
  then have "halts (\<lambda>m. ?v)" by (rule halts_fixed)
  then show "halts (\<lambda>m. transType (Suc m) E (IntegerTy W) s)"
    by (rule halts_eventually[where ?n0.0 = 0, rotated]) (use e in blast)
qed

lemma halts_transTypes:
  assumes H: "\<And>T s1. T \<in> set Ts \<Longrightarrow> w_keeps s0 s1 \<Longrightarrow> halts (\<lambda>m. transType m E T s1)"
  shows "w_keeps s0 s \<Longrightarrow> halts (\<lambda>m. transTypes (transType m E) Ts s)"
  using H
proof (induction Ts arbitrary: s)
  case Nil
  show ?case by (simp add: halts_fixed)
next
  case (Cons T Ts)
  have "halts (\<lambda>m. bindR (transType m E T s) (\<lambda>BT s1.
          bindR (transTypes (transType m E) Ts s1) (\<lambda>BTs s2. (Ok (BT # BTs), s2))))"
  proof (rule halts_bindR)
    show "halts (\<lambda>m. transType m E T s)" by (rule Cons.prems(2)[OF _ Cons.prems(1)]) simp
  next
    fix m x s1 assume a: "transType m E T s = (Ok x, s1)"
    have p1: "w_keeps s0 s1" by (rule w_keeps_trans[OF Cons.prems(1) w_keeps_transType[OF a]])
    show "halts (\<lambda>m. bindR (transTypes (transType m E) Ts s1) (\<lambda>BTs s2. (Ok (x # BTs), s2)))"
    proof (rule halts_bindR)
      show "halts (\<lambda>m. transTypes (transType m E) Ts s1)"
        by (rule Cons.IH[OF p1]) (use Cons.prems(2) in auto)
    qed (simp add: halts_fixed)
  qed
  then show ?case by simp
qed

lemma setMemberType_Ok: "fst (setMemberType Struct I BT s) \<noteq> OutOfFuel"
  by (auto simp: setMemberType_def split: option.splits SPIRVEntry.splits)

lemma setMemberType_TypeMap: "setMemberType Struct I BT s = (r, s') \<Longrightarrow> w_TypeMap s' = w_TypeMap s"
  by (auto simp: setMemberType_def split: option.splits SPIRVEntry.splits if_splits)

lemma closeStructType_Ok: "fst (closeStructType Struct P s) \<noteq> OutOfFuel"
  by (auto simp: closeStructType_def split: option.splits SPIRVEntry.splits)

lemma closeStructType_TypeMap: "closeStructType Struct P s = (r, s') \<Longrightarrow> w_TypeMap s' = w_TypeMap s"
  by (auto simp: closeStructType_def split: option.splits SPIRVEntry.splits)

lemma halts_setMemberTypes:
  assumes H: "\<And>p s1. p \<in> set L \<Longrightarrow> w_keeps s0 s1 \<Longrightarrow> halts (\<lambda>m. transType m E (snd p) s1)"
  shows "w_keeps s0 s \<Longrightarrow> halts (\<lambda>m. setMemberTypes (transType m E) Struct L s)"
  using H
proof (induction L arbitrary: s)
  case Nil
  show ?case by (simp add: halts_fixed)
next
  case (Cons p L)
  have "halts (\<lambda>m. bindR (transType m E (snd p) s) (\<lambda>BT s1.
       bindR (setMemberType Struct (fst p) BT s1) (\<lambda>_ s2.
         setMemberTypes (transType m E) Struct L s2)))"
  proof (rule halts_bindR)
    show "halts (\<lambda>m. transType m E (snd p) s)" by (rule Cons.prems(2)[OF _ Cons.prems(1)]) simp
  next
    fix m x s1 assume a: "transType m E (snd p) s = (Ok x, s1)"
    have p1: "w_keeps s0 s1" by (rule w_keeps_trans[OF Cons.prems(1) w_keeps_transType[OF a]])
    show "halts (\<lambda>m. bindR (setMemberType Struct (fst p) x s1) (\<lambda>_ s2.
         setMemberTypes (transType m E) Struct L s2))"
    proof (rule halts_bindR)
      show "halts (\<lambda>m. setMemberType Struct (fst p) x s1)" by (rule halts_fixed[OF setMemberType_Ok])
    next
      fix m' y s2 assume b: "setMemberType Struct (fst p) x s1 = (Ok y, s2)"
      have p2: "w_keeps s0 s2" by (rule w_keeps_trans[OF p1 w_keeps_eq[OF setMemberType_TypeMap[OF b]]])
      show "halts (\<lambda>m. setMemberTypes (transType m E) Struct L s2)"
        by (rule Cons.IH[OF p2]) (use Cons.prems(2) in auto)
    qed
  qed
  then show ?case by simp
qed

lemma halts_transConstantInt: "halts (\<lambda>m. transConstantInt (transType m E) E W V s)"
proof (cases "w_ValueMap s (W, V)")
  case (Some BV)
  then show ?thesis by (simp add: transConstantInt_def halts_fixed)
next
  case None
  let ?s1 = "if W > 64 then snd (checkError (w_isAllowedToUseExtension E SPV_INTEL_arbitrary_precision_integers) SPIRVEC_InvalidBitWidth s) else s"
  have "halts (\<lambda>m. bindR (transType m E (IntegerTy W) ?s1) (\<lambda>BT s2.
                bindR (add (OpConstant BT (constantWords (numWords W) V)) s2) (\<lambda>BV s3.
                  (Ok BV, s3\<lparr>w_ValueMap := (w_ValueMap s3)((W, V) \<mapsto> BV)\<rparr>))))"
    by (rule halts_bindR[OF halts_Integer]) (rule halts_fixed, simp add: add_def bindR_def)
  then show ?thesis using None by (simp add: transConstantInt_def Let_def)
qed

lemma halts_pointwise:
  assumes "\<And>m. f m = h m" and "halts h"
  shows "halts f"
  by (rule halts_eventually[where ?n0.0 = 0, OF _ assms(2)]) (simp add: assms(1))

lemma halts_transPointerType:
  assumes H: "\<And>s1. w_keeps s s1 \<Longrightarrow> halts (\<lambda>m. transType m E ET s1)"
  shows "halts (\<lambda>m. transPointerType (transType m E) E ET A s)"
proof -
  let ?c = "(case ET of FunctionTy R Ps \<Rightarrow> checkExtension E SPV_INTEL_function_pointers SPIRVEC_FunctionPointers s
            | _ \<Rightarrow> (True, s))"
  obtain c s1 where c: "?c = (c, s1)" by (cases ?c)
  have tm: "w_TypeMap s1 = w_TypeMap s"
    using c by (cases ET) (auto dest: checkExtension_eq_TypeMap)
  let ?sp = "(case ET of StructTy k \<Rightarrow> st_elements (w_structs E k) = None
                             \<and> w_specialOpaqueName E (st_name (w_structs E k))
              | _ \<Rightarrow> False)"
  let ?h = "\<lambda>m. bindR (transType m E ET s1) (\<lambda>BET s2.
                 bindR (add (OpTypePointer (w_SPIRSPIRVAddrSpaceMap E A) BET) s2)
                   (mapType (PointerTy ET A)))"
  have h: "halts ?h"
    by (rule halts_bindR[OF H[OF w_keeps_eq[OF tm]]]) (rule halts_add_mapType)
  show ?thesis
  proof (cases "c \<and> \<not> ?sp")
    case True
    have "\<And>m. transPointerType (transType m E) E ET A s = ?h m"
      using c True by (simp add: transPointerType_def)
    then show ?thesis using h by (rule halts_pointwise)
  next
    case False
    have "\<And>m. transPointerType (transType m E) E ET A s = (if c then (Unmodelled, s1) else (Fail NullResult, s1))"
      using c False by (cases c) (auto simp: transPointerType_def)
    then show ?thesis by (rule halts_pointwise) (rule halts_fixed, simp)
  qed
qed

lemma halts_transArrayType:
  assumes H: "\<And>s1. w_keeps s s1 \<Longrightarrow> halts (\<lambda>m. transType m E ET s1)"
  shows "halts (\<lambda>m. transArrayType (transType m E) E ET N s)"
proof -
  let ?s1 = "if N < 1 then snd (checkError (N \<ge> 1) SPIRVEC_InvalidArraySize s) else s"
  have tm: "w_TypeMap ?s1 = w_TypeMap s" by simp
  let ?h = "\<lambda>m. bindR (transType m E ET ?s1) (\<lambda>BElTy s2.
           bindR (transConstantInt (transType m E) E (w_sizetBits E) (int N) s2) (\<lambda>Length s3.
             bindR (add (OpTypeArray BElTy Length) s3) (mapType (ArrayTy ET N))))"
  have "halts ?h"
  proof (rule halts_bindR[OF H[OF w_keeps_eq[OF tm]]])
    fix m x s2
    show "halts (\<lambda>m. bindR (transConstantInt (transType m E) E (w_sizetBits E) (int N) s2)
              (\<lambda>Length s3. bindR (add (OpTypeArray x Length) s3) (mapType (ArrayTy ET N))))"
      by (rule halts_bindR[OF halts_transConstantInt]) (rule halts_add_mapType)
  qed
  moreover have "\<And>m. transArrayType (transType m E) E ET N s = ?h m"
    by (simp add: transArrayType_def Let_def)
  ultimately show ?thesis by (rule halts_pointwise[rotated])
qed

lemma zip_upt_snd: "p \<in> set (zip [0 ..< length els] els) \<Longrightarrow> snd p \<in> set els"
  by (cases p) (auto dest: set_zip_rightD)

lemma halts_transStructType:
  assumes fin: "finite U" and cl: "closedU (w_structs E) U" and kU: "k \<in> U"
    and u: "w_TypeMap s (StructTy k) = None"
    and H: "\<And>T' s1. structsOf T' \<subseteq> U \<Longrightarrow> w_keeps s s1 \<Longrightarrow> w_TypeMap s1 (StructTy k) \<noteq> None
               \<Longrightarrow> halts (\<lambda>m. transType m E T' s1)"
  shows "halts (\<lambda>m. transStructType (transType m E) m E k s)"
proof (cases "st_elements (w_structs E k)")
  case None
  have "\<And>m. transStructType (transType m E) m E k s =
          (if w_specialOpaqueName E (st_name (w_structs E k)) then (Fail AssertionFailure, s)
           else bindR (add (OpTypeOpaque (st_name (w_structs E k))) s) (mapType (StructTy k)))"
    using None by (simp add: transStructType_def)
  then show ?thesis
    by (rule halts_pointwise) (rule halts_fixed, simp add: add_mapType_Ok)
next
  case (Some els)
  let ?nm = "st_name (w_structs E k)"
  let ?pk = "st_isPacked (w_structs E k)"
  show ?thesis
  proof (cases "w_specialStructName E ?nm \<or> int (length els) > w_MaxNumElements E")
    case True
    have "\<And>m. transStructType (transType m E) m E k s = (Unmodelled, s)"
      using Some True by (auto simp: transStructType_def)
    then show ?thesis by (rule halts_pointwise) (rule halts_fixed, simp)
  next
    case False
    let ?Struct = "w_nextId s"
    let ?s1 = "s\<lparr>w_entries := (w_entries s)(w_nextId s \<mapsto> OpTypeStruct ?nm (replicate (length els) None) False False),
                 w_nextId := Suc (w_nextId s)\<rparr>"
    let ?s2 = "?s1\<lparr>w_TypeMap := (w_TypeMap ?s1)(StructTy k \<mapsto> ?Struct)\<rparr>"
    let ?L = "zip [0 ..< length els] els"
    have e: "\<And>m. transStructType (transType m E) m E k s =
               (case splitForwardRefs m (w_structs E) k ?L of
                  None \<Rightarrow> (OutOfFuel, ?s2)
                | Some (now, ForwardRefs) \<Rightarrow>
                    bindR (setMemberTypes (transType m E) ?Struct now ?s2) (\<lambda>_ s3.
                    bindR (closeStructType ?Struct ?pk s3) (\<lambda>_ s4.
                    bindR (setMemberTypes (transType m E) ?Struct ForwardRefs s4) (\<lambda>_ s5.
                      (Ok ?Struct, s5)))))"
      using Some False by (simp add: transStructType_def add_def mapType_def bindR_def)
    have elsU: "\<forall>T \<in> set els. structsOf T \<subseteq> U" using cl kU Some unfolding closedU_def by blast
    have "\<forall>p \<in> set ?L. structsOf (snd p) \<subseteq> U" using elsU zip_upt_snd by blast
    from splitForwardRefs_halts[OF fin cl this] obtain n0 r0 where
      n0: "\<forall>m \<ge> n0. splitForwardRefs m (w_structs E) k ?L = Some r0" unfolding haltsO_def by blast
    obtain now later where r0: "r0 = (now, later)" by (cases r0)
    have parts: "set now \<union> set later = set ?L"
      by (rule splitForwardRefs_set[of n0 "w_structs E" k]) (use n0 r0 in simp)
    have p2: "w_keeps s ?s2" using u by (auto simp: w_keeps_def)
    have m2: "w_TypeMap ?s2 (StructTy k) \<noteq> None" by simp
    have Hm: "\<And>p s1. p \<in> set now \<union> set later \<Longrightarrow> w_keeps ?s2 s1 \<Longrightarrow> halts (\<lambda>m. transType m E (snd p) s1)"
    proof -
      fix p s1 assume p: "p \<in> set now \<union> set later" and ps: "w_keeps ?s2 s1"
      have "snd p \<in> set els" using p parts zip_upt_snd by blast
      then have st: "structsOf (snd p) \<subseteq> U" using elsU by blast
      have "w_TypeMap s1 (StructTy k) \<noteq> None" using ps by (simp add: w_keeps_def)
      then show "halts (\<lambda>m. transType m E (snd p) s1)"
        using H[OF st w_keeps_trans[OF p2 ps]] by blast
    qed
    let ?h = "\<lambda>m. bindR (setMemberTypes (transType m E) ?Struct now ?s2) (\<lambda>_ s3.
                    bindR (closeStructType ?Struct ?pk s3) (\<lambda>_ s4.
                    bindR (setMemberTypes (transType m E) ?Struct later s4) (\<lambda>_ s5.
                      (Ok ?Struct, s5))))"
    have "halts ?h"
    proof (rule halts_bindR)
      show "halts (\<lambda>m. setMemberTypes (transType m E) ?Struct now ?s2)"
        by (rule halts_setMemberTypes[OF _ w_keeps_refl]) (rule Hm, simp)
    next
      fix m x s3 assume a: "setMemberTypes (transType m E) ?Struct now ?s2 = (Ok x, s3)"
      have p3: "w_keeps ?s2 s3" by (rule w_keeps_setMemberTypes[OF a])
      show "halts (\<lambda>m. bindR (closeStructType ?Struct ?pk s3) (\<lambda>_ s4.
                    bindR (setMemberTypes (transType m E) ?Struct later s4) (\<lambda>_ s5.
                      (Ok ?Struct, s5))))"
      proof (rule halts_bindR)
        show "halts (\<lambda>m. closeStructType ?Struct ?pk s3)" by (rule halts_fixed[OF closeStructType_Ok])
      next
        fix m' y s4 assume b: "closeStructType ?Struct ?pk s3 = (Ok y, s4)"
        have p4: "w_keeps ?s2 s4" by (rule w_keeps_trans[OF p3 w_keeps_eq[OF closeStructType_TypeMap[OF b]]])
        show "halts (\<lambda>m. bindR (setMemberTypes (transType m E) ?Struct later s4) (\<lambda>_ s5. (Ok ?Struct, s5)))"
        proof (rule halts_bindR)
          show "halts (\<lambda>m. setMemberTypes (transType m E) ?Struct later s4)"
            by (rule halts_setMemberTypes[OF _ p4]) (rule Hm, simp)
        qed (simp add: halts_fixed)
      qed
    qed
    moreover have "\<forall>m \<ge> n0. transStructType (transType m E) m E k s = ?h m"
      using n0 r0 e by simp
    ultimately show ?thesis by (rule halts_eventually[rotated])
  qed
qed

lemma body_halts:
  assumes fin: "finite U" and cl: "closedU (w_structs E) U" and sub: "structsOf T \<subseteq> U"
    and H: "\<And>T' s1. structsOf T' \<subseteq> U \<Longrightarrow> w_keeps s s1 \<Longrightarrow>
              tsize T' < tsize T \<or> (w_TypeMap s T = None \<and> w_TypeMap s1 T \<noteq> None \<and> (\<exists>k. T = StructTy k))
              \<Longrightarrow> halts (\<lambda>m. transType m E T' s1)"
  shows "halts (\<lambda>m. transType_body (transType m E) m E T s)"
proof (cases "w_TypeMap s T")
  case (Some BT)
  then show ?thesis by (simp add: transType_body_def halts_fixed)
next
  case None
  show ?thesis
  proof (cases T)
    case VoidTy
    then show ?thesis using None by (simp add: transType_body_def halts_add_mapType)
  next
    case (IntegerTy W)
    then show ?thesis using None by (simp add: transType_body_def halts_fixed transIntegerType_Ok)
  next
    case (FloatingPointTy B)
    then show ?thesis using None by (simp add: transType_body_def halts_add_mapType)
  next
    case (PointerTy ET A)
    have "halts (\<lambda>m. transPointerType (transType m E) E ET A s)"
      by (rule halts_transPointerType) (rule H, use sub PointerTy in auto)
    then show ?thesis using None PointerTy by (simp add: transType_body_def)
  next
    case (VectorTy ET N)
    have "halts (\<lambda>m. bindR (transType m E ET s) (\<lambda>BElTy s1.
                bindR (add (OpTypeVector BElTy N) s1) (mapType T)))"
      by (rule halts_bindR[OF H[OF _ w_keeps_refl]]) (use sub VectorTy in \<open>auto simp: halts_add_mapType\<close>)
    then show ?thesis using None VectorTy by (simp add: transType_body_def)
  next
    case (ArrayTy ET N)
    have "halts (\<lambda>m. transArrayType (transType m E) E ET N s)"
      by (rule halts_transArrayType) (rule H, use sub ArrayTy in auto)
    then show ?thesis using None ArrayTy by (simp add: transType_body_def)
  next
    case (FunctionTy R Ps)
    have "halts (\<lambda>m. bindR (transType m E R s) (\<lambda>RT s1.
                bindR (transTypes (transType m E) Ps s1) (\<lambda>PT s2.
                  bindR (add (OpTypeFunction RT PT) s2) (mapType T))))"
    proof (rule halts_bindR)
      show "halts (\<lambda>m. transType m E R s)" by (rule H[OF _ w_keeps_refl]) (use sub FunctionTy in auto)
    next
      fix m x s1 assume a: "transType m E R s = (Ok x, s1)"
      have p1: "w_keeps s s1" by (rule w_keeps_transType[OF a])
      show "halts (\<lambda>m. bindR (transTypes (transType m E) Ps s1) (\<lambda>PT s2.
                  bindR (add (OpTypeFunction x PT) s2) (mapType T)))"
      proof (rule halts_bindR)
        show "halts (\<lambda>m. transTypes (transType m E) Ps s1)"
        proof (rule halts_transTypes[OF _ p1])
          fix P s2 assume P: "P \<in> set Ps" and p2: "w_keeps s s2"
          have "structsOf P \<subseteq> U" using P sub FunctionTy by auto
          moreover have "tsize P < tsize T" using P FunctionTy tsize_param[of P Ps] by simp
          ultimately show "halts (\<lambda>m. transType m E P s2)" using H[OF _ p2] by blast
        qed
      qed (rule halts_add_mapType)
    qed
    then show ?thesis using None FunctionTy by (simp add: transType_body_def)
  next
    case (StructTy k)
    have "halts (\<lambda>m. transStructType (transType m E) m E k s)"
    proof (rule halts_transStructType[OF fin cl])
      show "k \<in> U" using sub StructTy by simp
    next
      show "w_TypeMap s (StructTy k) = None" using None StructTy by simp
    next
      fix T' s1 assume "structsOf T' \<subseteq> U" "w_keeps s s1" "w_TypeMap s1 (StructTy k) \<noteq> None"
      then show "halts (\<lambda>m. transType m E T' s1)" using H[of T' s1] None StructTy by blast
    qed
    then show ?thesis using None StructTy by (simp add: transType_body_def)
  qed
qed

lemma transType_halts_aux:
  assumes fin: "finite U" and cl: "closedU (w_structs E) U"
  shows "\<forall>T s. structsOf T \<subseteq> U \<longrightarrow> card (w_unmapped U s) = c \<longrightarrow> tsize T = z
           \<longrightarrow> halts (\<lambda>m. transType m E T s)"
proof (induction c arbitrary: z rule: less_induct)
  case (less c)
  note outer = less.IH
  show ?case
  proof (induction z rule: less_induct)
    case (less z)
    note inner = less.IH
    show ?case
    proof (intro allI impI)
      fix T s
      assume sub: "structsOf T \<subseteq> U" and c: "card (w_unmapped U s) = c" and z: "tsize T = z"
      have fu: "finite (w_unmapped U s)" using fin by (simp add: w_unmapped_def)
      have "halts (\<lambda>m. transType_body (transType m E) m E T s)"
      proof (rule body_halts[OF fin cl sub])
        fix T' s1
        assume s: "structsOf T' \<subseteq> U" and ps: "w_keeps s s1"
          and m: "tsize T' < tsize T \<or> (w_TypeMap s T = None \<and> w_TypeMap s1 T \<noteq> None \<and> (\<exists>k. T = StructTy k))"
        have le: "card (w_unmapped U s1) \<le> c" unfolding c[symmetric]
          by (rule card_mono[OF fu w_unmapped_mono[OF ps]])
        show "halts (\<lambda>m. transType m E T' s1)"
        proof (cases "card (w_unmapped U s1) < c")
          case True
          then show ?thesis using outer s by blast
        next
          case False
          then have eq: "card (w_unmapped U s1) = c" using le by simp
          have "tsize T' < z"
          proof (rule ccontr)
            assume "\<not> tsize T' < z"
            then obtain k where k: "T = StructTy k" "w_TypeMap s T = None" "w_TypeMap s1 T \<noteq> None"
              using m z by blast
            have "k \<in> w_unmapped U s" "k \<notin> w_unmapped U s1" using k sub by (auto simp: w_unmapped_def)
            then have "w_unmapped U s1 \<subset> w_unmapped U s" using w_unmapped_mono[OF ps, of U] by blast
            then have "card (w_unmapped U s1) < card (w_unmapped U s)" by (rule psubset_card_mono[OF fu])
            then show False using eq c by simp
          qed
          then show ?thesis using inner eq s by blast
        qed
      qed
      then show "halts (\<lambda>m. transType m E T s)" by (rule halts_shift[where f = "\<lambda>m. transType m E T s", simplified])
    qed
  qed
qed

lemma transType_halts:
  assumes "finite U" "closedU (w_structs E) U" "structsOf T \<subseteq> U"
  shows "halts (\<lambda>m. transType m E T s)"
  using transType_halts_aux[OF assms(1,2)] assms(3) by blast

lemma r_frame_refl: "r_frame s s" by (simp add: r_frame_def)

lemma r_frame_trans:
  assumes a: "r_frame s s1" and b: "r_frame s1 s2"
  shows "r_frame s s2"
  unfolding r_frame_def
proof (intro conjI allI impI)
  fix i k assume "r_TypeMap s i = Some (StructTy k)"
  then show "r_TypeMap s2 i = Some (StructTy k)" using a b by (simp add: r_frame_def)
next
  show "length (r_structs s) \<le> length (r_structs s2)" using a b by (simp add: r_frame_def)
next
  fix k assume k: "k < length (r_structs s)"
  then have k1: "k < length (r_structs s1)" using a by (simp add: r_frame_def)
  show "st_elements (r_structs s2 ! k) = st_elements (r_structs s ! k)"
    using a b k k1 by (simp add: r_frame_def)
  show "st_isPacked (r_structs s2 ! k) = st_isPacked (r_structs s ! k)"
    using a b k k1 by (simp add: r_frame_def)
qed

lemma r_matches_mono:
  "(\<forall>i k. r_TypeMap s i = Some (StructTy k) \<longrightarrow> r_TypeMap s' i = Some (StructTy k)) \<Longrightarrow>
   r_matches E s i T \<Longrightarrow> r_matches E s' i T"
  "(\<forall>i k. r_TypeMap s i = Some (StructTy k) \<longrightarrow> r_TypeMap s' i = Some (StructTy k)) \<Longrightarrow>
   r_matchesAll E s is Ts \<Longrightarrow> r_matchesAll E s' is Ts"
  by (induction E s i T and E s "is" Ts rule: r_matches_r_matchesAll.induct)
     (auto split: option.splits SPIRVEntry.splits)

lemma r_matches_frame: "r_frame s s' \<Longrightarrow> r_matches E s i T \<Longrightarrow> r_matches E s' i T"
  unfolding r_frame_def by (rule r_matches_mono(1)) auto

lemma r_matchesAll_frame: "r_frame s s' \<Longrightarrow> r_matchesAll E s js Ts \<Longrightarrow> r_matchesAll E s' js Ts"
  unfolding r_frame_def by (rule r_matches_mono(2)) auto

lemma r_memberOk_mono:
  "(\<And>j T. r_matches E s j T \<Longrightarrow> r_matches E s' j T) \<Longrightarrow> r_memberOk E s m T \<Longrightarrow> r_memberOk E s' m T"
  by (auto simp: r_memberOk_def split: option.splits)

lemma r_done_mono:
  assumes m: "\<And>j T. r_matches E s j T \<Longrightarrow> r_matches E s' j T"
    and e: "st_elements (r_structs s' ! k) = st_elements (r_structs s ! k)"
           "st_isPacked (r_structs s' ! k) = st_isPacked (r_structs s ! k)"
    and d: "r_done E s i k"
  shows "r_done E s' i k"
proof (cases "r_entries E i")
  case None
  then show ?thesis using d by (simp add: r_done_def)
next
  case (Some en)
  show ?thesis
  proof (cases en)
    case (OpTypeStruct nm ms p c)
    from d Some OpTypeStruct obtain els where el: "st_elements (r_structs s ! k) = Some els"
      and pk: "st_isPacked (r_structs s ! k) = p" and l: "list_all2 (r_memberOk E s) ms els"
      by (auto simp: r_done_def split: option.splits)
    have "list_all2 (r_memberOk E s') ms els"
      by (rule list_all2_mono[OF l]) (rule r_memberOk_mono[OF m])
    then show ?thesis using Some OpTypeStruct el pk e by (simp add: r_done_def)
  next
    case (OpTypeOpaque nm)
    then show ?thesis using d Some e by (simp add: r_done_def)
  qed (use d Some in \<open>simp_all add: r_done_def\<close>)
qed

lemma r_InvG: "r_Inv E Open s \<Longrightarrow> r_Good E s" by (simp add: r_Inv_def)

lemma r_InvC: "r_Inv E Open s \<Longrightarrow> r_Complete E Open s" by (simp add: r_Inv_def)

lemma r_GoodM: "r_Good E s \<Longrightarrow> r_TypeMap s i = Some T \<Longrightarrow> r_matches E s i T"
  unfolding r_Good_def by blast

lemma r_GoodB: "r_Good E s \<Longrightarrow> r_TypeMap s i = Some (StructTy k) \<Longrightarrow> k < length (r_structs s)"
  unfolding r_Good_def by blast

lemma r_GoodI: "r_Good E s \<Longrightarrow> r_TypeMap s i = Some (StructTy k) \<Longrightarrow> r_TypeMap s j = Some (StructTy k) \<Longrightarrow> i = j"
  unfolding r_Good_def by blast

lemma r_GoodS: "r_Good E s \<Longrightarrow> r_TypeMap s i = Some (StructTy k) \<Longrightarrow> isStructEntry (r_entries E i)"
  using r_GoodM[of E s i "StructTy k"] by simp

text \<open>Entering a type that is no struct type for an identifier whose entry is no struct.\<close>

lemma r_Inv_mapType:
  assumes iv: "r_Inv E Open s" and ns: "\<not> isStructEntry (r_entries E T)" and nk: "\<forall>k. Ty \<noteq> StructTy k"
    and m: "r_matches E s T Ty"
  shows "r_Inv E Open (s\<lparr>r_TypeMap := (r_TypeMap s)(T \<mapsto> Ty)\<rparr>)"
    and "r_frame s (s\<lparr>r_TypeMap := (r_TypeMap s)(T \<mapsto> Ty)\<rparr>)"
    and "r_matches E (s\<lparr>r_TypeMap := (r_TypeMap s)(T \<mapsto> Ty)\<rparr>) T Ty"
proof -
  let ?s = "s\<lparr>r_TypeMap := (r_TypeMap s)(T \<mapsto> Ty)\<rparr>"
  note g = r_InvG[OF iv]
  have nT: "\<And>k. r_TypeMap s T \<noteq> Some (StructTy k)" using r_GoodS[OF g] ns by blast
  have eq: "\<And>i k. (r_TypeMap ?s i = Some (StructTy k)) = (r_TypeMap s i = Some (StructTy k))"
    using nT nk by auto
  have up: "\<And>j T'. r_matches E s j T' \<Longrightarrow> r_matches E ?s j T'"
  proof -
    fix j T' assume a: "r_matches E s j T'"
    have "\<forall>i k. r_TypeMap s i = Some (StructTy k) \<longrightarrow> r_TypeMap ?s i = Some (StructTy k)"
      using eq by blast
    from r_matches_mono(1)[OF this a] show "r_matches E ?s j T'" .
  qed
  show f: "r_frame s ?s" using eq by (simp add: r_frame_def)
  show mm: "r_matches E ?s T Ty" by (rule up[OF m])
  have "r_Good E ?s" unfolding r_Good_def
  proof (intro conjI allI impI)
    fix i T' assume a: "r_TypeMap ?s i = Some T'"
    show "r_matches E ?s i T'"
    proof (cases "i = T")
      case True then show ?thesis using a mm by simp
    next
      case False then show ?thesis using a up[OF r_GoodM[OF g]] by simp
    qed
  next
    fix i k assume "r_TypeMap ?s i = Some (StructTy k)"
    then show "k < length (r_structs ?s)" using r_GoodB[OF g, of i k] eq by simp
  next
    fix i j k assume "r_TypeMap ?s i = Some (StructTy k)" "r_TypeMap ?s j = Some (StructTy k)"
    then show "i = j" using r_GoodI[OF g, of i k j] eq by simp
  qed
  moreover have "r_Complete E Open ?s" unfolding r_Complete_def
  proof (intro allI impI)
    fix i k assume "r_TypeMap ?s i = Some (StructTy k) \<and> i \<notin> Open"
    then have "r_done E s i k" using r_InvC[OF iv] eq by (simp add: r_Complete_def)
    then show "r_done E ?s i k" by (rule r_done_mono[where s = s, rotated 3]) (simp_all add: up)
  qed
  ultimately show "r_Inv E Open ?s" by (simp add: r_Inv_def)
qed

lemma r_soundD:
  "r_sound E rec \<Longrightarrow> r_Inv E Open s \<Longrightarrow> rec T b s = (Ok Ty, s') \<Longrightarrow>
   r_Inv E Open s' \<and> r_frame s s' \<and> r_matches E s' T Ty"
  unfolding r_sound_def by blast

lemma r_sound_transTypes:
  assumes r: "r_sound E rec"
  shows "r_Inv E Open s \<Longrightarrow> r_transTypes rec b Ms s = (Ok Ts, s') \<Longrightarrow>
         r_Inv E Open s' \<and> r_frame s s' \<and> list_all2 (r_memberOk E s') Ms Ts"
proof (induction Ms arbitrary: s Ts)
  case Nil
  then show ?case by (simp add: r_frame_refl)
next
  case (Cons M Ms)
  from Cons.prems(2) obtain BT where M: "M = Some BT" by (cases M) auto
  from Cons.prems(2) M obtain T s1 where c1: "rec BT b s = (Ok T, s1)"
    and r1: "bindR (r_transTypes rec b Ms s1) (\<lambda>Ts s2. (Ok (T # Ts), s2)) = (Ok Ts, s')"
    by (auto elim: bindR_Ok)
  from r1 obtain Ts' where c2: "r_transTypes rec b Ms s1 = (Ok Ts', s')" and Ts: "Ts = T # Ts'"
    by (auto elim!: bindR_Ok)
  from r_soundD[OF r Cons.prems(1) c1] have i1: "r_Inv E Open s1" and f1: "r_frame s s1"
    and m1: "r_matches E s1 BT T" by simp_all
  from Cons.IH[OF i1 c2] have i2: "r_Inv E Open s'" and f2: "r_frame s1 s'"
    and m2: "list_all2 (r_memberOk E s') Ms Ts'" by simp_all
  have "r_memberOk E s' M T" using r_matches_frame[OF f2 m1] M by (simp add: r_memberOk_def)
  then show ?case using i2 r_frame_trans[OF f1 f2] m2 Ts by simp
qed

lemma r_memberOk_Some: "list_all2 (r_memberOk E s) (map Some ps) Ts = r_matchesAll E s ps Ts"
proof (induction ps arbitrary: Ts)
  case Nil
  then show ?case by (cases Ts) simp_all
next
  case (Cons p ps)
  then show ?case by (cases Ts) (simp_all add: r_memberOk_def)
qed

lemma r_create_frame:
  "r_frame s (s\<lparr>r_structs := r_structs s @ [X]\<rparr>)"
  by (simp add: r_frame_def nth_append)

lemma r_releaseName_frame: "r_frame s (releaseName Name s)"
  by (simp add: r_frame_def releaseName_def)

lemma r_frame_back:
  "r_frame s (releaseName Name s) \<and> r_TypeMap (releaseName Name s) = r_TypeMap s
   \<and> length (r_structs (releaseName Name s)) = length (r_structs s)
   \<and> (\<forall>k < length (r_structs s). st_elements (r_structs (releaseName Name s) ! k) = st_elements (r_structs s ! k)
        \<and> st_isPacked (r_structs (releaseName Name s) ! k) = st_isPacked (r_structs s ! k))"
  by (simp add: r_frame_def releaseName_def)

text \<open>A change of the struct types that keeps the table and the members of the struct types
  that are in the table keeps the invariant.\<close>

lemma r_Inv_cong:
  assumes iv: "r_Inv E Open s" and tm: "r_TypeMap s' = r_TypeMap s"
    and ln: "length (r_structs s) \<le> length (r_structs s')"
    and el: "\<forall>k < length (r_structs s). st_elements (r_structs s' ! k) = st_elements (r_structs s ! k)
                \<and> st_isPacked (r_structs s' ! k) = st_isPacked (r_structs s ! k)"
  shows "r_Inv E Open s'"
proof -
  note g = r_InvG[OF iv]
  have up: "\<And>j T'. r_matches E s j T' \<Longrightarrow> r_matches E s' j T'"
    by (rule r_matches_mono(1)) (simp_all add: tm)
  have "r_Good E s'" unfolding r_Good_def
  proof (intro conjI allI impI)
    fix i T' assume "r_TypeMap s' i = Some T'"
    then show "r_matches E s' i T'" using up[OF r_GoodM[OF g]] tm by simp
  next
    fix i k assume "r_TypeMap s' i = Some (StructTy k)"
    then show "k < length (r_structs s')" using r_GoodB[OF g, of i k] tm ln by simp
  next
    fix i j k assume "r_TypeMap s' i = Some (StructTy k)" "r_TypeMap s' j = Some (StructTy k)"
    then show "i = j" using r_GoodI[OF g, of i k j] tm by simp
  qed
  moreover have "r_Complete E Open s'" unfolding r_Complete_def
  proof (intro allI impI)
    fix i k assume a: "r_TypeMap s' i = Some (StructTy k) \<and> i \<notin> Open"
    then have d: "r_done E s i k" using r_InvC[OF iv] tm by (simp add: r_Complete_def)
    have "k < length (r_structs s)" using a r_GoodB[OF g, of i k] tm by simp
    then show "r_done E s' i k" using el by (intro r_done_mono[where s = s, OF up _ _ d]) simp_all
  qed
  ultimately show ?thesis by (simp add: r_Inv_def)
qed

text \<open>Entering a new struct type for an identifier that has none.\<close>

lemma r_Inv_mapStruct:
  assumes iv: "r_Inv E Open s" and se: "isStructEntry (r_entries E T)" and u: "r_TypeMap s T = None"
    and k: "k = length (r_structs s)"
  shows "r_Inv E (insert T Open) (s\<lparr>r_structs := r_structs s @ [X], r_TypeMap := (r_TypeMap s)(T \<mapsto> StructTy k)\<rparr>)"
proof -
  let ?s = "s\<lparr>r_structs := r_structs s @ [X], r_TypeMap := (r_TypeMap s)(T \<mapsto> StructTy k)\<rparr>"
  note g = r_InvG[OF iv]
  have up: "\<And>j T'. r_matches E s j T' \<Longrightarrow> r_matches E ?s j T'"
  proof -
    fix j T' assume a: "r_matches E s j T'"
    have "\<forall>i k'. r_TypeMap s i = Some (StructTy k') \<longrightarrow> r_TypeMap ?s i = Some (StructTy k')"
      using u by auto
    from r_matches_mono(1)[OF this a] show "r_matches E ?s j T'" .
  qed
  have "r_Good E ?s" unfolding r_Good_def
  proof (intro conjI allI impI)
    fix i T' assume a: "r_TypeMap ?s i = Some T'"
    show "r_matches E ?s i T'"
    proof (cases "i = T")
      case True
      then have "T' = StructTy k" using a by simp
      then show ?thesis using True se by simp
    next
      case False then show ?thesis using a up[OF r_GoodM[OF g]] by simp
    qed
  next
    fix i k' assume "r_TypeMap ?s i = Some (StructTy k')"
    then show "k' < length (r_structs ?s)" using r_GoodB[OF g, of i k'] k
      by (cases "i = T") auto
  next
    fix i j k' assume "r_TypeMap ?s i = Some (StructTy k')" "r_TypeMap ?s j = Some (StructTy k')"
    then have a: "(i = T \<and> k' = k) \<or> (i \<noteq> T \<and> r_TypeMap s i = Some (StructTy k'))"
        and b: "(j = T \<and> k' = k) \<or> (j \<noteq> T \<and> r_TypeMap s j = Some (StructTy k'))"
      by (auto split: if_splits)
    have lt: "\<And>i. r_TypeMap s i = Some (StructTy k') \<Longrightarrow> k' \<noteq> k"
      using r_GoodB[OF g] k by blast
    from a b lt r_GoodI[OF g, of i k' j] show "i = j" by blast
  qed
  moreover have "r_Complete E (insert T Open) ?s" unfolding r_Complete_def
  proof (intro allI impI)
    fix i k' assume a: "r_TypeMap ?s i = Some (StructTy k') \<and> i \<notin> insert T Open"
    then have t: "r_TypeMap s i = Some (StructTy k')" and "i \<notin> Open" by auto
    then have d: "r_done E s i k'" using r_InvC[OF iv] by (simp add: r_Complete_def)
    have "k' < length (r_structs s)" using t r_GoodB[OF g] by blast
    then show "r_done E ?s i k'" by (intro r_done_mono[where s = s, OF up _ _ d]) (simp_all add: nth_append)
  qed
  ultimately show ?thesis by (simp add: r_Inv_def)
qed

text \<open>Giving the open struct type its members closes it.\<close>

lemma r_Inv_setBody:
  assumes iv: "r_Inv E (insert T Open) s" and t: "r_TypeMap s T = Some (StructTy k)"
    and en: "r_entries E T = Some (OpTypeStruct nm ms p c)"
    and l: "list_all2 (r_memberOk E s) ms MT"
  shows "r_Inv E Open (s\<lparr>r_structs := (r_structs s)[k := (r_structs s ! k)\<lparr>st_elements := Some MT, st_isPacked := p\<rparr>]\<rparr>)"
proof -
  let ?s = "s\<lparr>r_structs := (r_structs s)[k := (r_structs s ! k)\<lparr>st_elements := Some MT, st_isPacked := p\<rparr>]\<rparr>"
  note g = r_InvG[OF iv]
  have kb: "k < length (r_structs s)" using r_GoodB[OF g t] .
  have up: "\<And>j T'. r_matches E s j T' \<Longrightarrow> r_matches E ?s j T'"
    by (rule r_matches_mono(1)) simp_all
  have "r_Good E ?s" unfolding r_Good_def
  proof (intro conjI allI impI)
    fix i T' assume "r_TypeMap ?s i = Some T'"
    then show "r_matches E ?s i T'" using up[OF r_GoodM[OF g]] by simp
  next
    fix i k' assume "r_TypeMap ?s i = Some (StructTy k')"
    then show "k' < length (r_structs ?s)" using r_GoodB[OF g, of i k'] by simp
  next
    fix i j k' assume "r_TypeMap ?s i = Some (StructTy k')" "r_TypeMap ?s j = Some (StructTy k')"
    then show "i = j" using r_GoodI[OF g, of i k' j] by simp
  qed
  moreover have "r_Complete E Open ?s" unfolding r_Complete_def
  proof (intro allI impI)
    fix i k' assume a: "r_TypeMap ?s i = Some (StructTy k') \<and> i \<notin> Open"
    then have ti: "r_TypeMap s i = Some (StructTy k')" by simp
    show "r_done E ?s i k'"
    proof (cases "i = T")
      case True
      then have kk: "k' = k" using ti t by simp
      have "list_all2 (r_memberOk E ?s) ms MT"
        by (rule list_all2_mono[OF l]) (rule r_memberOk_mono[OF up])
      then show ?thesis using True kk en kb by (simp add: r_done_def)
    next
      case False
      then have d: "r_done E s i k'" using a r_InvC[OF iv] by (simp add: r_Complete_def)
      have "k' \<noteq> k" using r_GoodI[OF g ti, of T] t False by auto
      then show ?thesis by (intro r_done_mono[where s = s, OF up _ _ d]) simp_all
    qed
  qed
  ultimately show ?thesis by (simp add: r_Inv_def)
qed

lemma r_Inv_open: "r_Inv E Open s \<Longrightarrow> r_Inv E (insert T Open) s"
  by (auto simp: r_Inv_def r_Complete_def)

text \<open>A struct type that is entered for an identifier is kept by the calls for its members
  (a call that returns a type has not run out of fuel inside).\<close>

lemma r_Inv_close:
  assumes iv: "r_Inv E (insert T Open) s" and d: "\<And>k. r_TypeMap s T = Some (StructTy k) \<Longrightarrow> r_done E s T k"
  shows "r_Inv E Open s"
  using iv d by (auto simp: r_Inv_def r_Complete_def)

text \<open>The common end of the cases that are no struct: the type is entered in the table.\<close>

lemma r_finish:
  assumes iv: "r_Inv E Open s1" and f: "r_frame s s1"
    and ns: "\<not> isStructEntry (r_entries E T)" and nk: "\<forall>k. Ty \<noteq> StructTy k"
    and m: "r_matches E s1 T Ty"
    and t: "r_mapType T Ty s1 = (Ok Ty', s')"
  shows "r_Inv E Open s' \<and> r_frame s s' \<and> r_matches E s' T Ty'"
proof -
  from t have e: "s' = s1\<lparr>r_TypeMap := (r_TypeMap s1)(T \<mapsto> Ty)\<rparr>" "Ty' = Ty"
    by (auto simp: r_mapType_def)
  show ?thesis unfolding e
    using r_Inv_mapType[OF iv ns nk m] r_frame_trans[OF f] by blast
qed

lemma r_sound_transStructType:
  assumes r: "r_sound E rec" and iv: "r_Inv E Open s" and u: "r_TypeMap s T = None"
    and en: "r_entries E T = Some (OpTypeStruct Name Members Packed Closed)"
    and t: "r_transStructType rec T Name Members Packed s = (Ok Ty, s')"
  shows "r_Inv E Open s' \<and> r_frame s s' \<and> r_matches E s' T Ty"
proof -
  define s1 where "s1 = (if Name \<noteq> [] then releaseName Name s else s)"
  define Nm where "Nm = (if Name \<noteq> [] then Name else ''structtype'')"
  define k where "k = length (r_structs s1)"
  define s3 where "s3 = s1\<lparr>r_structs := r_structs s1 @ [\<lparr>st_name = Nm, st_elements = None, st_isPacked = False\<rparr>],
                          r_TypeMap := (r_TypeMap s1)(T \<mapsto> StructTy k)\<rparr>"
  have b: "s1 = s \<or> s1 = releaseName Name s" by (simp add: s1_def)
  have tm1: "r_TypeMap s1 = r_TypeMap s" using b by (auto simp: releaseName_def)
  have ln1: "length (r_structs s1) = length (r_structs s)" using b by (auto simp: releaseName_def)
  have el1: "\<forall>k < length (r_structs s). st_elements (r_structs s1 ! k) = st_elements (r_structs s ! k)
                \<and> st_isPacked (r_structs s1 ! k) = st_isPacked (r_structs s ! k)"
    using b r_frame_back[of s Name] by auto
  have i1: "r_Inv E Open s1" by (rule r_Inv_cong[OF iv tm1]) (simp_all add: ln1 el1)
  have se: "isStructEntry (r_entries E T)" by (simp add: en isStructEntry_def)
  have u1: "r_TypeMap s1 T = None" using u tm1 by simp
  have i3: "r_Inv E (insert T Open) s3" unfolding s3_def
    by (rule r_Inv_mapStruct[OF i1 se u1 k_def])
  have f03: "r_frame s s3"
    unfolding r_frame_def s3_def using tm1 ln1 el1 u by (auto simp: nth_append)
  have bo: "\<And>x st f. bindR (Ok x, st) f = f x st" by (simp add: bindR_def)
  have "bindR (StructType_create Nm s1) (\<lambda>k s2.
         bindR (r_mapType T (StructTy k) s2) (\<lambda>_ s3.
         bindR (r_transTypes rec True Members s3) (\<lambda>MT s4.
         bindR (setBody k MT Packed s4) (\<lambda>_ s5. (Ok (StructTy k), s5))))) = (Ok Ty, s')"
    using t by (simp add: r_transStructType_def Let_def s1_def Nm_def)
  then have "bindR (r_transTypes rec True Members s3) (\<lambda>MT s4.
          bindR (setBody k MT Packed s4) (\<lambda>_ s5. (Ok (StructTy k), s5))) = (Ok Ty, s')"
    by (simp add: StructType_create_def r_mapType_def bo k_def s3_def)
  then obtain MT s4 where ms: "r_transTypes rec True Members s3 = (Ok MT, s4)"
    and sb: "bindR (setBody k MT Packed s4) (\<lambda>_ s5. (Ok (StructTy k), s5)) = (Ok Ty, s')"
    by (auto elim: bindR_Ok)
  from r_sound_transTypes[OF r i3 ms] have i4: "r_Inv E (insert T Open) s4" and f34: "r_frame s3 s4"
    and l: "list_all2 (r_memberOk E s4) Members MT" by simp_all
  have t3: "r_TypeMap s3 T = Some (StructTy k)" by (simp add: s3_def)
  have t4: "r_TypeMap s4 T = Some (StructTy k)" using f34 t3 by (simp add: r_frame_def)
  have kb: "k < length (r_structs s4)" using r_GoodB[OF r_InvG[OF i4] t4] .
  from sb kb have e: "s' = s4\<lparr>r_structs := (r_structs s4)[k := (r_structs s4 ! k)\<lparr>st_elements := Some MT, st_isPacked := Packed\<rparr>]\<rparr>"
      and ty: "Ty = StructTy k"
    by (auto simp: setBody_def bindR_def)
  have i5: "r_Inv E Open s'" unfolding e by (rule r_Inv_setBody[OF i4 t4 en l])
  have f04: "r_frame s s4" by (rule r_frame_trans[OF f03 f34])
  have f05: "r_frame s s'"
    using f04 unfolding r_frame_def e by (auto simp: k_def ln1)
  have "r_matches E s' T Ty" using t4 se by (simp add: e ty)
  then show ?thesis using i5 f05 by simp
qed

lemma r_sound_opaque:
  assumes iv: "r_Inv E Open s" and u: "r_TypeMap s T = None"
    and en: "r_entries E T = Some (OpTypeOpaque Name)"
    and t: "bindR (StructType_create Name s) (\<lambda>k s1. r_mapType T (StructTy k) s1) = (Ok Ty, s')"
  shows "r_Inv E Open s' \<and> r_frame s s' \<and> r_matches E s' T Ty"
proof -
  define k where "k = length (r_structs s)"
  have se: "isStructEntry (r_entries E T)" by (simp add: en isStructEntry_def)
  from t have e: "s' = s\<lparr>r_structs := r_structs s @ [\<lparr>st_name = Name, st_elements = None, st_isPacked = False\<rparr>],
                          r_TypeMap := (r_TypeMap s)(T \<mapsto> StructTy k)\<rparr>" and ty: "Ty = StructTy k"
    by (auto simp: StructType_create_def r_mapType_def bindR_def k_def)
  have i: "r_Inv E (insert T Open) s'" unfolding e by (rule r_Inv_mapStruct[OF iv se u k_def])
  have "r_Inv E Open s'"
  proof (rule r_Inv_close[OF i])
    fix k' assume "r_TypeMap s' T = Some (StructTy k')"
    then have "k' = k" by (simp add: e)
    then show "r_done E s' T k'" by (simp add: r_done_def en e k_def)
  qed
  moreover have "r_frame s s'" unfolding r_frame_def e using u by (auto simp: nth_append)
  moreover have "r_matches E s' T Ty" using se by (simp add: e ty)
  ultimately show ?thesis by simp
qed

lemma r_sound_body:
  assumes r: "r_sound E rec"
  shows "r_sound E (r_transType_body rec E)"
  unfolding r_sound_def
proof (intro allI impI)
  fix Open T b s Ty s'
  assume iv: "r_Inv E Open s" and t: "r_transType_body rec E T b s = (Ok Ty, s')"
  show "r_Inv E Open s' \<and> r_frame s s' \<and> r_matches E s' T Ty"
  proof (cases "r_TypeMap s T")
    case (Some Ty0)
    then have "s' = s" "Ty = Ty0" using t by (simp_all add: r_transType_body_def)
    then show ?thesis using iv r_GoodM[OF r_InvG[OF iv] Some] by (simp add: r_frame_refl)
  next
    case None
    from t None obtain en where en: "r_entries E T = Some en"
      by (cases "r_entries E T") (auto simp: r_transType_body_def)
    show ?thesis
    proof (cases en)
      case OpTypeVoid
      then have "r_mapType T VoidTy s = (Ok Ty, s')" using t None en by (simp add: r_transType_body_def)
      then show ?thesis
        by (rule r_finish[OF iv r_frame_refl, rotated 3]) (simp_all add: en OpTypeVoid isStructEntry_def)
    next
      case OpTypeBool
      then have "r_mapType T (IntegerTy 1) s = (Ok Ty, s')" using t None en by (simp add: r_transType_body_def)
      then show ?thesis
        by (rule r_finish[OF iv r_frame_refl, rotated 3]) (simp_all add: en OpTypeBool isStructEntry_def)
    next
      case (OpTypeInt W)
      then have "r_mapType T (IntegerTy W) s = (Ok Ty, s')" using t None en by (simp add: r_transType_body_def)
      then show ?thesis
        by (rule r_finish[OF iv r_frame_refl, rotated 3]) (simp_all add: en OpTypeInt isStructEntry_def)
    next
      case (OpTypeFloat W)
      then have "r_mapType T (FloatingPointTy W) s = (Ok Ty, s')" using t None en
        by (simp add: r_transType_body_def transFPType_def bindR_def split: if_splits)
      then show ?thesis
        by (rule r_finish[OF iv r_frame_refl, rotated 3]) (simp_all add: en OpTypeFloat isStructEntry_def)
    next
      case (OpTypeArray ElemTy Length)
      from t None en OpTypeArray obtain CT RawData where c: "r_entries E Length = Some (OpConstant CT RawData)"
        by (auto simp: r_transType_body_def split: option.splits SPIRVEntry.splits)
      let ?N = "nat (APInt 64 (packWords (take 2 RawData)))"
      from t None en OpTypeArray c obtain El s1 where c1: "rec ElemTy False s = (Ok El, s1)"
        and m: "r_mapType T (ArrayTy El ?N) s1 = (Ok Ty, s')"
        by (auto simp: r_transType_body_def elim: bindR_Ok)
      from r_soundD[OF r iv c1] have i1: "r_Inv E Open s1" and f1: "r_frame s s1" and m1: "r_matches E s1 ElemTy El"
        by simp_all
      show ?thesis
        by (rule r_finish[OF i1 f1 _ _ _ m]) (simp_all add: en OpTypeArray isStructEntry_def c m1 r_isLength_def)
    next
      case (OpTypePointer SC ElemTy)
      from t None en OpTypePointer obtain El s1 where c1: "rec ElemTy b s = (Ok El, s1)"
        and m: "r_mapType T (PointerTy El (r_SPIRSPIRVAddrSpaceMap_rmap E SC)) s1 = (Ok Ty, s')"
        by (auto simp: r_transType_body_def elim: bindR_Ok)
      from r_soundD[OF r iv c1] have i1: "r_Inv E Open s1" and f1: "r_frame s s1" and m1: "r_matches E s1 ElemTy El"
        by simp_all
      show ?thesis
        by (rule r_finish[OF i1 f1 _ _ _ m]) (simp_all add: en OpTypePointer isStructEntry_def m1)
    next
      case (OpTypeVector CompTy Count)
      from t None en OpTypeVector obtain El s1 where c1: "rec CompTy False s = (Ok El, s1)"
        and m: "r_mapType T (VectorTy El Count) s1 = (Ok Ty, s')"
        by (auto simp: r_transType_body_def elim: bindR_Ok)
      from r_soundD[OF r iv c1] have i1: "r_Inv E Open s1" and f1: "r_frame s s1" and m1: "r_matches E s1 CompTy El"
        by simp_all
      show ?thesis
        by (rule r_finish[OF i1 f1 _ _ _ m]) (simp_all add: en OpTypeVector isStructEntry_def m1)
    next
      case (OpTypeMatrix ColTy Count)
      from t None en OpTypeMatrix obtain El s1 where c1: "rec ColTy False s = (Ok El, s1)"
        and m: "r_mapType T (ArrayTy El Count) s1 = (Ok Ty, s')"
        by (auto simp: r_transType_body_def elim: bindR_Ok)
      from r_soundD[OF r iv c1] have i1: "r_Inv E Open s1" and f1: "r_frame s s1" and m1: "r_matches E s1 ColTy El"
        by simp_all
      show ?thesis
        by (rule r_finish[OF i1 f1 _ _ _ m]) (simp_all add: en OpTypeMatrix isStructEntry_def m1)
    next
      case (OpTypeOpaque Name)
      then have "bindR (StructType_create Name s) (\<lambda>k s1. r_mapType T (StructTy k) s1) = (Ok Ty, s')"
        using t None en by (simp add: r_transType_body_def)
      then show ?thesis using r_sound_opaque[OF iv None] en OpTypeOpaque by simp
    next
      case (OpTypeFunction RetTy Params)
      from t None en OpTypeFunction obtain RT s1 where c1: "rec RetTy False s = (Ok RT, s1)"
        and r1: "bindR (r_transTypes rec False (map Some Params) s1) (\<lambda>PT s2. r_mapType T (FunctionTy RT PT) s2) = (Ok Ty, s')"
        by (auto simp: r_transType_body_def elim: bindR_Ok)
      from r1 obtain PT s2 where c2: "r_transTypes rec False (map Some Params) s1 = (Ok PT, s2)"
        and m: "r_mapType T (FunctionTy RT PT) s2 = (Ok Ty, s')"
        by (auto elim: bindR_Ok)
      from r_soundD[OF r iv c1] have i1: "r_Inv E Open s1" and f1: "r_frame s s1" and m1: "r_matches E s1 RetTy RT"
        by simp_all
      from r_sound_transTypes[OF r i1 c2] have i2: "r_Inv E Open s2" and f2: "r_frame s1 s2"
        and l: "list_all2 (r_memberOk E s2) (map Some Params) PT" by simp_all
      have m2: "r_matches E s2 RetTy RT" by (rule r_matches_frame[OF f2 m1])
      have l2: "r_matchesAll E s2 Params PT" using l by (simp add: r_memberOk_Some)
      show ?thesis
        by (rule r_finish[OF i2 r_frame_trans[OF f1 f2] _ _ _ m])
           (simp_all add: en OpTypeFunction isStructEntry_def m2 l2)
    next
      case (OpTypeStruct Name Members Packed Closed)
      then have "r_transStructType rec T Name Members Packed s = (Ok Ty, s')"
        using t None en by (simp add: r_transType_body_def)
      then show ?thesis using r_sound_transStructType[OF r iv None] en OpTypeStruct by simp
    next
      case (OpConstant CT RawData)
      then show ?thesis using t None en by (simp add: r_transType_body_def)
    qed
  qed
qed

lemma r_sound_transType: "r_sound E (r_transType n E)"
proof (induction n)
  case 0
  show ?case by (simp add: r_sound_def)
next
  case (Suc n)
  have "r_transType (Suc n) E = r_transType_body (r_transType n E) E" by (intro ext) simp
  then show ?case using r_sound_body[OF Suc] by simp
qed

lemma r_keeps_refl: "r_keeps s s" by (simp add: r_keeps_def)

lemma r_keeps_trans: "r_keeps s s1 \<Longrightarrow> r_keeps s1 s2 \<Longrightarrow> r_keeps s s2" by (simp add: r_keeps_def)

lemma r_keeps_transType: "r_transType n E T b s = (r, s') \<Longrightarrow> r_keeps s s'"
  unfolding r_keeps_def using r_transType_stable by blast

lemma r_unmapped_mono: "r_keeps s s' \<Longrightarrow> r_unmapped E s' \<subseteq> r_unmapped E s"
proof
  fix i assume k: "r_keeps s s'" and i: "i \<in> r_unmapped E s'"
  have "r_TypeMap s i = None"
  proof (cases "r_TypeMap s i")
    case (Some Ty)
    then have "r_TypeMap s' i = Some Ty" using k by (simp add: r_keeps_def)
    then show ?thesis using i by (simp add: r_unmapped_def)
  qed simp
  then show "i \<in> r_unmapped E s" using i by (simp add: r_unmapped_def)
qed

lemma r_orderedD: "r_ordered rank E \<Longrightarrow> r_entries E i = Some e \<Longrightarrow> j \<in> set (r_operands e) \<Longrightarrow> rank j < rank i"
  unfolding r_ordered_def by blast

lemma r_mapType_Ok: "fst (r_mapType T Ty s) \<noteq> OutOfFuel" by (simp add: r_mapType_def)

lemma halts_r_mapType: "halts (\<lambda>m. r_mapType T Ty s)"
  by (rule halts_fixed) (rule r_mapType_Ok)

lemma halts_r_transTypes:
  assumes H: "\<And>j s1. Some j \<in> set Ms \<Longrightarrow> r_keeps s0 s1 \<Longrightarrow> halts (\<lambda>m. r_transType m E j b s1)"
  shows "r_keeps s0 s \<Longrightarrow> halts (\<lambda>m. r_transTypes (r_transType m E) b Ms s)"
  using H
proof (induction Ms arbitrary: s)
  case Nil
  show ?case by (simp add: halts_fixed)
next
  case (Cons M Ms)
  show ?case
  proof (cases M)
    case None
    then show ?thesis by (simp add: halts_fixed)
  next
    case (Some j)
    have "halts (\<lambda>m. bindR (r_transType m E j b s) (\<lambda>T s1.
            bindR (r_transTypes (r_transType m E) b Ms s1) (\<lambda>Ts s2. (Ok (T # Ts), s2))))"
    proof (rule halts_bindR)
      show "halts (\<lambda>m. r_transType m E j b s)" by (rule Cons.prems(2)[OF _ Cons.prems(1)]) (simp add: Some)
    next
      fix m x s1 assume a: "r_transType m E j b s = (Ok x, s1)"
      have p1: "r_keeps s0 s1" by (rule r_keeps_trans[OF Cons.prems(1) r_keeps_transType[OF a]])
      show "halts (\<lambda>m. bindR (r_transTypes (r_transType m E) b Ms s1) (\<lambda>Ts s2. (Ok (x # Ts), s2)))"
      proof (rule halts_bindR)
        show "halts (\<lambda>m. r_transTypes (r_transType m E) b Ms s1)"
          by (rule Cons.IH[OF p1]) (use Cons.prems(2) in auto)
      qed (simp add: halts_fixed)
    qed
    then show ?thesis using Some by simp
  qed
qed

lemma halts_r_transStructType:
  assumes u: "r_TypeMap s T = None"
    and H: "\<And>j s1. r_keeps s s1 \<Longrightarrow> r_TypeMap s1 T \<noteq> None \<Longrightarrow> halts (\<lambda>m. r_transType m E j True s1)"
  shows "halts (\<lambda>m. r_transStructType (r_transType m E) T Name Members Packed s)"
proof -
  define s1 where "s1 = (if Name \<noteq> [] then releaseName Name s else s)"
  define Nm where "Nm = (if Name \<noteq> [] then Name else ''structtype'')"
  define k where "k = length (r_structs s1)"
  define s3 where "s3 = s1\<lparr>r_structs := r_structs s1 @ [\<lparr>st_name = Nm, st_elements = None, st_isPacked = False\<rparr>],
                          r_TypeMap := (r_TypeMap s1)(T \<mapsto> StructTy k)\<rparr>"
  have b: "s1 = s \<or> s1 = releaseName Name s" by (simp add: s1_def)
  have tm1: "r_TypeMap s1 = r_TypeMap s" using b by (auto simp: releaseName_def)
  have k3: "r_keeps s s3" using u tm1 by (auto simp: r_keeps_def s3_def)
  have t3: "r_TypeMap s3 T \<noteq> None" by (simp add: s3_def)
  have bo: "\<And>x st f. bindR (Ok x, st) f = f x st" by (simp add: bindR_def)
  have e: "\<And>m. r_transStructType (r_transType m E) T Name Members Packed s =
            bindR (r_transTypes (r_transType m E) True Members s3) (\<lambda>MT s4.
              bindR (setBody k MT Packed s4) (\<lambda>_ s5. (Ok (StructTy k), s5)))"
    by (simp add: r_transStructType_def Let_def s1_def Nm_def StructType_create_def r_mapType_def bo k_def s3_def)
  have "halts (\<lambda>m. bindR (r_transTypes (r_transType m E) True Members s3) (\<lambda>MT s4.
              bindR (setBody k MT Packed s4) (\<lambda>_ s5. (Ok (StructTy k), s5))))"
  proof (rule halts_bindR)
    show "halts (\<lambda>m. r_transTypes (r_transType m E) True Members s3)"
    proof (rule halts_r_transTypes[OF _ r_keeps_refl])
      fix j s4 assume "r_keeps s3 s4"
      then have "r_keeps s s4" "r_TypeMap s4 T \<noteq> None"
        using k3 t3 by (auto simp: r_keeps_def)
      then show "halts (\<lambda>m. r_transType m E j True s4)" by (rule H)
    qed
  next
    fix m x s4
    show "halts (\<lambda>m. bindR (setBody k x Packed s4) (\<lambda>_ s5. (Ok (StructTy k), s5)))"
      by (rule halts_fixed) (simp add: setBody_def bindR_def)
  qed
  then show ?thesis by (rule halts_pointwise[rotated]) (rule e)
qed

lemma r_body_halts:
  assumes ord: "r_ordered rank E"
    and H: "\<And>T' b' s1. r_keeps s s1 \<Longrightarrow>
              rank T' < rank T \<or> (r_TypeMap s T = None \<and> r_TypeMap s1 T \<noteq> None \<and> isStructEntry (r_entries E T))
              \<Longrightarrow> halts (\<lambda>m. r_transType m E T' b' s1)"
  shows "halts (\<lambda>m. r_transType_body (r_transType m E) E T b s)"
proof (cases "r_TypeMap s T")
  case (Some Ty)
  then show ?thesis by (simp add: r_transType_body_def halts_fixed)
next
  case None
  show ?thesis
  proof (cases "r_entries E T")
    case None
    then show ?thesis using \<open>r_TypeMap s T = None\<close> by (simp add: r_transType_body_def halts_fixed)
  next
    case (Some en)
    note u = \<open>r_TypeMap s T = None\<close>
    note o = r_orderedD[OF ord Some]
    show ?thesis
    proof (cases en)
      case OpTypeVoid
      then show ?thesis using u Some by (simp add: r_transType_body_def halts_r_mapType)
    next
      case OpTypeBool
      then show ?thesis using u Some by (simp add: r_transType_body_def halts_r_mapType)
    next
      case (OpTypeInt W)
      then show ?thesis using u Some by (simp add: r_transType_body_def halts_r_mapType)
    next
      case (OpTypeFloat W)
      have "fst (bindR (transFPType W, s) (r_mapType T)) \<noteq> OutOfFuel"
        by (simp add: transFPType_def bindR_def r_mapType_def)
      then show ?thesis using u Some OpTypeFloat by (simp add: r_transType_body_def halts_fixed)
    next
      case (OpTypeArray ElemTy Length)
      show ?thesis
      proof (cases "\<exists>CT RawData. r_entries E Length = Some (OpConstant CT RawData)")
        case True
        then obtain CT RawData where c: "r_entries E Length = Some (OpConstant CT RawData)" by blast
        have "halts (\<lambda>m. bindR (r_transType m E ElemTy False s) (\<lambda>El s1.
                     r_mapType T (ArrayTy El (nat (APInt 64 (packWords (take 2 RawData))))) s1))"
          by (rule halts_bindR[OF H[OF r_keeps_refl]]) (use o OpTypeArray in \<open>auto simp: halts_r_mapType\<close>)
        then show ?thesis using u Some OpTypeArray c by (simp add: r_transType_body_def)
      next
        case False
        then have "r_transType_body rec E T b s = (Fail NullDereference, s)" for rec
          using u Some OpTypeArray
          by (auto simp: r_transType_body_def split: option.splits SPIRVEntry.splits)
        then show ?thesis by (simp add: halts_fixed)
      qed
    next
      case (OpTypePointer SC ElemTy)
      have "halts (\<lambda>m. bindR (r_transType m E ElemTy b s) (\<lambda>El s1.
                r_mapType T (PointerTy El (r_SPIRSPIRVAddrSpaceMap_rmap E SC)) s1))"
        by (rule halts_bindR[OF H[OF r_keeps_refl]]) (use o OpTypePointer in \<open>auto simp: halts_r_mapType\<close>)
      then show ?thesis using u Some OpTypePointer by (simp add: r_transType_body_def)
    next
      case (OpTypeVector CompTy Count)
      have "halts (\<lambda>m. bindR (r_transType m E CompTy False s) (\<lambda>El s1. r_mapType T (VectorTy El Count) s1))"
        by (rule halts_bindR[OF H[OF r_keeps_refl]]) (use o OpTypeVector in \<open>auto simp: halts_r_mapType\<close>)
      then show ?thesis using u Some OpTypeVector by (simp add: r_transType_body_def)
    next
      case (OpTypeMatrix ColTy Count)
      have "halts (\<lambda>m. bindR (r_transType m E ColTy False s) (\<lambda>El s1. r_mapType T (ArrayTy El Count) s1))"
        by (rule halts_bindR[OF H[OF r_keeps_refl]]) (use o OpTypeMatrix in \<open>auto simp: halts_r_mapType\<close>)
      then show ?thesis using u Some OpTypeMatrix by (simp add: r_transType_body_def)
    next
      case (OpTypeOpaque Name)
      have "fst (bindR (StructType_create Name s) (\<lambda>k s1. r_mapType T (StructTy k) s1)) \<noteq> OutOfFuel"
        by (simp add: StructType_create_def bindR_def r_mapType_def)
      then show ?thesis using u Some OpTypeOpaque by (simp add: r_transType_body_def halts_fixed)
    next
      case (OpTypeFunction RetTy Params)
      have "halts (\<lambda>m. bindR (r_transType m E RetTy False s) (\<lambda>RT s1.
                bindR (r_transTypes (r_transType m E) False (map Some Params) s1) (\<lambda>PT s2.
                  r_mapType T (FunctionTy RT PT) s2)))"
      proof (rule halts_bindR)
        show "halts (\<lambda>m. r_transType m E RetTy False s)"
          by (rule H[OF r_keeps_refl]) (use o OpTypeFunction in auto)
      next
        fix m x s1 assume a: "r_transType m E RetTy False s = (Ok x, s1)"
        have p1: "r_keeps s s1" by (rule r_keeps_transType[OF a])
        show "halts (\<lambda>m. bindR (r_transTypes (r_transType m E) False (map Some Params) s1) (\<lambda>PT s2.
                  r_mapType T (FunctionTy x PT) s2))"
        proof (rule halts_bindR)
          show "halts (\<lambda>m. r_transTypes (r_transType m E) False (map Some Params) s1)"
          proof (rule halts_r_transTypes[OF _ p1])
            fix j s2 assume P: "Some j \<in> set (map Some Params)" and p2: "r_keeps s s2"
            have "rank j < rank T" using P o OpTypeFunction by auto
            then show "halts (\<lambda>m. r_transType m E j False s2)" using H[OF p2] by blast
          qed
        qed (rule halts_r_mapType)
      qed
      then show ?thesis using u Some OpTypeFunction by (simp add: r_transType_body_def)
    next
      case (OpTypeStruct Name Members Packed Closed)
      have "halts (\<lambda>m. r_transStructType (r_transType m E) T Name Members Packed s)"
      proof (rule halts_r_transStructType[OF u])
        fix j s1 assume "r_keeps s s1" "r_TypeMap s1 T \<noteq> None"
        then show "halts (\<lambda>m. r_transType m E j True s1)"
          using H[of s1 j True] u Some OpTypeStruct by (simp add: isStructEntry_def)
      qed
      then show ?thesis using u Some OpTypeStruct by (simp add: r_transType_body_def)
    next
      case (OpConstant CT RawData)
      then show ?thesis using u Some by (simp add: r_transType_body_def halts_fixed)
    qed
  qed
qed

lemma r_transType_halts_aux:
  assumes fin: "finite {i. isStructEntry (r_entries E i)}" and ord: "r_ordered rank E"
  shows "\<forall>T b s. card (r_unmapped E s) = c \<longrightarrow> rank T = z \<longrightarrow> halts (\<lambda>m. r_transType m E T b s)"
proof (induction c arbitrary: z rule: less_induct)
  case (less c)
  note outer = less.IH
  show ?case
  proof (induction z rule: less_induct)
    case (less z)
    note inner = less.IH
    show ?case
    proof (intro allI impI)
      fix T b s
      assume c: "card (r_unmapped E s) = c" and z: "rank T = z"
      have fu: "finite (r_unmapped E s)"
        by (rule finite_subset[OF _ fin]) (auto simp: r_unmapped_def)
      have "halts (\<lambda>m. r_transType_body (r_transType m E) E T b s)"
      proof (rule r_body_halts[OF ord])
        fix T' b' s1
        assume ps: "r_keeps s s1"
          and m: "rank T' < rank T \<or> (r_TypeMap s T = None \<and> r_TypeMap s1 T \<noteq> None \<and> isStructEntry (r_entries E T))"
        have le: "card (r_unmapped E s1) \<le> c" unfolding c[symmetric]
          by (rule card_mono[OF fu r_unmapped_mono[OF ps]])
        show "halts (\<lambda>m. r_transType m E T' b' s1)"
        proof (cases "card (r_unmapped E s1) < c")
          case True
          then show ?thesis using outer by blast
        next
          case False
          then have eq: "card (r_unmapped E s1) = c" using le by simp
          have "rank T' < z"
          proof (rule ccontr)
            assume "\<not> rank T' < z"
            then have k: "r_TypeMap s T = None" "r_TypeMap s1 T \<noteq> None" "isStructEntry (r_entries E T)"
              using m z by blast+
            have "T \<in> r_unmapped E s" "T \<notin> r_unmapped E s1" using k by (auto simp: r_unmapped_def)
            then have "r_unmapped E s1 \<subset> r_unmapped E s" using r_unmapped_mono[OF ps, of E] by blast
            then have "card (r_unmapped E s1) < card (r_unmapped E s)" by (rule psubset_card_mono[OF fu])
            then show False using eq c by simp
          qed
          then show ?thesis using inner eq by blast
        qed
      qed
      then show "halts (\<lambda>m. r_transType m E T b s)"
        by (rule halts_shift[where f = "\<lambda>m. r_transType m E T b s", simplified])
    qed
  qed
qed

lemma r_transType_halts:
  assumes "finite {i. isStructEntry (r_entries E i)}" "r_ordered rank E"
  shows "halts (\<lambda>m. r_transType m E T b s)"
  using r_transType_halts_aux[OF assms] by blast

lemma bindR_cong_Ok:
  "(\<And>x s1. m = (Ok x, s1) \<Longrightarrow> f x s1 = g x s1) \<Longrightarrow> bindR m f = bindR m g"
  by (cases m, rename_tac a b, case_tac a) (auto simp: bindR_def)

lemma setMemberTypes_registered:
  "w_TypeMap s (StructTy k) \<noteq> None \<Longrightarrow>
   setMemberTypes (transType n E) Struct L s
     = setMemberTypes (onceRegistered (StructTy k) (transType n E)) Struct L s"
proof (induction L arbitrary: s)
  case Nil
  show ?case by simp
next
  case (Cons m L)
  have h: "onceRegistered (StructTy k) (transType n E) (snd m) s = transType n E (snd m) s"
    using Cons.prems by (auto simp: onceRegistered_def)
  have "bindR (transType n E (snd m) s) (\<lambda>BT s1. bindR (setMemberType Struct (fst m) BT s1)
            (\<lambda>_ s2. setMemberTypes (transType n E) Struct L s2))
      = bindR (transType n E (snd m) s) (\<lambda>BT s1. bindR (setMemberType Struct (fst m) BT s1)
            (\<lambda>_ s2. setMemberTypes (onceRegistered (StructTy k) (transType n E)) Struct L s2))"
  proof (rule bindR_cong_Ok)
    fix x s1 assume a: "transType n E (snd m) s = (Ok x, s1)"
    have m1: "w_TypeMap s1 (StructTy k) \<noteq> None"
      using w_keeps_transType[OF a] Cons.prems by (auto simp: w_keeps_def)
    show "bindR (setMemberType Struct (fst m) x s1) (\<lambda>_ s2. setMemberTypes (transType n E) Struct L s2)
        = bindR (setMemberType Struct (fst m) x s1)
            (\<lambda>_ s2. setMemberTypes (onceRegistered (StructTy k) (transType n E)) Struct L s2)"
    proof (rule bindR_cong_Ok)
      fix y s2 assume b: "setMemberType Struct (fst m) x s1 = (Ok y, s2)"
      have "w_TypeMap s2 (StructTy k) \<noteq> None" using setMemberType_TypeMap[OF b] m1 by simp
      then show "setMemberTypes (transType n E) Struct L s2
                 = setMemberTypes (onceRegistered (StructTy k) (transType n E)) Struct L s2"
        by (rule Cons.IH)
    qed
  qed
  then show ?case using h by simp
qed

text \<open>The encoder translates the members of a struct only once the struct has its entry.\<close>

lemma transStructType_registered:
  "transStructType (transType n E) n' E k s
     = transStructType (onceRegistered (StructTy k) (transType n E)) n' E k s"
proof (cases "st_elements (w_structs E k)")
  case None
  then show ?thesis by (simp add: transStructType_def)
next
  case (Some Elements)
  let ?R = "onceRegistered (StructTy k) (transType n E)"
  let ?S = "w_nextId s"
  let ?s1 = "s\<lparr>w_entries := (w_entries s)(w_nextId s \<mapsto> OpTypeStruct (st_name (w_structs E k))
                          (replicate (length Elements) None) False False),
               w_nextId := Suc (w_nextId s)\<rparr>"
  let ?s2 = "?s1\<lparr>w_TypeMap := (w_TypeMap ?s1)(StructTy k \<mapsto> w_nextId s)\<rparr>"
  have bo: "\<And>x st f. bindR (Ok x, st) f = f x st" by (simp add: bindR_def)
  have m2: "w_TypeMap ?s2 (StructTy k) \<noteq> None" by simp
  have body: "(case splitForwardRefs n' (w_structs E) k (zip [0 ..< length Elements] Elements) of
                None \<Rightarrow> (OutOfFuel, ?s2)
              | Some (now, ForwardRefs) \<Rightarrow>
                  bindR (setMemberTypes (transType n E) ?S now ?s2) (\<lambda>_ s3.
                  bindR (closeStructType ?S (st_isPacked (w_structs E k)) s3) (\<lambda>_ s4.
                  bindR (setMemberTypes (transType n E) ?S ForwardRefs s4) (\<lambda>_ s5.
                    (Ok ?S, s5)))))
            = (case splitForwardRefs n' (w_structs E) k (zip [0 ..< length Elements] Elements) of
                None \<Rightarrow> (OutOfFuel, ?s2)
              | Some (now, ForwardRefs) \<Rightarrow>
                  bindR (setMemberTypes ?R ?S now ?s2) (\<lambda>_ s3.
                  bindR (closeStructType ?S (st_isPacked (w_structs E k)) s3) (\<lambda>_ s4.
                  bindR (setMemberTypes ?R ?S ForwardRefs s4) (\<lambda>_ s5.
                    (Ok ?S, s5)))))"
  proof (cases "splitForwardRefs n' (w_structs E) k (zip [0 ..< length Elements] Elements)")
    case None
    then show ?thesis by simp
  next
    case (Some p)
    obtain now ForwardRefs where p: "p = (now, ForwardRefs)" by (cases p)
    have e1: "setMemberTypes ?R ?S now ?s2 = setMemberTypes (transType n E) ?S now ?s2"
      by (rule setMemberTypes_registered[OF m2, symmetric])
    have "bindR (setMemberTypes (transType n E) ?S now ?s2) (\<lambda>_ s3.
                  bindR (closeStructType ?S (st_isPacked (w_structs E k)) s3) (\<lambda>_ s4.
                  bindR (setMemberTypes (transType n E) ?S ForwardRefs s4) (\<lambda>_ s5.
                    (Ok ?S, s5))))
        = bindR (setMemberTypes (transType n E) ?S now ?s2) (\<lambda>_ s3.
                  bindR (closeStructType ?S (st_isPacked (w_structs E k)) s3) (\<lambda>_ s4.
                  bindR (setMemberTypes ?R ?S ForwardRefs s4) (\<lambda>_ s5.
                    (Ok ?S, s5))))"
    proof (rule bindR_cong_Ok)
      fix x s3 assume a: "setMemberTypes (transType n E) ?S now ?s2 = (Ok x, s3)"
      have m3: "w_TypeMap s3 (StructTy k) \<noteq> None"
        using w_keeps_setMemberTypes[OF a] m2 by (auto simp: w_keeps_def)
      show "bindR (closeStructType ?S (st_isPacked (w_structs E k)) s3) (\<lambda>_ s4.
                  bindR (setMemberTypes (transType n E) ?S ForwardRefs s4) (\<lambda>_ s5. (Ok ?S, s5)))
          = bindR (closeStructType ?S (st_isPacked (w_structs E k)) s3) (\<lambda>_ s4.
                  bindR (setMemberTypes ?R ?S ForwardRefs s4) (\<lambda>_ s5. (Ok ?S, s5)))"
      proof (rule bindR_cong_Ok)
        fix y s4 assume b: "closeStructType ?S (st_isPacked (w_structs E k)) s3 = (Ok y, s4)"
        have "w_TypeMap s4 (StructTy k) \<noteq> None" using closeStructType_TypeMap[OF b] m3 by simp
        then show "bindR (setMemberTypes (transType n E) ?S ForwardRefs s4) (\<lambda>_ s5. (Ok ?S, s5))
                 = bindR (setMemberTypes ?R ?S ForwardRefs s4) (\<lambda>_ s5. (Ok ?S, s5))"
          by (simp add: setMemberTypes_registered[of s4 k n E])
      qed
    qed
    then show ?thesis using Some p e1 by simp
  qed
  show ?thesis
    unfolding transStructType_def add_def mapType_def bo option.case Some
    by (simp only: body)
qed

lemma r_transTypes_registered:
  "r_TypeMap s T0 \<noteq> None \<Longrightarrow>
   r_transTypes (r_transType n E) b Ms s = r_transTypes (r_onceRegistered T0 (r_transType n E)) b Ms s"
proof (induction Ms arbitrary: s)
  case Nil
  show ?case by simp
next
  case (Cons M Ms)
  show ?case
  proof (cases M)
    case None
    then show ?thesis by simp
  next
    case (Some j)
    have h: "r_onceRegistered T0 (r_transType n E) j b s = r_transType n E j b s"
      using Cons.prems by (auto simp: r_onceRegistered_def)
    have "bindR (r_transType n E j b s) (\<lambda>T s1.
            bindR (r_transTypes (r_transType n E) b Ms s1) (\<lambda>Ts s2. (Ok (T # Ts), s2)))
        = bindR (r_transType n E j b s) (\<lambda>T s1.
            bindR (r_transTypes (r_onceRegistered T0 (r_transType n E)) b Ms s1) (\<lambda>Ts s2. (Ok (T # Ts), s2)))"
    proof (rule bindR_cong_Ok)
      fix x s1 assume a: "r_transType n E j b s = (Ok x, s1)"
      have "r_TypeMap s1 T0 \<noteq> None"
        using r_keeps_transType[OF a] Cons.prems by (auto simp: r_keeps_def)
      then show "bindR (r_transTypes (r_transType n E) b Ms s1) (\<lambda>Ts s2. (Ok (x # Ts), s2))
               = bindR (r_transTypes (r_onceRegistered T0 (r_transType n E)) b Ms s1) (\<lambda>Ts s2. (Ok (x # Ts), s2))"
        by (simp add: Cons.IH)
    qed
    then show ?thesis using Some h by simp
  qed
qed

text \<open>The decoder translates the members of a struct only once the struct has its entry.\<close>

lemma r_transStructType_registered:
  "r_transStructType (r_transType n E) T Name Members Packed s
     = r_transStructType (r_onceRegistered T (r_transType n E)) T Name Members Packed s"
proof -
  have bo: "\<And>x st f. bindR (Ok x, st) f = f x st" by (simp add: bindR_def)
  show ?thesis
    unfolding r_transStructType_def Let_def StructType_create_def r_mapType_def bo
    by (subst r_transTypes_registered[where ?T0.0 = T]) simp_all
qed

subsection \<open>The struct cases: a struct type is in the table before its members are translated\<close>

lemma w_Inv_empty: "w_Inv E {} emptyWState"
  by (simp add: w_Inv_def w_Good_def w_Complete_def emptyWState_def)

lemma r_Inv_empty: "r_Inv E {} emptyRState"
  by (simp add: r_Inv_def r_Good_def r_Complete_def emptyRState_def)

text \<open>In the finished entry of a struct type, the member that is a pointer to the struct type
  itself is a pointer entry whose pointee is the entry of the struct.\<close>

lemma w_done_self_pointer:
  assumes d: "w_done E s k i" and t: "w_TypeMap s (StructTy k) = Some i"
    and e: "st_elements (w_structs E k) = Some els" and p: "p < length els"
    and m: "els ! p = PointerTy (StructTy k) a"
  shows "\<exists>nm ms pk j. w_entries s i = Some (OpTypeStruct nm ms pk True) \<and> p < length ms \<and> ms ! p = Some j
           \<and> w_entries s j = Some (OpTypePointer (w_SPIRSPIRVAddrSpaceMap E a) i)"
proof -
  from d e obtain nm ms pk where en: "w_entries s i = Some (OpTypeStruct nm ms pk True)"
    and l: "list_all2 (w_memberOk E s) ms els"
    by (auto simp: w_done_def split: option.splits SPIRVEntry.splits)
  have len: "length ms = length els" using l by (rule list_all2_lengthD)
  have "w_memberOk E s (ms ! p) (els ! p)" using l p len by (simp add: list_all2_nthD2)
  then obtain j where j: "ms ! p = Some j" and mj: "w_matches E s j (PointerTy (StructTy k) a)"
    using m by (auto simp: w_memberOk_def split: option.splits)
  from mj t have "w_entries s j = Some (OpTypePointer (w_SPIRSPIRVAddrSpaceMap E a) i)"
    by (auto split: option.splits SPIRVEntry.splits)
  then show ?thesis using en j p len by simp
qed

text \<open>A type that stands for a struct entry is the struct type the table gives the entry.\<close>

lemma r_matches_struct:
  assumes "r_matches E s T Ty" and "isStructEntry (r_entries E T)"
  shows "\<exists>k. Ty = StructTy k \<and> r_TypeMap s T = Some (StructTy k)"
  using assms by (cases Ty) (auto simp: isStructEntry_def split: option.splits SPIRVEntry.splits)

text \<open>In the finished struct type of a struct entry, the type of the member that is a pointer
  to the entry itself is a pointer to the struct type.\<close>

lemma r_done_self_pointer:
  assumes d: "r_done E s T k" and t: "r_TypeMap s T = Some (StructTy k)"
    and e: "r_entries E T = Some (OpTypeStruct nm ms pk c)" and p: "p < length ms"
    and m: "ms ! p = Some j" and j: "r_entries E j = Some (OpTypePointer SC T)"
  shows "\<exists>els. st_elements (r_structs s ! k) = Some els \<and> p < length els
           \<and> els ! p = PointerTy (StructTy k) (r_SPIRSPIRVAddrSpaceMap_rmap E SC)"
proof -
  from d e obtain els where el: "st_elements (r_structs s ! k) = Some els"
    and l: "list_all2 (r_memberOk E s) ms els"
    by (auto simp: r_done_def split: option.splits)
  have len: "length ms = length els" using l by (rule list_all2_lengthD)
  have "r_memberOk E s (ms ! p) (els ! p)" using l p by (simp add: list_all2_nthD)
  then have mj: "r_matches E s j (els ! p)" using m by (simp add: r_memberOk_def)
  then obtain ET where ep: "els ! p = PointerTy ET (r_SPIRSPIRVAddrSpaceMap_rmap E SC)"
    and mt: "r_matches E s T ET"
    using j by (cases "els ! p") (auto simp: isStructEntry_def split: option.splits SPIRVEntry.splits)
  have "isStructEntry (r_entries E T)" using e by (simp add: isStructEntry_def)
  from r_matches_struct[OF mt this] t have "ET = StructTy k" by auto
  then show ?thesis using el ep p len by simp
qed

text \<open>Claim C5. Translating a struct type enters it in the translation table before its member
  types are translated, in both directions; so the translation of a struct type that holds a
  pointer to itself (directly, or through arrays and other structs) ends, and the struct it
  gives refers to itself in the same way.

  Encoder. The struct types of the module are finitely many and the members of each refer to
  struct types of the module only (\<open>U\<close> is the set of them); the state \<open>s\<close> is one the type
  translation has reached (the invariant \<open>w_Inv\<close>, which holds of the empty state and which
  every call keeps). Then (1) the struct case calls the translator for the members only in
  states whose table holds the struct: replacing these calls by ones that fail when the struct
  is not in the table changes nothing; (2) the call of \<open>transType\<close> on the struct type ends:
  from some fuel on the result is the same and is not the end of the fuel (it is the struct, or
  the failure the translator gives for a member type it does not support, or the mark of a
  struct the model leaves out); (3) when it returns an entry, the table maps the struct type to
  that entry, the entry is the finished struct (name, packing, closed, every member standing
  for its member type), and a member that is a pointer to the struct type itself is a pointer
  entry whose pointee is that very entry.

  Decoder. The binary module has finitely many struct entries and every entry that is no struct
  is declared after its operands (\<open>rank\<close>: only a struct names a member declared later, the
  forward pointer of the binary format); the state \<open>rs\<close> is one the type translation has
  reached (\<open>r_Inv\<close>). Then the same three hold for a struct entry \<open>T\<close>: (4) the members are
  translated only once \<open>T\<close> is in the table, (5) the call ends, (6) when it returns a type,
  this is a struct type, the table maps \<open>T\<close> to it, it is the finished struct (packing, every
  member type standing for its member), and the type of a member that is a pointer to \<open>T\<close> is
  a pointer to that very struct type.\<close>

theorem struct_registered_before_members:
  assumes wfin: "finite U" and wcl: "closedU (w_structs E) U" and wk: "k \<in> U" and wiv: "w_Inv E {} s"
    and rfin: "finite {i. isStructEntry (r_entries RE i)}" and rord: "r_ordered rank RE"
    and riv: "r_Inv RE {} rs"
    and ren: "r_entries RE T = Some (OpTypeStruct Name Members Packed Closed)"
  shows "transStructType (transType n E) n' E k s
           = transStructType (onceRegistered (StructTy k) (transType n E)) n' E k s
       \<and> halts (\<lambda>m. transType m E (StructTy k) s)
       \<and> (\<forall>m i s'. transType m E (StructTy k) s = (Ok i, s') \<longrightarrow>
             w_Inv E {} s' \<and> w_TypeMap s' (StructTy k) = Some i \<and> w_done E s' k i
             \<and> (\<forall>els p a. st_elements (w_structs E k) = Some els \<longrightarrow> p < length els
                    \<longrightarrow> els ! p = PointerTy (StructTy k) a \<longrightarrow>
                  (\<exists>nm ms pk j. w_entries s' i = Some (OpTypeStruct nm ms pk True) \<and> p < length ms
                      \<and> ms ! p = Some j
                      \<and> w_entries s' j = Some (OpTypePointer (w_SPIRSPIRVAddrSpaceMap E a) i))))
       \<and> r_transStructType (r_transType n RE) T Name Members Packed rs
           = r_transStructType (r_onceRegistered T (r_transType n RE)) T Name Members Packed rs
       \<and> halts (\<lambda>m. r_transType m RE T b rs)
       \<and> (\<forall>m Ty rs'. r_transType m RE T b rs = (Ok Ty, rs') \<longrightarrow>
             r_Inv RE {} rs'
             \<and> (\<exists>k'. Ty = StructTy k' \<and> r_TypeMap rs' T = Some (StructTy k') \<and> r_done RE rs' T k'
                  \<and> (\<forall>p j SC. p < length Members \<longrightarrow> Members ! p = Some j
                         \<longrightarrow> r_entries RE j = Some (OpTypePointer SC T) \<longrightarrow>
                       (\<exists>els. st_elements (r_structs rs' ! k') = Some els \<and> p < length els
                          \<and> els ! p = PointerTy (StructTy k') (r_SPIRSPIRVAddrSpaceMap_rmap RE SC)))))"
proof (intro conjI allI impI)
  show "transStructType (transType n E) n' E k s
          = transStructType (onceRegistered (StructTy k) (transType n E)) n' E k s"
    by (rule transStructType_registered)
next
  show "halts (\<lambda>m. transType m E (StructTy k) s)"
    by (rule transType_halts[OF wfin wcl]) (simp add: wk)
next
  fix m i s' assume t: "transType m E (StructTy k) s = (Ok i, s')"
  from w_soundD[OF w_sound_transType wiv t]
  show iv: "w_Inv E {} s'" and tm: "w_TypeMap s' (StructTy k) = Some i" by simp_all
  show d: "w_done E s' k i" using w_InvC[OF iv] tm by (simp add: w_Complete_def)
  fix els p a
  assume "st_elements (w_structs E k) = Some els" "p < length els" "els ! p = PointerTy (StructTy k) a"
  then show "\<exists>nm ms pk j. w_entries s' i = Some (OpTypeStruct nm ms pk True) \<and> p < length ms
                \<and> ms ! p = Some j
                \<and> w_entries s' j = Some (OpTypePointer (w_SPIRSPIRVAddrSpaceMap E a) i)"
    by (rule w_done_self_pointer[OF d tm])
next
  show "r_transStructType (r_transType n RE) T Name Members Packed rs
          = r_transStructType (r_onceRegistered T (r_transType n RE)) T Name Members Packed rs"
    by (rule r_transStructType_registered)
next
  show "halts (\<lambda>m. r_transType m RE T b rs)" by (rule r_transType_halts[OF rfin rord])
next
  fix m Ty rs' assume t: "r_transType m RE T b rs = (Ok Ty, rs')"
  from r_soundD[OF r_sound_transType riv t]
  have iv: "r_Inv RE {} rs'" and mt: "r_matches RE rs' T Ty" by simp_all
  show "r_Inv RE {} rs'" by (rule iv)
  have se: "isStructEntry (r_entries RE T)" using ren by (simp add: isStructEntry_def)
  from r_matches_struct[OF mt se] obtain k' where ty: "Ty = StructTy k'"
    and tm: "r_TypeMap rs' T = Some (StructTy k')" by blast
  have d: "r_done RE rs' T k'" using r_InvC[OF iv] tm by (simp add: r_Complete_def)
  have "\<forall>p j SC. p < length Members \<longrightarrow> Members ! p = Some j
           \<longrightarrow> r_entries RE j = Some (OpTypePointer SC T) \<longrightarrow>
         (\<exists>els. st_elements (r_structs rs' ! k') = Some els \<and> p < length els
            \<and> els ! p = PointerTy (StructTy k') (r_SPIRSPIRVAddrSpaceMap_rmap RE SC))"
    using r_done_self_pointer[OF d tm ren] by blast
  then show "\<exists>k'. Ty = StructTy k' \<and> r_TypeMap rs' T = Some (StructTy k') \<and> r_done RE rs' T k'
                  \<and> (\<forall>p j SC. p < length Members \<longrightarrow> Members ! p = Some j
                         \<longrightarrow> r_entries RE j = Some (OpTypePointer SC T) \<longrightarrow>
                       (\<exists>els. st_elements (r_structs rs' ! k') = Some els \<and> p < length els
                          \<and> els ! p = PointerTy (StructTy k') (r_SPIRSPIRVAddrSpaceMap_rmap RE SC)))"
    using ty tm d by blast
qed

theorem struct_registered_before_members_witness:
  "transStructType (transType 6 nodeEnv) 6 nodeEnv 0 emptyWState
     = transStructType (onceRegistered (StructTy 0) (transType 6 nodeEnv)) 6 nodeEnv 0 emptyWState
   \<and> halts (\<lambda>m. transType m nodeEnv (StructTy 0) emptyWState)
   \<and> fst (transType 7 nodeEnv (StructTy 0) emptyWState) = Ok 1
   \<and> w_TypeMap (snd (transType 7 nodeEnv (StructTy 0) emptyWState)) (StructTy 0) = Some 1
   \<and> w_done nodeEnv (snd (transType 7 nodeEnv (StructTy 0) emptyWState)) 0 1
   \<and> map (w_entries (snd (transType 7 nodeEnv (StructTy 0) emptyWState))) [1 ..< 8]
       = [Some (OpTypeStruct ''node'' [Some 2, Some 3, Some 6, Some 7] False True),
          Some (OpTypeInt 32), Some (OpTypePointer 5 1), Some (OpTypeInt 64),
          Some (OpConstant 4 [2, 0]), Some (OpTypeArray 3 5),
          Some (OpTypeStruct ''link'' [Some 3] False True)]
   \<and> r_transStructType (r_transType 6 nodeModule) 2 ''node'' [Some 1, Some 3, Some 5, Some 6] False emptyRState
     = r_transStructType (r_onceRegistered 2 (r_transType 6 nodeModule)) 2 ''node''
         [Some 1, Some 3, Some 5, Some 6] False emptyRState
   \<and> halts (\<lambda>m. r_transType m nodeModule 2 False emptyRState)
   \<and> fst (r_transType 3 nodeModule 2 False emptyRState) = Ok (StructTy 0)
   \<and> r_TypeMap (snd (r_transType 3 nodeModule 2 False emptyRState)) 2 = Some (StructTy 0)
   \<and> r_done nodeModule (snd (r_transType 3 nodeModule 2 False emptyRState)) 2 0
   \<and> r_structs (snd (r_transType 3 nodeModule 2 False emptyRState))
       = [\<lparr>st_name = ''node'',
           st_elements = Some [IntegerTy 32, PointerTy (StructTy 0) 1,
                               ArrayTy (PointerTy (StructTy 0) 1) 2, StructTy 1],
           st_isPacked = False\<rparr>,
          \<lparr>st_name = ''link'', st_elements = Some [PointerTy (StructTy 0) 1], st_isPacked = False\<rparr>]"
proof -
  have wfin: "finite {0, 1::nat}" by simp
  have wcl: "closedU (w_structs nodeEnv) {0, 1}" by (simp add: closedU_def nodeEnv_def)
  have wk: "(0::nat) \<in> {0, 1}" by simp
  have sub: "{i. isStructEntry (r_entries nodeModule i)} \<subseteq> {2, 6}"
    by (auto simp: isStructEntry_def nodeModule_def split: if_splits)
  have rfin: "finite {i. isStructEntry (r_entries nodeModule i)}"
    by (rule finite_subset[OF sub]) simp
  have rord: "r_ordered (\<lambda>i. i) nodeModule"
    by (auto simp: r_ordered_def nodeModule_def split: if_splits)
  have ren: "r_entries nodeModule 2 = Some (OpTypeStruct ''node'' [Some 1, Some 3, Some 5, Some 6] False True)"
    by (simp add: nodeModule_def)
  note r = struct_registered_before_members [OF wfin wcl wk w_Inv_empty rfin rord r_Inv_empty ren,
      where n = 6 and n' = 6 and b = False]
  have w1: "fst (transType 7 nodeEnv (StructTy 0) emptyWState) = Ok 1" by code_simp
  have w2: "map (w_entries (snd (transType 7 nodeEnv (StructTy 0) emptyWState))) [1 ..< 8]
       = [Some (OpTypeStruct ''node'' [Some 2, Some 3, Some 6, Some 7] False True),
          Some (OpTypeInt 32), Some (OpTypePointer 5 1), Some (OpTypeInt 64),
          Some (OpConstant 4 [2, 0]), Some (OpTypeArray 3 5),
          Some (OpTypeStruct ''link'' [Some 3] False True)]" by code_simp
  have r1: "fst (r_transType 3 nodeModule 2 False emptyRState) = Ok (StructTy 0)" by code_simp
  have r2: "r_structs (snd (r_transType 3 nodeModule 2 False emptyRState))
       = [\<lparr>st_name = ''node'',
           st_elements = Some [IntegerTy 32, PointerTy (StructTy 0) 1,
                               ArrayTy (PointerTy (StructTy 0) 1) 2, StructTy 1],
           st_isPacked = False\<rparr>,
          \<lparr>st_name = ''link'', st_elements = Some [PointerTy (StructTy 0) 1], st_isPacked = False\<rparr>]"
    by code_simp
  have we: "transType 7 nodeEnv (StructTy 0) emptyWState
              = (Ok 1, snd (transType 7 nodeEnv (StructTy 0) emptyWState))"
    using w1 by (simp add: prod_eq_iff)
  have re: "r_transType 3 nodeModule 2 False emptyRState
              = (Ok (StructTy 0), snd (r_transType 3 nodeModule 2 False emptyRState))"
    using r1 by (simp add: prod_eq_iff)
  note c1 = r[THEN conjunct1]
  note c2 = r[THEN conjunct2, THEN conjunct1]
  note c3 = r[THEN conjunct2, THEN conjunct2, THEN conjunct1, rule_format, OF we]
  note c4 = r[THEN conjunct2, THEN conjunct2, THEN conjunct2, THEN conjunct1]
  note c5 = r[THEN conjunct2, THEN conjunct2, THEN conjunct2, THEN conjunct2, THEN conjunct1]
  note c6 = r[THEN conjunct2, THEN conjunct2, THEN conjunct2, THEN conjunct2, THEN conjunct2,
      rule_format, OF re]
  note w3 = c3[THEN conjunct2, THEN conjunct1]
  note w4 = c3[THEN conjunct2, THEN conjunct2, THEN conjunct1]
  from c6 obtain k' where k: "StructTy 0 = StructTy k'"
    and r3': "r_TypeMap (snd (r_transType 3 nodeModule 2 False emptyRState)) 2 = Some (StructTy k')"
    and r4': "r_done nodeModule (snd (r_transType 3 nodeModule 2 False emptyRState)) 2 k'" by blast
  from k have k0: "k' = 0" by simp
  note r3 = r3'[unfolded k0]
  note r4 = r4'[unfolded k0]
  show ?thesis by (intro conjI) (fact c1 c2 w1 w2 w3 w4 c4 c5 r1 r2 r3 r4)+
qed

end
